(* ===== verification/Drunix_Prelude.thy ===== *)
theory Drunix_Prelude
  imports Main "HOL-Library.Word" "HOL-Library.Monad_Syntax"
begin

text \<open>
  Vocabulary shared by every component theory: the machine integer types of the kernel
  sources, page arithmetic, the ``first index that satisfies'' scan that the fixed-size
  kernel tables use, and the word and list lemmas the component proofs rest on.
\<close>

unbundle bit_operations_syntax

section \<open>Machine integers\<close>

text \<open>
  \<open>uint8_t\<close>, \<open>uint32_t\<close> and \<open>uint64_t\<close> keep their width.  Addresses are the 32-bit
  words of the i386 port, which is also where \<open>uintptr_t\<close> and \<open>sizeof (void *)\<close> are read.
\<close>

type_synonym u8 = "8 word"
type_synonym u32 = "32 word"
type_synonym u64 = "64 word"

text \<open>
  Two collections: \<open>unat_simps\<close> moves a word inequality to \<open>nat\<close>, \<open>page_simps\<close> does the
  same for masks and alignment.
\<close>

named_theorems unat_simps
named_theorems page_simps

declare word_less_nat_alt [unat_simps] word_le_nat_alt [unat_simps]

lemma unat_u32_bound: "unat (w::u32) < 4294967296"
  by (rule order_less_le_trans [OF unsigned_less]) simp

lemma unat_u8_bound: "unat (w::u8) < 256"
  by (rule order_less_le_trans [OF unsigned_less]) simp

lemma u8_less_max: "w < 0xFF \<longleftrightarrow> w \<noteq> (0xFF::u8)"
  using unat_u8_bound [of w] by (auto simp: word_less_nat_alt word_unat_eq_iff)

lemma u8_Suc_nonzero: "w \<noteq> 0xFF \<Longrightarrow> w + 1 \<noteq> (0::u8)"
  using unat_u8_bound [of w] by (auto simp: word_unat_eq_iff unat_plus_if' split: if_splits)

lemma unat_u32_add:
  fixes a b :: u32
  assumes "unat a + unat b < 4294967296"
  shows "unat (a + b) = unat a + unat b"
  using assms by (simp add: unat_plus_if')

lemma unat_u32_sub:
  fixes a b :: u32
  assumes "b \<le> a"
  shows "unat (a - b) = unat a - unat b"
  using assms by (rule unat_sub)

lemma unat_eqI: "unat a = unat b \<Longrightarrow> a = (b :: 'a::len word)"
  by (simp add: word_unat_eq_iff)

lemma unat_of_nat_u32: "n < 4294967296 \<Longrightarrow> unat (of_nat n :: u32) = n"
  by (simp add: unat_of_nat)

lemma and_not_mask_eq_minus:
  fixes w :: "'a::len word"
  shows "w AND NOT (mask n) = w - take_bit n w"
proof -
  have "w AND NOT (mask n) = push_bit n (drop_bit n w)"
    by (rule bit_eqI) (auto simp: bit_simps)
  moreover have "push_bit n (drop_bit n w) + take_bit n w = w"
    by (rule bits_ident)
  ultimately show ?thesis
    by (metis add_diff_cancel_right')
qed

lemma unat_take_bit_word:
  fixes w :: "'a::len word"
  shows "unat (take_bit n w) = unat w mod 2 ^ n"
  by (simp only: unsigned_take_bit_eq) (simp add: take_bit_eq_mod)

lemma unat_and_not_mask:
  fixes w :: "'a::len word"
  shows "unat (w AND NOT (mask n)) = unat w - unat w mod 2 ^ n"
proof -
  have "take_bit n w \<le> w"
    by (simp add: word_le_nat_alt unat_take_bit_word)
  then show ?thesis
    by (simp add: and_not_mask_eq_minus unat_sub unat_take_bit_word)
qed

lemma unat_and_mask_word:
  fixes w :: "'a::len word"
  shows "unat (w AND mask n) = unat w mod 2 ^ n"
  by (simp add: unat_take_bit_word flip: take_bit_eq_mask)

text \<open>The simplifier writes \<open>NOT 3\<close> and \<open>NOT 0xFFF\<close> as the negative numerals.\<close>

lemma unat_and_not_3 [page_simps]: "unat (w AND - 4 :: u32) = unat w - unat w mod 4"
  using unat_and_not_mask [of w 2] by (simp add: mask_numeral)

lemma unat_and_not_4095 [page_simps]: "unat (w AND - 4096 :: u32) = unat w - unat w mod 4096"
  using unat_and_not_mask [of w 12] by (simp add: mask_numeral)

lemma unat_and_4095 [page_simps]: "unat (w AND 4095 :: u32) = unat w mod 4096"
  using unat_and_mask_word [of w 12] by (simp add: mask_numeral)


section \<open>Table scans\<close>

text \<open>
  The kernel's tables are fixed arrays searched by
  \<^verbatim>\<open>for (i = 0; i < n; i++) if (P(i)) return i;\<close> followed by a failure return.
\<close>

definition scan_first :: "(nat \<Rightarrow> bool) \<Rightarrow> nat \<Rightarrow> nat option" where
  "scan_first P n = find P [0..<n]"

lemma scan_first_SomeD:
  assumes "scan_first P n = Some i"
  shows "i < n" "P i" "\<And>j. j < i \<Longrightarrow> \<not> P j"
proof -
  from assms obtain k where k: "k < length [0..<n]" "P ([0..<n] ! k)" "i = [0..<n] ! k"
      "\<forall>j<k. \<not> P ([0..<n] ! j)"
    unfolding scan_first_def find_Some_iff by blast
  then show "i < n" "P i" by auto
  fix j assume "j < i"
  with k have "j < k" "j < n" by auto
  with k(4) show "\<not> P j" by force
qed

lemma scan_first_None: "scan_first P n = None \<longleftrightarrow> (\<forall>i<n. \<not> P i)"
  by (auto simp: scan_first_def find_None_iff)

lemma scan_first_least:
  assumes "i < n" "P i"
  shows "\<exists>k. scan_first P n = Some k \<and> k \<le> i \<and> P k"
proof (cases "scan_first P n")
  case None
  with assms show ?thesis by (simp add: scan_first_None)
next
  case (Some k)
  with assms have "k \<le> i" using scan_first_SomeD(3) [OF Some, of i] by force
  with Some show ?thesis using scan_first_SomeD(2) by blast
qed

lemma scan_first_eq_SomeI:
  assumes "i < n" "P i" "\<And>j. j < i \<Longrightarrow> \<not> P j"
  shows "scan_first P n = Some i"
proof -
  from scan_first_least [of i n P] assms(1,2)
  obtain k where k: "scan_first P n = Some k" "k \<le> i" "P k" by blast
  with assms(3) have "k = i" by (metis le_neq_implies_less)
  with k(1) show ?thesis by simp
qed

lemma scan_first_cong:
  assumes "\<And>i. i < n \<Longrightarrow> P i = Q i"
  shows "scan_first P n = scan_first Q n"
  unfolding scan_first_def by (rule find_cong) (auto simp: assms)

section \<open>The ends of a linked list\<close>

definition first_of :: "nat list \<Rightarrow> nat option \<Rightarrow> nat option" where
  "first_of xs n = (case xs of [] \<Rightarrow> n | x # _ \<Rightarrow> Some x)"

definition last_of :: "nat list \<Rightarrow> nat option \<Rightarrow> nat option" where
  "last_of xs p = (if xs = [] then p else Some (last xs))"

lemma first_of_simps [simp]: "first_of [] n = n" "first_of (x # xs) n = Some x" "first_of (xs @ ys) n = first_of xs (first_of ys n)"
  by (auto simp: first_of_def split: list.splits)

lemma last_of_simps [simp]: "last_of [] p = p" "last_of (x # xs) p = last_of xs (Some x)" "last_of (xs @ ys) p = last_of ys (last_of xs p)"
  by (auto simp: last_of_def)

lemma nth_upd: "xs[i := x] ! k = (if k = i \<and> i < length xs then x else xs ! k)"
  by (cases "i < length xs") (auto simp: list_update_beyond)

end
