(* ===== verification/Kheap.thy ===== *)
theory Kheap
  imports Drunix_Prelude
begin

text \<open>
  The kernel heap of \<^verbatim>\<open>kernel/mm/kheap.c\<close>: a first-fit allocator whose blocks are threaded
  by headers stored in front of each payload.  A header is the four words of
  \<^verbatim>\<open>heap_block_t\<close>; \<open>heap_mem\<close> reads the header at an address.  The walks
  \<^verbatim>\<open>while (cur)\<close> follow \<open>hb_next\<close> pointers and may run forever on a corrupted (cyclic)
  chain, so they are \<open>partial_function (option)\<close>: \<open>None\<close> is ``does not return''.
\<close>

section \<open>Headers and operations\<close>

record heap_block =
  hb_magic :: u32
  hb_size :: u32
  hb_free :: u32
  hb_next :: u32

record kheap =
  heap_head :: u32
  heap_mem :: "u32 \<Rightarrow> heap_block"

definition HEAP_MAGIC :: u32 where "HEAP_MAGIC = 0xDEADBEEF"

text \<open>\<open>sizeof(heap_block_t)\<close> and \<open>sizeof(uintptr_t)\<close> on i386.\<close>

definition HEAP_HDR :: u32 where "HEAP_HDR = 16"

definition HEAP_ALIGN :: u32 where "HEAP_ALIGN = 4"

definition HEAP_MIN_SPLIT :: u32 where "HEAP_MIN_SPLIT = HEAP_HDR + 16"

lemmas heap_consts = HEAP_MAGIC_def HEAP_HDR_def HEAP_ALIGN_def HEAP_MIN_SPLIT_def

definition heap_align_size :: "u32 \<Rightarrow> u32" where
  "heap_align_size req = (req + HEAP_ALIGN - 1) AND NOT (HEAP_ALIGN - 1)"

definition kheap_init :: "u32 \<Rightarrow> u32 \<Rightarrow> kheap \<Rightarrow> kheap" where
  "kheap_init base req h =
     h\<lparr>heap_head := base,
       heap_mem := (heap_mem h)(base :=
         \<lparr>hb_magic = HEAP_MAGIC, hb_size = req - HEAP_HDR, hb_free = 1, hb_next = 0\<rparr>)\<rparr>"

text \<open>The body of the loop of \<open>kmalloc\<close> once a fitting block \<open>cur\<close> is found.\<close>

definition kmalloc_take :: "kheap \<Rightarrow> u32 \<Rightarrow> u32 \<Rightarrow> u32 \<times> kheap" where
  "kmalloc_take h cur req =
     (let b = heap_mem h cur;
          h1 = (if req + HEAP_MIN_SPLIT \<le> hb_size b then
                  let nxt = cur + HEAP_HDR + req;
                      nb = \<lparr>hb_magic = HEAP_MAGIC, hb_size = hb_size b - req - HEAP_HDR,
                            hb_free = 1, hb_next = hb_next b\<rparr>
                  in h\<lparr>heap_mem := (heap_mem h)(nxt := nb, cur := b\<lparr>hb_size := req, hb_next := nxt\<rparr>)\<rparr>
                else h);
          h2 = h1\<lparr>heap_mem := (heap_mem h1)(cur := (heap_mem h1 cur)\<lparr>hb_free := 0\<rparr>)\<rparr>
      in (cur + HEAP_HDR, h2))"

partial_function (option) kmalloc_walk :: "kheap \<Rightarrow> u32 \<Rightarrow> u32 \<Rightarrow> (u32 \<times> kheap) option" where
  "kmalloc_walk h cur req =
     (if cur = 0 then Some (0, h)
      else if hb_magic (heap_mem h cur) \<noteq> HEAP_MAGIC then Some (0, h)
      else if hb_free (heap_mem h cur) \<noteq> 0 \<and> req \<le> hb_size (heap_mem h cur)
        then Some (kmalloc_take h cur req)
      else kmalloc_walk h (hb_next (heap_mem h cur)) req)"

definition kmalloc :: "kheap \<Rightarrow> u32 \<Rightarrow> (u32 \<times> kheap) option" where
  "kmalloc h req = kmalloc_walk h (heap_head h) (heap_align_size req)"

partial_function (option) kfree_coalesce :: "kheap \<Rightarrow> u32 \<Rightarrow> kheap option" where
  "kfree_coalesce h cur =
     (if cur = 0 \<or> hb_next (heap_mem h cur) = 0 then Some h
      else let b = heap_mem h cur; n = heap_mem h (hb_next b) in
        if hb_free b \<noteq> 0 \<and> hb_free n \<noteq> 0 then
          kfree_coalesce
            (h\<lparr>heap_mem := (heap_mem h)(cur :=
                 b\<lparr>hb_size := hb_size b + (HEAP_HDR + hb_size n), hb_next := hb_next n\<rparr>)\<rparr>)
            cur
        else kfree_coalesce h (hb_next b))"

definition kfree :: "kheap \<Rightarrow> u32 \<Rightarrow> kheap option" where
  "kfree h ptr =
     (if ptr = 0 then Some h
      else let block = ptr - HEAP_HDR in
        if hb_magic (heap_mem h block) \<noteq> HEAP_MAGIC then Some h
        else let h1 = h\<lparr>heap_mem := (heap_mem h)(block := (heap_mem h block)\<lparr>hb_free := 1\<rparr>)\<rparr>
             in kfree_coalesce h1 (heap_head h1))"

partial_function (option) kheap_free_walk :: "kheap \<Rightarrow> u32 \<Rightarrow> u32 \<Rightarrow> u32 option" where
  "kheap_free_walk h cur acc =
     (if cur = 0 then Some acc
      else kheap_free_walk h (hb_next (heap_mem h cur))
             (if hb_free (heap_mem h cur) \<noteq> 0 then acc + hb_size (heap_mem h cur) else acc))"

definition kheap_free_bytes :: "kheap \<Rightarrow> u32 option" where
  "kheap_free_bytes h = kheap_free_walk h (heap_head h) 0"


section \<open>The segment list a heap represents\<close>

text \<open>
  Abstractly the arena is a list of segments (header address, payload size, free?) that tile
  it without gaps.  \<open>heap_chain M pos segs lim\<close>: the headers of \<open>M\<close> thread \<open>segs\<close>, the first
  header is at byte \<open>pos\<close>, every payload ends where the next header starts and the last one
  ends at \<open>lim\<close>.
\<close>

type_synonym seg = "u32 \<times> u32 \<times> bool"

fun heap_chain :: "(u32 \<Rightarrow> heap_block) \<Rightarrow> nat \<Rightarrow> seg list \<Rightarrow> nat \<Rightarrow> bool" where
  "heap_chain M pos [] lim \<longleftrightarrow> pos = lim"
| "heap_chain M pos ((b, sz, fr) # s) lim \<longleftrightarrow>
     unat b = pos \<and> b \<noteq> 0 \<and>
     hb_magic (M b) = HEAP_MAGIC \<and> hb_size (M b) = sz \<and> (hb_free (M b) \<noteq> 0) = fr \<and>
     hb_next (M b) = (if s = [] then 0 else fst (hd s)) \<and>
     heap_chain M (pos + 16 + unat sz) s lim"

definition heap_wf :: "kheap \<Rightarrow> seg list \<Rightarrow> nat \<Rightarrow> bool" where
  "heap_wf h segs lim \<longleftrightarrow>
     segs \<noteq> [] \<and> 32 \<le> unat (heap_head h) \<and> lim < 4294967296 \<and>
     heap_chain (heap_mem h) (unat (heap_head h)) segs lim"

text \<open>First fit and coalescing on segment lists: the specification of the two operations.\<close>

fun ff_alloc :: "u32 \<Rightarrow> seg list \<Rightarrow> u32 \<times> seg list" where
  "ff_alloc n [] = (0, [])"
| "ff_alloc n ((b, sz, fr) # s) =
     (if fr \<and> n \<le> sz then
        (b + 16, if unat n + 32 \<le> unat sz
                 then (b, n, False) # (b + 16 + n, sz - n - 16, True) # s
                 else (b, sz, False) # s)
      else (fst (ff_alloc n s), (b, sz, fr) # snd (ff_alloc n s)))"

fun seg_coalesce :: "seg list \<Rightarrow> seg list" where
  "seg_coalesce [] = []"
| "seg_coalesce [x] = [x]"
| "seg_coalesce ((b, sz, fr) # (c, sz', fr') # s) =
     (if fr \<and> fr' then seg_coalesce ((b, sz + (16 + sz'), True) # s)
      else (b, sz, fr) # seg_coalesce ((c, sz', fr') # s))"

definition seg_free :: "u32 \<Rightarrow> seg list \<Rightarrow> seg list" where
  "seg_free b segs = map (\<lambda>(c, sz, fr). (c, sz, fr \<or> c = b)) segs"

lemma heap_chain_lim: "heap_chain M pos segs lim \<Longrightarrow> pos \<le> lim"
  by (induction segs arbitrary: pos) force+

lemma heap_chain_addr:
  "heap_chain M pos segs lim \<Longrightarrow> (b, sz, fr) \<in> set segs \<Longrightarrow> pos \<le> unat b \<and> unat b + 16 + unat sz \<le> lim"
  by (induction segs arbitrary: pos) (fastforce dest: heap_chain_lim)+

lemma heap_chain_cong:
  assumes "heap_chain M pos segs lim" "\<forall>x\<in>set segs. M' (fst x) = M (fst x)"
  shows "heap_chain M' pos segs lim"
  using assms by (induction segs arbitrary: pos) auto

lemma heap_chain_upd_below:
  assumes "heap_chain M pos segs lim" "unat c < pos"
  shows "heap_chain (M(c := x)) pos segs lim"
proof (rule heap_chain_cong [OF assms(1)], rule ballI)
  fix y assume y: "y \<in> set segs"
  obtain b sz fr where "y = (b, sz, fr)" by (cases y)
  with y heap_chain_addr [OF assms(1), of b sz fr] have "pos \<le> unat (fst y)" by simp
  with assms(2) show "(M(c := x)) (fst y) = M (fst y)" by auto
qed

lemma heap_chain_cur:
  assumes "heap_chain M pos segs lim" "segs \<noteq> []"
  shows "\<exists>b sz fr s. segs = (b, sz, fr) # s \<and> unat b = pos"
  using assms by (cases segs) auto


definition seg_addr :: "seg list \<Rightarrow> u32" where
  "seg_addr segs = (if segs = [] then 0 else fst (hd segs))"

lemma seg_addr_simps [simp]: "seg_addr [] = 0" "seg_addr ((b, x) # s) = b"
  by (simp_all add: seg_addr_def)

lemma ff_alloc_addr [simp]: "seg_addr (snd (ff_alloc n s)) = seg_addr s"
  by (cases "(n, s)" rule: ff_alloc.cases) auto

lemma ff_alloc_Nil [simp]: "snd (ff_alloc n s) = [] \<longleftrightarrow> s = []"
  by (cases "(n, s)" rule: ff_alloc.cases) auto

lemma heap_chain_Cons:
  "heap_chain M pos ((b, sz, fr) # s) lim \<longleftrightarrow>
     unat b = pos \<and> b \<noteq> 0 \<and>
     hb_magic (M b) = HEAP_MAGIC \<and> hb_size (M b) = sz \<and> (hb_free (M b) \<noteq> 0) = fr \<and>
     hb_next (M b) = seg_addr s \<and> heap_chain M (pos + 16 + unat sz) s lim"
  by (simp add: seg_addr_def)

declare heap_chain.simps(2) [simp del]

lemma heap_chain_seg_addr: "heap_chain M pos s lim \<Longrightarrow> s \<noteq> [] \<Longrightarrow> seg_addr s \<noteq> 0"
  by (cases s) (auto simp: heap_chain_Cons)

lemma kmalloc_take_chain:
  assumes ch: "heap_chain (heap_mem h) pos ((b, sz, fr) # s) lim"
    and lim: "lim \<le> 4294967296" and pos: "32 \<le> pos" and fit: "n \<le> sz"
  defines "r \<equiv> kmalloc_take h b n"
  defines "segs' \<equiv> (if unat n + 32 \<le> unat sz
                 then (b, n, False) # (b + 16 + n, sz - n - 16, True) # s
                 else (b, sz, False) # s)"
  shows "fst r = b + 16 \<and> heap_head (snd r) = heap_head h \<and>
         heap_chain (heap_mem (snd r)) pos segs' lim \<and>
         (\<forall>c. unat c < pos \<longrightarrow> heap_mem (snd r) c = heap_mem h c)"
proof -
  note ch' = ch [unfolded heap_chain_Cons]
  have tail: "heap_chain (heap_mem h) (pos + 16 + unat sz) s lim" using ch' by blast
  have le: "pos + 16 + unat sz \<le> lim" using tail by (rule heap_chain_lim)
  have nle: "unat n \<le> unat sz" using fit by (simp add: word_le_nat_alt)
  have un: "unat (n + 32) = unat n + 32"
    using le lim pos nle by (simp add: unat_u32_add)
  have split: "n + 32 \<le> sz \<longleftrightarrow> unat n + 32 \<le> unat sz"
    by (simp add: word_le_nat_alt un)
  have b: "unat b = pos" using ch' by simp
  show ?thesis
  proof (cases "unat n + 32 \<le> unat sz")
    case True
    have ub: "unat (b + 16 + n) = pos + 16 + unat n"
      using True le lim by (simp add: unat_u32_add b)
    have us: "unat (sz - n - 16) = unat sz - unat n - 16"
      using True nle by (simp add: unat_sub_if')
    have ne: "b + 16 + n \<noteq> b" "b + 16 + n \<noteq> 0"
      using ub b by (metis add.assoc less_add_same_cancel1 nat_neq_iff add_gr_0 zero_less_numeral,
        metis unat_0 add_is_0 zero_neq_numeral)
    have upd: "heap_chain ((heap_mem h)(b + 16 + n := x, b := y)) (16 + (pos + unat sz)) s lim" for x y
      using tail ub b True nle by (auto simp: ac_simps intro!: heap_chain_upd_below)
    have nb: "pos + 16 + unat n + 16 + (unat sz - unat n - 16) = pos + 16 + unat sz"
      using True by simp
    show ?thesis
      unfolding r_def segs'_def kmalloc_take_def Let_def heap_chain_Cons
      using True ch' ub us ne upd nb by (simp add: split heap_consts heap_chain_Cons)
  next
    case False
    show ?thesis
      unfolding r_def segs'_def kmalloc_take_def Let_def
      using False ch' tail
      by (auto simp: split heap_consts heap_chain_Cons intro!: heap_chain_upd_below)
  qed
qed

lemma kmalloc_walk_refines:
  assumes "heap_chain (heap_mem h) pos segs lim" "lim \<le> 4294967296" "32 \<le> pos"
  shows "\<exists>h'. kmalloc_walk h (seg_addr segs) n = Some (fst (ff_alloc n segs), h') \<and>
           heap_head h' = heap_head h \<and>
           heap_chain (heap_mem h') pos (snd (ff_alloc n segs)) lim \<and>
           (\<forall>c. unat c < pos \<longrightarrow> heap_mem h' c = heap_mem h c)"
  using assms
proof (induction segs arbitrary: pos)
  case Nil
  then show ?case by (simp add: kmalloc_walk.simps)
next
  case (Cons a s)
  obtain b sz fr where a: "a = (b, sz, fr)" by (cases a)
  note ch = Cons.prems(1) [unfolded a heap_chain_Cons]
  show ?case
  proof (cases "fr \<and> n \<le> sz")
    case True
    show ?thesis
      using kmalloc_take_chain [OF Cons.prems(1) [unfolded a] Cons.prems(2,3), of n] True ch
      by (cases "kmalloc_take h b n") (auto simp: a kmalloc_walk.simps [of h b n])
  next
    case False
    from Cons.IH [of "pos + 16 + unat sz"] ch Cons.prems(2,3)
    obtain h' where h': "kmalloc_walk h (seg_addr s) n = Some (fst (ff_alloc n s), h')"
        "heap_head h' = heap_head h"
        "heap_chain (heap_mem h') (pos + 16 + unat sz) (snd (ff_alloc n s)) lim"
        "\<forall>c. unat c < pos + 16 + unat sz \<longrightarrow> heap_mem h' c = heap_mem h c"
      by auto
    have "heap_mem h' b = heap_mem h b" using h'(4) ch by simp
    then show ?thesis
      using h' ch False by (auto simp: a kmalloc_walk.simps [of h b n] heap_chain_Cons)
  qed
qed


lemma seg_coalesce_addr [simp]: "seg_addr (seg_coalesce s) = seg_addr s"
  by (induction s rule: seg_coalesce.induct) (auto simp: seg_addr_def split: if_splits)

lemma kfree_coalesce_refines:
  assumes "heap_chain (heap_mem h) pos segs lim" "lim \<le> 4294967296"
  shows "\<exists>h'. kfree_coalesce h (seg_addr segs) = Some h' \<and> heap_head h' = heap_head h \<and>
           heap_chain (heap_mem h') pos (seg_coalesce segs) lim \<and>
           (\<forall>c. unat c < pos \<longrightarrow> heap_mem h' c = heap_mem h c)"
  using assms
proof (induction segs arbitrary: h pos rule: seg_coalesce.induct)
  case 1
  then show ?case by (simp add: kfree_coalesce.simps)
next
  case (2 x)
  then show ?case
    by (cases x) (simp add: kfree_coalesce.simps heap_chain_Cons)
next
  case (3 b sz fr c sz' fr' s)
  note ch = "3.prems"(1) [unfolded heap_chain_Cons, simplified]
  have tl: "heap_chain (heap_mem h) (pos + 16 + unat sz + 16 + unat sz') s lim" using ch by simp
  have le: "pos + 16 + unat sz + 16 + unat sz' \<le> lim" using tl by (rule heap_chain_lim)
  show ?case
  proof (cases "fr \<and> fr'")
    case True
    define M where "M = (heap_mem h)(b := (heap_mem h b)\<lparr>hb_size := sz + (16 + sz'), hb_next := seg_addr s\<rparr>)"
    define h1 where "h1 = h\<lparr>heap_mem := M\<rparr>"
    have us: "unat (sz + (16 + sz')) = unat sz + 16 + unat sz'"
      using le "3.prems"(2) by (simp add: unat_u32_add)
    have "heap_chain M (pos + 16 + unat sz + 16 + unat sz') s lim"
      unfolding M_def using tl ch by (auto intro: heap_chain_upd_below)
    then have "heap_chain M pos ((b, sz + (16 + sz'), True) # s) lim"
      using ch True us by (simp add: heap_chain_Cons add.assoc M_def)
    then have "heap_chain (heap_mem h1) pos ((b, sz + (16 + sz'), True) # s) lim"
      by (simp add: h1_def)
    from "3.IH"(1) [OF True this "3.prems"(2)]
    obtain h' where h': "kfree_coalesce h1 b = Some h'" "heap_head h' = heap_head h1"
        "heap_chain (heap_mem h') pos (seg_coalesce ((b, sz + (16 + sz'), True) # s)) lim"
        "\<forall>c. unat c < pos \<longrightarrow> heap_mem h' c = heap_mem h1 c"
      by auto
    moreover have "kfree_coalesce h b = kfree_coalesce h1 b"
      using ch True by (subst kfree_coalesce.simps) (auto simp: Let_def HEAP_HDR_def h1_def M_def)
    ultimately show ?thesis
      using True ch by (auto simp: h1_def M_def)
  next
    case False
    from "3.IH"(2) [OF False, of h "pos + 16 + unat sz"] ch "3.prems"(2)
    obtain h' where h': "kfree_coalesce h c = Some h'" "heap_head h' = heap_head h"
        "heap_chain (heap_mem h') (pos + 16 + unat sz) (seg_coalesce ((c, sz', fr') # s)) lim"
        "\<forall>c. unat c < pos + 16 + unat sz \<longrightarrow> heap_mem h' c = heap_mem h c"
      by (auto simp: heap_chain_Cons)
    moreover have "kfree_coalesce h b = kfree_coalesce h c"
      using ch False by (subst kfree_coalesce.simps) (auto simp: Let_def)
    moreover have "heap_mem h' b = heap_mem h b" using h'(4) ch by simp
    ultimately show ?thesis
      using False ch by (auto simp: heap_chain_Cons)
  qed
qed

lemma heap_chain_free:
  assumes "heap_chain M pos segs lim"
  shows "heap_chain (M(b := (M b)\<lparr>hb_free := 1\<rparr>)) pos (seg_free b segs) lim"
  using assms
proof (induction segs arbitrary: pos)
  case (Cons a s)
  obtain c sz fr where "a = (c, sz, fr)" by (cases a)
  moreover have "seg_addr (seg_free b s) = seg_addr s"
    by (cases s) (auto simp: seg_free_def seg_addr_def)
  ultimately show ?case
    using Cons by (auto simp: heap_chain_Cons seg_free_def)
qed (simp add: seg_free_def)

lemma kmalloc_refines:
  assumes "heap_wf h segs lim"
  shows "\<exists>h'. kmalloc h n = Some (fst (ff_alloc (heap_align_size n) segs), h') \<and>
           heap_wf h' (snd (ff_alloc (heap_align_size n) segs)) lim"
proof -
  from assms have wf: "heap_chain (heap_mem h) (unat (heap_head h)) segs lim" "lim \<le> 4294967296"
      "32 \<le> unat (heap_head h)" "segs \<noteq> []"
    by (auto simp: heap_wf_def)
  from wf(1,4) have "heap_head h = seg_addr segs"
    by (cases segs) (auto simp: heap_chain_Cons intro: unat_eqI)
  with kmalloc_walk_refines [OF wf(1-3), of "heap_align_size n"] wf assms show ?thesis
    by (auto simp: kmalloc_def heap_wf_def)
qed

lemma seg_coalesce_Nil [simp]: "seg_coalesce s = [] \<longleftrightarrow> s = []"
  by (induction s rule: seg_coalesce.induct) auto

lemma seg_free_Nil [simp]: "seg_free b s = [] \<longleftrightarrow> s = []"
  by (simp add: seg_free_def)

lemma heap_chain_magic:
  "heap_chain M pos segs lim \<Longrightarrow> (b, sz, fr) \<in> set segs \<Longrightarrow>
     hb_magic (M b) = HEAP_MAGIC \<and> b \<noteq> 0 \<and> hb_size (M b) = sz"
  by (induction segs arbitrary: pos) (auto simp: heap_chain_Cons)

lemma kfree_refines:
  assumes "heap_wf h segs lim" "(b, sz, fr) \<in> set segs"
  shows "\<exists>h'. kfree h (b + 16) = Some h' \<and> heap_wf h' (seg_coalesce (seg_free b segs)) lim"
proof -
  from assms have wf: "heap_chain (heap_mem h) (unat (heap_head h)) segs lim" "lim < 4294967296"
      "32 \<le> unat (heap_head h)" "segs \<noteq> []"
    by (auto simp: heap_wf_def)
  have mg: "hb_magic (heap_mem h b) = HEAP_MAGIC"
    using heap_chain_magic [OF wf(1) assms(2)] by simp
  have "unat (b + 16) = unat b + 16"
    using heap_chain_addr [OF wf(1) assms(2)] wf(2) by (simp add: unat_u32_add)
  then have nz: "b + 16 \<noteq> 0" by auto
  define h1 where "h1 = h\<lparr>heap_mem := (heap_mem h)(b := (heap_mem h b)\<lparr>hb_free := 1\<rparr>)\<rparr>"
  have ch1: "heap_chain (heap_mem h1) (unat (heap_head h1)) (seg_free b segs) lim"
    unfolding h1_def using heap_chain_free [OF wf(1), of b] by simp
  have hd: "heap_head h1 = seg_addr (seg_free b segs)"
    using wf(1,4) by (cases segs) (auto simp: heap_chain_Cons seg_free_def h1_def intro: unat_eqI)
  have "kfree h (b + 16) = kfree_coalesce h1 (heap_head h1)"
    using nz mg by (simp add: kfree_def HEAP_HDR_def h1_def)
  with kfree_coalesce_refines [OF ch1] wf hd show ?thesis
    by (auto simp: heap_wf_def h1_def)
qed


section \<open>Allocated blocks\<close>

text \<open>The payloads handed out and not yet freed, by pointer.\<close>

fun seg_live :: "seg list \<Rightarrow> (u32 \<rightharpoonup> u32)" where
  "seg_live [] = Map.empty"
| "seg_live ((b, sz, fr) # s) = (if fr then seg_live s else (seg_live s)(b + 16 \<mapsto> sz))"

lemma seg_live_mem: "seg_live s p = Some sz \<Longrightarrow> (p - 16, sz, False) \<in> set s"
  by (induction s) (auto split: if_splits)

lemma seg_live_ptr:
  assumes "heap_chain M pos segs lim" "lim < 4294967296" "seg_live segs p = Some sz"
  shows "pos + 16 \<le> unat p \<and> unat p + unat sz \<le> lim \<and> p \<noteq> 0"
proof -
  from heap_chain_addr [OF assms(1) seg_live_mem [OF assms(3)]]
  have b: "pos \<le> unat (p - 16)" "unat (p - 16) + 16 + unat sz \<le> lim" by auto
  then have "unat (p - 16 + 16) = unat (p - 16) + 16"
    using assms(2) by (subst unat_u32_add) auto
  then have "unat p = unat (p - 16) + 16" by simp
  with b show ?thesis by (auto dest: arg_cong [where f = unat])
qed

lemma seg_live_tail:
  assumes "heap_chain M pos ((b, sz, fr) # s) lim" "lim < 4294967296"
  shows "seg_live s (b + 16) = None"
proof (rule ccontr)
  assume "seg_live s (b + 16) \<noteq> None"
  then obtain sz' where "seg_live s (b + 16) = Some sz'" by auto
  with assms seg_live_ptr [of M "pos + 16 + unat sz" s lim "b + 16"]
  have "pos + 16 + unat sz + 16 \<le> unat (b + 16)" by (auto simp: heap_chain_Cons)
  moreover have "unat (b + 16) = pos + 16"
    using assms heap_chain_addr [OF assms(1), of b sz fr]
    by (auto simp: heap_chain_Cons unat_u32_add)
  ultimately show False by simp
qed

lemma seg_live_disjoint:
  assumes "heap_chain M pos segs lim" "lim < 4294967296"
    and "seg_live segs p = Some a" "seg_live segs q = Some c" "p \<noteq> q"
  shows "unat p + unat a \<le> unat q \<or> unat q + unat c \<le> unat p"
  using assms
proof (induction segs arbitrary: pos)
  case (Cons x s)
  obtain b sz fr where x: "x = (b, sz, fr)" by (cases x)
  note ch = Cons.prems(1) [unfolded x]
  have tl: "heap_chain M (pos + 16 + unat sz) s lim" using ch by (simp add: heap_chain_Cons)
  have ub: "unat (b + 16) = pos + 16"
    using ch Cons.prems(2) heap_chain_addr [OF ch, of b sz fr]
    by (auto simp: heap_chain_Cons unat_u32_add)
  show ?case
    using Cons.IH [OF tl] Cons.prems(2-) ub seg_live_ptr [OF tl Cons.prems(2), of p a]
      seg_live_ptr [OF tl Cons.prems(2), of q c]
    by (auto simp: x split: if_splits)
qed simp

lemma seg_live_coalesce [simp]: "seg_live (seg_coalesce s) = seg_live s"
  by (induction s rule: seg_coalesce.induct) auto

lemma seg_live_free:
  assumes "heap_chain M pos segs lim" "lim < 4294967296"
  shows "seg_live (seg_free b segs) = (seg_live segs)(b + 16 := None)"
  using assms
proof (induction segs arbitrary: pos)
  case (Cons x s)
  obtain c sz fr where x: "x = (c, sz, fr)" by (cases x)
  have "seg_live s (c + 16) = None"
    using Cons.prems x by (auto intro: seg_live_tail)
  then show ?case
    using Cons by (auto simp: x heap_chain_Cons seg_free_def fun_upd_twist)
qed (simp add: seg_free_def)

lemma ff_alloc_ptr:
  "fst (ff_alloc n segs) \<noteq> 0 \<Longrightarrow> \<exists>x\<in>set segs. fst (ff_alloc n segs) = fst x + 16"
  by (induction segs) (auto split: if_splits)

lemma ff_alloc_live:
  assumes "heap_chain M pos segs lim" "lim < 4294967296"
  shows "if fst (ff_alloc n segs) = 0
         then snd (ff_alloc n segs) = segs \<and> (\<forall>(b, sz, fr) \<in> set segs. fr \<longrightarrow> sz < n)
         else seg_live segs (fst (ff_alloc n segs)) = None \<and>
              (\<exists>sz. n \<le> sz \<and>
                 seg_live (snd (ff_alloc n segs)) = (seg_live segs)(fst (ff_alloc n segs) \<mapsto> sz))"
  using assms
proof (induction segs arbitrary: pos)
  case (Cons x s)
  obtain b sz fr where x: "x = (b, sz, fr)" by (cases x)
  note ch = Cons.prems(1) [unfolded x]
  have ub: "unat (b + 16) = pos + 16"
    using ch Cons.prems(2) heap_chain_addr [OF ch, of b sz fr]
    by (auto simp: heap_chain_Cons unat_u32_add)
  then have nz: "b + 16 \<noteq> 0" by auto
  note none = seg_live_tail [OF ch Cons.prems(2)]
  show ?case
  proof (cases "fr \<and> n \<le> sz")
    case True
    then show ?thesis using nz none by (auto simp: x)
  next
    case False
    let ?p = "fst (ff_alloc n s)"
    have tl: "heap_chain M (pos + 16 + unat sz) s lim" using ch by (simp add: heap_chain_Cons)
    note IH = Cons.IH [OF tl Cons.prems(2)]
    show ?thesis
    proof (cases "?p = 0")
      case True
      then show ?thesis using IH False by (auto simp: x)
    next
      case ne: False
      then obtain c sz' fr' where c: "(c, sz', fr') \<in> set s" "?p = c + 16"
        using ff_alloc_ptr by fastforce
      from heap_chain_addr [OF tl c(1)] have "pos < unat c" "unat c + 16 < 4294967296"
        using Cons.prems(2) by auto
      then have "?p \<noteq> b + 16" using ub c(2) by (metis add_right_cancel ch heap_chain_Cons less_irrefl)
      moreover obtain sz2 where "n \<le> sz2" "seg_live (snd (ff_alloc n s)) = (seg_live s)(?p \<mapsto> sz2)"
        using IH ne by auto
      ultimately have "seg_live (snd (ff_alloc n (x # s))) = (seg_live (x # s))(?p \<mapsto> sz2)" "n \<le> sz2"
        using False by (auto simp: x)
      moreover have "fst (ff_alloc n (x # s)) = ?p" "seg_live (x # s) ?p = None"
        using IH ne False \<open>?p \<noteq> b + 16\<close> by (auto simp: x)
      ultimately show ?thesis using ne by metis
    qed
  qed
qed simp


section \<open>Coalescing leaves no two free neighbours\<close>

fun seg_coalesced :: "seg list \<Rightarrow> bool" where
  "seg_coalesced ((b, sz, fr) # (c, sz', fr') # s) \<longleftrightarrow>
     \<not> (fr \<and> fr') \<and> seg_coalesced ((c, sz', fr') # s)"
| "seg_coalesced s \<longleftrightarrow> True"

lemma seg_coalesce_id [simp]: "seg_coalesced s \<Longrightarrow> seg_coalesce s = s"
  by (induction s rule: seg_coalesced.induct) auto

lemma seg_coalesce_not_free:
  "\<exists>sz' r. seg_coalesce ((b, sz, fr) # s) = (b, sz', fr) # r"
  by (induction "(b, sz, fr) # s" arbitrary: b sz fr s rule: seg_coalesce.induct) auto

lemma seg_coalesced_coalesce: "seg_coalesced (seg_coalesce s)"
proof (induction s rule: seg_coalesce.induct)
  case (3 b sz fr c sz' fr' s)
  then show ?case
    using seg_coalesce_not_free [of c sz' fr' s] by (cases "fr \<and> fr'") auto
qed auto

lemma seg_free_other: "b \<notin> fst ` set s \<Longrightarrow> seg_free b s = s"
  unfolding seg_free_def by (rule map_idI) force

lemma heap_chain_notin_tail:
  assumes "heap_chain M pos ((b, sz, fr) # s) lim"
  shows "b \<notin> fst ` set s"
proof
  assume "b \<in> fst ` set s"
  then obtain sz' fr' where m: "(b, sz', fr') \<in> set s" by force
  from assms heap_chain_addr [OF _ m, of M "pos + 16 + unat sz" lim] show False
    by (auto simp: heap_chain_Cons)
qed

lemma ff_alloc_then_free:
  assumes "heap_chain M pos segs lim" "lim < 4294967296" "seg_coalesced segs"
    and "fst (ff_alloc n segs) \<noteq> 0"
  shows "seg_coalesce (seg_free (fst (ff_alloc n segs) - 16) (snd (ff_alloc n segs))) = segs"
  using assms
proof (induction segs arbitrary: pos)
  case (Cons x s)
  obtain b sz fr where x: "x = (b, sz, fr)" by (cases x)
  note ch = Cons.prems(1) [unfolded x]
  have tl: "heap_chain M (pos + 16 + unat sz) s lim" using ch by (simp add: heap_chain_Cons)
  have co: "seg_coalesced s"
    using Cons.prems(3) by (cases s) (auto simp: x)
  show ?case
  proof (cases "fr \<and> n \<le> sz")
    case True
    have "b + 16 + n \<noteq> b" if "unat n + 32 \<le> unat sz"
    proof -
      have "unat (16 + n) = 16 + unat n"
        using that unat_u32_bound [of sz] by (subst unat_u32_add) auto
      then have "16 + n \<noteq> 0" by auto
      then show ?thesis by (simp add: add.assoc)
    qed
    then show ?thesis
      using True Cons.prems(3) seg_free_other [OF heap_chain_notin_tail [OF ch]]
      by (auto simp: x seg_free_def)
  next
    case False
    let ?p = "fst (ff_alloc n s)"
    have p: "?p \<noteq> 0" using Cons.prems(4) False by (auto simp: x)
    then obtain c sz' fr' where "(c, sz', fr') \<in> set s" "?p = c + 16"
      using ff_alloc_ptr by fastforce
    then have ne: "?p - 16 \<noteq> b" using heap_chain_notin_tail [OF ch] by force
    have IH: "seg_coalesce (seg_free (?p - 16) (snd (ff_alloc n s))) = s"
      using Cons.IH [OF tl Cons.prems(2) co p] .
    have "seg_coalesce ((b, sz, fr) # r) = (b, sz, fr) # s"
      if "seg_coalesce r = s" "seg_coalesced ((b, sz, fr) # s)" for r
      using that seg_coalesce_not_free
      by (cases "(b, sz, fr) # r" rule: seg_coalesce.cases) (auto, metis seg_coalesced.simps(1))
    then show ?thesis
      using False ne IH Cons.prems(3) by (auto simp: x seg_free_def)
  qed
qed simp


section \<open>The allocator contract\<close>

text \<open>
  What the other components rely on: \<open>rep h L\<close> says that the heap \<open>h\<close> currently has exactly
  the blocks \<open>L\<close> (pointer to payload size) handed out.  Requests above \<^verbatim>\<open>0xFFFFFFFC\<close> are
  outside the contract: rounding them up wraps to zero.
\<close>

locale kalloc =
  fixes malloc :: "'h \<Rightarrow> u32 \<Rightarrow> (u32 \<times> 'h) option"
    and mfree :: "'h \<Rightarrow> u32 \<Rightarrow> 'h option"
    and rep :: "'h \<Rightarrow> (u32 \<rightharpoonup> u32) \<Rightarrow> bool"
  assumes malloc_law: "rep h L \<Longrightarrow> n \<le> 0xFFFFFFFC \<Longrightarrow>
      \<exists>p h'. malloc h n = Some (p, h') \<and>
        (if p = 0 then rep h' L else L p = None \<and> (\<exists>sz. n \<le> sz \<and> rep h' (L(p \<mapsto> sz))))"
    and mfree_law: "rep h L \<Longrightarrow> L p \<noteq> None \<Longrightarrow> \<exists>h'. mfree h p = Some h' \<and> rep h' (L(p := None))"
    and mfree_null: "mfree h 0 = Some h"
    and rep_null: "rep h L \<Longrightarrow> L 0 = None"
    and rep_disjoint: "rep h L \<Longrightarrow> L p = Some a \<Longrightarrow> L q = Some c \<Longrightarrow> p \<noteq> q \<Longrightarrow>
      unat p + unat a \<le> unat q \<or> unat q + unat c \<le> unat p"
begin

text \<open>A scratch buffer that is allocated and then freed leaves the handed-out blocks as they were.\<close>

lemma scratch_buffer:
  assumes "rep h L" "n \<le> 0xFFFFFFFC" "malloc h n = Some (p, h1)" "p \<noteq> 0"
  shows "\<exists>h2. mfree h1 p = Some h2 \<and> rep h2 L"
proof -
  from malloc_law [OF assms(1,2)] assms(3,4)
  obtain sz where "L p = None" "rep h1 (L(p \<mapsto> sz))" by auto
  with mfree_law [of h1 "L(p \<mapsto> sz)" p] show ?thesis
    by (auto simp: fun_upd_idem)
qed

lemma failed_malloc:
  assumes "rep h L" "n \<le> 0xFFFFFFFC" "malloc h n = Some (0, h1)"
  shows "rep h1 L"
  using malloc_law [OF assms(1,2)] assms(3) by auto

end

definition heap_rep :: "kheap \<Rightarrow> (u32 \<rightharpoonup> u32) \<Rightarrow> bool" where
  "heap_rep h L \<longleftrightarrow> (\<exists>segs lim. heap_wf h segs lim \<and> L = seg_live segs)"

lemma heap_align_size_ge:
  assumes "n \<le> 0xFFFFFFFC"
  shows "n \<le> heap_align_size n" "unat (heap_align_size n) mod 4 = 0"
    "unat (heap_align_size n) < unat n + 4"
proof -
  have n: "unat n \<le> 4294967292" using assms by (simp add: word_le_nat_alt)
  have "unat (3 + n) = unat n + 3" using n by (simp add: unat_u32_add)
  then have u: "unat (heap_align_size n) = unat n + 3 - (unat n + 3) mod 4"
    by (simp add: heap_align_size_def HEAP_ALIGN_def page_simps)
  then show "unat (heap_align_size n) mod 4 = 0" by simp
  from u show "unat (heap_align_size n) < unat n + 4" by linarith
  from u have "unat n \<le> unat (heap_align_size n)" by linarith
  then show "n \<le> heap_align_size n" by (simp add: word_le_nat_alt)
qed

lemma heap_wfD:
  assumes "heap_wf h segs lim"
  shows "heap_chain (heap_mem h) (unat (heap_head h)) segs lim" "lim < 4294967296"
    "32 \<le> unat (heap_head h)" "segs \<noteq> []"
  using assms by (auto simp: heap_wf_def)

interpretation kheap: kalloc kmalloc kfree heap_rep
proof
  fix h L and n :: u32
  assume r: "heap_rep h L" and n: "n \<le> 0xFFFFFFFC"
  then obtain segs lim where wf: "heap_wf h segs lim" and L: "L = seg_live segs"
    by (auto simp: heap_rep_def)
  from kmalloc_refines [OF wf, of n] obtain h' where
    "kmalloc h n = Some (fst (ff_alloc (heap_align_size n) segs), h')"
    "heap_wf h' (snd (ff_alloc (heap_align_size n) segs)) lim" by blast
  with ff_alloc_live [OF heap_wfD(1,2) [OF wf], of "heap_align_size n"] L
    heap_align_size_ge(1) [OF n]
  show "\<exists>p h'. kmalloc h n = Some (p, h') \<and>
        (if p = 0 then heap_rep h' L else L p = None \<and> (\<exists>sz. n \<le> sz \<and> heap_rep h' (L(p \<mapsto> sz))))"
    by (auto simp: heap_rep_def split: if_splits) (metis order_trans)+
next
  fix h L p
  assume r: "heap_rep h L" and p: "L p \<noteq> None"
  then obtain segs lim sz where wf: "heap_wf h segs lim" and L: "L = seg_live segs"
      and "seg_live segs p = Some sz"
    by (auto simp: heap_rep_def)
  then have "(p - 16, sz, False) \<in> set segs" by (blast dest: seg_live_mem)
  from kfree_refines [OF wf this] seg_live_free [OF heap_wfD(1,2) [OF wf], of "p - 16"]
  show "\<exists>h'. kfree h p = Some h' \<and> heap_rep h' (L(p := None))"
    unfolding heap_rep_def L by (metis diff_add_cancel seg_live_coalesce)
next
  fix h show "kfree h 0 = Some h" by (simp add: kfree_def)
next
  fix h L assume "heap_rep h L"
  then show "L 0 = None"
    unfolding heap_rep_def by (metis heap_wfD(1,2) not_None_eq seg_live_ptr)
next
  fix h L p a q c
  assume "heap_rep h L" "L p = Some a" "L q = Some c" "p \<noteq> q"
  then show "unat p + unat a \<le> unat q \<or> unat q + unat c \<le> unat p"
    unfolding heap_rep_def by (metis heap_wfD(1,2) seg_live_disjoint)
qed


section \<open>Properties\<close>

text \<open>The heap the x86 port starts with: \<^verbatim>\<open>ARCH_HEAP_START\<close> to \<^verbatim>\<open>ARCH_HEAP_END\<close>.\<close>

definition boot_heap :: kheap where
  "boot_heap = kheap_init 0x52000 (0x9F000 - 0x52000)
     \<lparr>heap_head = 0, heap_mem = (\<lambda>_. \<lparr>hb_magic = 0, hb_size = 0, hb_free = 0, hb_next = 0\<rparr>)\<rparr>"

definition boot_segs :: "seg list" where
  "boot_segs = [(0x52000, 0x4CFF0, True)]"

lemma boot_heap_wf: "heap_wf boot_heap boot_segs 0x9F000"
  by (simp add: heap_wf_def boot_heap_def boot_segs_def kheap_init_def heap_chain_Cons heap_consts)

text \<open>
  C1: On a well-formed heap \<^verbatim>\<open>kmalloc\<close> returns (its walk ends), keeps the heap well formed,
  and either reports failure with the heap unchanged and no free block large enough, or
  returns a payload of at least the requested size inside the arena that was not handed out
  before and overlaps no block in use.
\<close>

theorem kmalloc_correct:
  assumes wf: "heap_wf h segs lim" and n: "n \<le> 0xFFFFFFFC"
  shows "\<exists>p h' segs'. kmalloc h n = Some (p, h') \<and> heap_wf h' segs' lim \<and>
     (if p = 0 then segs' = segs \<and> (\<forall>(b, sz, fr) \<in> set segs. fr \<longrightarrow> sz < heap_align_size n)
      else seg_live segs p = None \<and>
        (\<exists>sz. n \<le> sz \<and> seg_live segs' = (seg_live segs)(p \<mapsto> sz) \<and> unat p + unat sz \<le> lim \<and>
           (\<forall>q c. seg_live segs q = Some c \<longrightarrow>
              unat p + unat sz \<le> unat q \<or> unat q + unat c \<le> unat p)))"
proof -
  let ?r = "ff_alloc (heap_align_size n) segs"
  from kmalloc_refines [OF wf] obtain h' where
    h': "kmalloc h n = Some (fst ?r, h')" "heap_wf h' (snd ?r) lim" by blast
  note live = ff_alloc_live [OF heap_wfD(1,2) [OF wf], of "heap_align_size n"]
  show ?thesis
  proof (cases "fst ?r = 0")
    case True
    with h' live show ?thesis by (intro exI [of _ 0] exI [of _ h'] exI [of _ segs]) auto
  next
    case False
    with live obtain sz where sz: "heap_align_size n \<le> sz"
      "seg_live (snd ?r) = (seg_live segs)(fst ?r \<mapsto> sz)" "seg_live segs (fst ?r) = None" by auto
    have "n \<le> sz" using heap_align_size_ge(1) [OF n] sz(1) by (rule order_trans)
    moreover have "unat (fst ?r) + unat sz \<le> lim"
      using seg_live_ptr [OF heap_wfD(1,2) [OF h'(2)], of "fst ?r" sz] sz(2) by simp
    moreover have "unat (fst ?r) + unat sz \<le> unat q \<or> unat q + unat c \<le> unat (fst ?r)"
      if "seg_live segs q = Some c" for q c
    proof -
      have "q \<noteq> fst ?r" using that sz(3) by auto
      with seg_live_disjoint [OF heap_wfD(1,2) [OF h'(2)], of "fst ?r" sz q c] that sz(2)
      show ?thesis by auto
    qed
    ultimately show ?thesis
      using False h' sz by (intro exI [of _ "fst ?r"] exI [of _ h'] exI [of _ "snd ?r"]) auto
  qed
qed

theorem kmalloc_correct_witness:
  "heap_wf boot_heap boot_segs 0x9F000 \<and>
   (\<exists>p h' segs'. kmalloc boot_heap 100 = Some (p, h') \<and> heap_wf h' segs' 0x9F000)"
  using kmalloc_correct [OF boot_heap_wf, of 100] boot_heap_wf by auto

text \<open>
  C2: \<^verbatim>\<open>kfree\<close> of a block in use returns, keeps the heap well formed, takes exactly that
  block out of the blocks in use, and leaves no two adjacent free blocks.
\<close>

theorem kfree_correct:
  assumes wf: "heap_wf h segs lim" and p: "seg_live segs p = Some sz"
  shows "\<exists>h' segs'. kfree h p = Some h' \<and> heap_wf h' segs' lim \<and>
     seg_live segs' = (seg_live segs)(p := None) \<and> seg_coalesced segs'"
proof -
  from kfree_refines [OF wf seg_live_mem [OF p]] obtain h' where
    "kfree h p = Some h'" "heap_wf h' (seg_coalesce (seg_free (p - 16) segs)) lim" by auto
  with seg_live_free [OF heap_wfD(1,2) [OF wf], of "p - 16"] seg_coalesced_coalesce
  show ?thesis by force
qed

text \<open>
  C3: Allocating and freeing the same block gives back exactly the heap layout from before
  (same blocks, sizes and free marks), when the heap had no adjacent free blocks.
\<close>

theorem kmalloc_kfree_roundtrip:
  assumes wf: "heap_wf h segs lim" and co: "seg_coalesced segs"
    and m: "kmalloc h n = Some (p, h1)" and p: "p \<noteq> 0"
  shows "\<exists>h2. kfree h1 p = Some h2 \<and> heap_wf h2 segs lim"
proof -
  let ?r = "ff_alloc (heap_align_size n) segs"
  from kmalloc_refines [OF wf, of n] m have r: "p = fst ?r" "heap_wf h1 (snd ?r) lim" by auto
  note live = ff_alloc_live [OF heap_wfD(1,2) [OF wf], of "heap_align_size n"]
  with r p obtain sz where "seg_live (snd ?r) p = Some sz" by auto
  from kfree_refines [OF r(2) seg_live_mem [OF this]] obtain h2 where
    "kfree h1 p = Some h2" "heap_wf h2 (seg_coalesce (seg_free (p - 16) (snd ?r))) lim" by auto
  with ff_alloc_then_free [OF heap_wfD(1,2) [OF wf] co, of "heap_align_size n"] r(1) p
  show ?thesis by simp
qed

theorem kmalloc_kfree_roundtrip_witness:
  "\<exists>h1 h2. kmalloc boot_heap 100 = Some (0x52010, h1) \<and> kfree h1 0x52010 = Some h2 \<and>
     heap_wf h2 boot_segs 0x9F000"
proof -
  obtain h1 where h1: "kmalloc boot_heap 100 = Some (0x52010, h1)"
    using kmalloc_refines [OF boot_heap_wf, of 100]
    by (auto simp: boot_segs_def heap_align_size_def heap_consts)
  have "seg_coalesced boot_segs" by (simp add: boot_segs_def)
  from kmalloc_kfree_roundtrip [OF boot_heap_wf this h1] h1 show ?thesis by auto
qed

theorem kfree_correct_witness:
  "\<exists>h1 segs1 h2 segs2. kmalloc boot_heap 100 = Some (0x52010, h1) \<and> heap_wf h1 segs1 0x9F000 \<and>
     seg_live segs1 0x52010 = Some 100 \<and> kfree h1 0x52010 = Some h2 \<and> heap_wf h2 segs2 0x9F000 \<and>
     seg_live segs2 0x52010 = None"
proof -
  let ?s = "[(0x52000, 100, False), (0x52074, 0x4CF7C, True)] :: seg list"
  obtain h1 where h1: "kmalloc boot_heap 100 = Some (0x52010, h1)" "heap_wf h1 ?s 0x9F000"
    using kmalloc_refines [OF boot_heap_wf, of 100]
    by (auto simp: boot_segs_def heap_align_size_def heap_consts)
  have l: "seg_live ?s 0x52010 = Some 100" by simp
  from kfree_correct [OF h1(2) l] h1 l show ?thesis
    by (metis fun_upd_same)
qed

text \<open>
  C4: The rounding of the request wraps: asking for \<^verbatim>\<open>0xFFFFFFFF\<close> bytes on the boot heap
  succeeds and hands out a block with an empty payload.
\<close>

theorem kmalloc_wraps_to_empty:
  "\<exists>h'. kmalloc boot_heap 0xFFFFFFFF = Some (0x52010, h') \<and> hb_size (heap_mem h' 0x52000) = 0"
proof -
  have "heap_align_size 0xFFFFFFFF = 0"
    by (simp add: heap_align_size_def heap_consts)
  with kmalloc_refines [OF boot_heap_wf, of "0xFFFFFFFF"] obtain h' where
    "kmalloc boot_heap 0xFFFFFFFF = Some (0x52010, h')"
    "heap_wf h' [(0x52000, 0, False), (0x52010, 0x4CFE0, True)] 0x9F000"
    by (auto simp: boot_segs_def)
  then show ?thesis by (auto simp: heap_wf_def heap_chain_Cons)
qed

end
