(* ===== verification/Pmm.thy ===== *)
theory Pmm
  imports Drunix_Prelude
begin

text \<open>
  Physical page frames: the shared allocator core \<^verbatim>\<open>kernel/mm/pmm_core.c\<close> (a bitmap of used
  pages and a saturating reference count per page) and the x86 provider
  \<^verbatim>\<open>kernel/arch/x86/mm/pmm.c\<close> that fills it from the Multiboot memory map.  A storage pointer
  that was never bound is the empty list.
\<close>

section \<open>The allocator core\<close>

definition PAGE_SIZE :: u32 where "PAGE_SIZE = 4096"

record pmm_range =
  range_base :: u32
  range_length :: u32

record pmm_core_state =
  bitmap :: "u8 list"
  refcounts :: "u8 list"
  max_pages :: u32

definition pmm_core_has_storage :: "pmm_core_state \<Rightarrow> bool" where
  "pmm_core_has_storage s \<longleftrightarrow> bitmap s \<noteq> [] \<and> refcounts s \<noteq> [] \<and> 0 < max_pages s"

definition pmm_core_bitmap_bytes :: "u32 \<Rightarrow> u32" where
  "pmm_core_bitmap_bytes n = (n + 7) div 8"

definition pmm_core_refcount_bytes :: "u32 \<Rightarrow> u32" where
  "pmm_core_refcount_bytes n = n"

definition pmm_core_bind_storage :: "pmm_core_state \<Rightarrow> u8 list \<Rightarrow> u8 list \<Rightarrow> u32 \<Rightarrow> pmm_core_state" where
  "pmm_core_bind_storage s bm rc n = s\<lparr>bitmap := bm, refcounts := rc, max_pages := n\<rparr>"

definition pmm_core_bitmap_set :: "pmm_core_state \<Rightarrow> nat \<Rightarrow> pmm_core_state" where
  "pmm_core_bitmap_set s page =
     s\<lparr>bitmap := (bitmap s)[page div 8 := bitmap s ! (page div 8) OR push_bit (page mod 8) 1]\<rparr>"

definition pmm_core_bitmap_clear :: "pmm_core_state \<Rightarrow> nat \<Rightarrow> pmm_core_state" where
  "pmm_core_bitmap_clear s page =
     s\<lparr>bitmap := (bitmap s)[page div 8 := bitmap s ! (page div 8) AND NOT (push_bit (page mod 8) 1)]\<rparr>"

definition pmm_core_bitmap_test :: "pmm_core_state \<Rightarrow> nat \<Rightarrow> bool" where
  "pmm_core_bitmap_test s page \<longleftrightarrow> bitmap s ! (page div 8) AND push_bit (page mod 8) 1 \<noteq> 0"

text \<open>One round of the marking loop, and the loop over the clipped page range.\<close>

definition pmm_mark_page :: "bool \<Rightarrow> nat \<Rightarrow> pmm_core_state \<Rightarrow> pmm_core_state" where
  "pmm_mark_page used page s =
     (if used then (let s1 = pmm_core_bitmap_set s page in s1\<lparr>refcounts := (refcounts s1)[page := 0xFF]\<rparr>)
      else (let s1 = pmm_core_bitmap_clear s page in s1\<lparr>refcounts := (refcounts s1)[page := 0]\<rparr>))"

definition pmm_core_mark_range :: "pmm_core_state \<Rightarrow> u32 \<Rightarrow> u32 \<Rightarrow> bool \<Rightarrow> pmm_core_state" where
  "pmm_core_mark_range s base len used =
     (if \<not> pmm_core_has_storage s \<or> len = 0 then s
      else let start_page = unat base div 4096;
               end_page = (unat base + unat len + 4096 - 1) div 4096
           in if unat (max_pages s) \<le> start_page then s
              else fold (pmm_mark_page used) [start_page..<min end_page (unat (max_pages s))] s)"

definition pmm_core_init :: "pmm_core_state \<Rightarrow> pmm_range list \<Rightarrow> pmm_range list \<Rightarrow> pmm_core_state" where
  "pmm_core_init s usable reserved =
     (if \<not> pmm_core_has_storage s then s
      else let s1 = s\<lparr>bitmap := map (\<lambda>i. if i < unat (pmm_core_bitmap_bytes (max_pages s)) then 0xFF
                                         else bitmap s ! i) [0..<length (bitmap s)],
                      refcounts := map (\<lambda>i. if i < unat (max_pages s) then 0xFF
                                            else refcounts s ! i) [0..<length (refcounts s)]\<rparr>;
               s2 = fold (\<lambda>r st. pmm_core_mark_range st (range_base r) (range_length r) False) usable s1
           in fold (\<lambda>r st. pmm_core_mark_range st (range_base r) (range_length r) True) reserved s2)"

definition pmm_core_mark_used :: "pmm_core_state \<Rightarrow> u32 \<Rightarrow> u32 \<Rightarrow> pmm_core_state" where
  "pmm_core_mark_used s base len = pmm_core_mark_range s base len True"

definition pmm_core_mark_free :: "pmm_core_state \<Rightarrow> u32 \<Rightarrow> u32 \<Rightarrow> pmm_core_state" where
  "pmm_core_mark_free s base len = pmm_core_mark_range s base len False"

text \<open>
  The allocation scan: the inner loop over the bits of byte \<open>i\<close> either returns (\<open>Some\<close>) or
  falls through to the next byte (\<open>None\<close>).
\<close>

fun alloc_bits :: "pmm_core_state \<Rightarrow> nat \<Rightarrow> nat list \<Rightarrow> (u32 \<times> pmm_core_state) option" where
  "alloc_bits s i [] = None"
| "alloc_bits s i (b # bs) =
     (let page = i * 8 + b in
      if unat (max_pages s) \<le> page then Some (0, s)
      else if bitmap s ! i AND push_bit b 1 = 0 then
        (let s1 = pmm_core_bitmap_set s page in
         Some (of_nat page * PAGE_SIZE, s1\<lparr>refcounts := (refcounts s1)[page := 1]\<rparr>))
      else alloc_bits s i bs)"

fun alloc_bytes :: "pmm_core_state \<Rightarrow> nat list \<Rightarrow> u32 \<times> pmm_core_state" where
  "alloc_bytes s [] = (0, s)"
| "alloc_bytes s (i # is) =
     (if bitmap s ! i \<noteq> 0xFF then
        (case alloc_bits s i [0..<8] of Some r \<Rightarrow> r | None \<Rightarrow> alloc_bytes s is)
      else alloc_bytes s is)"

definition pmm_core_alloc_page :: "pmm_core_state \<Rightarrow> u32 \<times> pmm_core_state" where
  "pmm_core_alloc_page s =
     (if \<not> pmm_core_has_storage s then (0, s)
      else alloc_bytes s [0..<unat (pmm_core_bitmap_bytes (max_pages s))])"

definition pmm_core_incref :: "pmm_core_state \<Rightarrow> u32 \<Rightarrow> pmm_core_state" where
  "pmm_core_incref s addr =
     (if \<not> pmm_core_has_storage s then s
      else let page = unat (addr div PAGE_SIZE) in
        if unat (max_pages s) \<le> page \<or> refcounts s ! page = 0xFF then s
        else let s1 = (if refcounts s ! page = 0 then pmm_core_bitmap_set s page else s) in
          if refcounts s1 ! page < 0xFF
          then s1\<lparr>refcounts := (refcounts s1)[page := refcounts s1 ! page + 1]\<rparr> else s1)"

definition pmm_core_decref :: "pmm_core_state \<Rightarrow> u32 \<Rightarrow> pmm_core_state" where
  "pmm_core_decref s addr =
     (if \<not> pmm_core_has_storage s then s
      else let page = unat (addr div PAGE_SIZE) in
        if unat (max_pages s) \<le> page \<or> refcounts s ! page = 0xFF \<or> refcounts s ! page = 0 then s
        else let s1 = s\<lparr>refcounts := (refcounts s)[page := refcounts s ! page - 1]\<rparr> in
          if refcounts s1 ! page = 0 then pmm_core_bitmap_clear s1 page else s1)"

definition pmm_core_free_page :: "pmm_core_state \<Rightarrow> u32 \<Rightarrow> pmm_core_state" where
  "pmm_core_free_page s addr = pmm_core_decref s addr"

definition pmm_core_refcount :: "pmm_core_state \<Rightarrow> u32 \<Rightarrow> u8" where
  "pmm_core_refcount s addr =
     (if \<not> pmm_core_has_storage s then 0
      else let page = unat (addr div PAGE_SIZE) in
        if unat (max_pages s) \<le> page then 0 else refcounts s ! page)"

definition pmm_core_free_page_count :: "pmm_core_state \<Rightarrow> u32" where
  "pmm_core_free_page_count s =
     (if \<not> pmm_core_has_storage s then 0
      else fold (\<lambda>page count. if \<not> pmm_core_bitmap_test s page then count + 1 else count)
             [0..<unat (max_pages s)] 0)"


section \<open>Invariant and reference-count view\<close>

text \<open>
  The storage has the sizes the provider allocates, and a page is marked used exactly when its
  reference count is not zero.
\<close>

definition page_bit :: "u8 list \<Rightarrow> nat \<Rightarrow> bool" where
  "page_bit bm p = bit (bm ! (p div 8)) (p mod 8)"

definition pmm_wf :: "pmm_core_state \<Rightarrow> bool" where
  "pmm_wf s \<longleftrightarrow> 0 < max_pages s \<and> unat (max_pages s) \<le> 1048576 \<and>
     length (bitmap s) = (unat (max_pages s) + 7) div 8 \<and>
     length (refcounts s) = unat (max_pages s) \<and>
     (\<forall>p < unat (max_pages s). page_bit (bitmap s) p \<longleftrightarrow> refcounts s ! p \<noteq> 0)"

text \<open>The abstract state: the reference count of every managed page.\<close>

definition page_refs :: "pmm_core_state \<Rightarrow> nat \<Rightarrow> u8" where
  "page_refs s p = (if p < unat (max_pages s) then refcounts s ! p else 0)"

lemma and_push_bit_1: "(w AND push_bit n 1 \<noteq> 0) = bit w n" for w :: u8
  by (simp add: push_bit_of_1 and_exp_eq_0_iff_not_bit)

lemma bitmap_testE: "pmm_core_bitmap_test s p = page_bit (bitmap s) p"
  unfolding pmm_core_bitmap_test_def page_bit_def by (rule and_push_bit_1)

lemma div8_lt: "p < m \<Longrightarrow> p div 8 < (m + 7) div (8::nat)"
  by simp

lemma pmm_wf_storage: "pmm_wf s \<Longrightarrow> pmm_core_has_storage s"
  by (auto simp: pmm_wf_def pmm_core_has_storage_def word_less_nat_alt)


lemma eq_by_div_mod: "p div 8 = q div 8 \<Longrightarrow> p mod 8 = q mod 8 \<Longrightarrow> p = (q::nat)"
  by (metis div_mult_mod_eq)

lemma bitmap_frame [simp]:
  "max_pages (pmm_core_bitmap_set s p) = max_pages s"
  "max_pages (pmm_core_bitmap_clear s p) = max_pages s"
  "refcounts (pmm_core_bitmap_set s p) = refcounts s"
  "refcounts (pmm_core_bitmap_clear s p) = refcounts s"
  "length (bitmap (pmm_core_bitmap_set s p)) = length (bitmap s)"
  "length (bitmap (pmm_core_bitmap_clear s p)) = length (bitmap s)"
  by (simp_all add: pmm_core_bitmap_set_def pmm_core_bitmap_clear_def)

lemma bit_push_bit_u8: "bit (push_bit n 1 :: u8) m \<longleftrightarrow> m < 8 \<and> n = m"
  by (auto simp: push_bit_of_1 bit_exp_iff)

lemma page_bit_set:
  assumes "p div 8 < length (bitmap s)"
  shows "page_bit (bitmap (pmm_core_bitmap_set s p)) q \<longleftrightarrow> q = p \<or> page_bit (bitmap s) q"
proof (cases "q div 8 = p div 8")
  case True
  then have "p mod 8 = q mod 8 \<longleftrightarrow> q = p" by (metis eq_by_div_mod)
  with True assms show ?thesis
    by (simp add: page_bit_def pmm_core_bitmap_set_def bit_or_iff bit_push_bit_u8 del: push_bit_of_1)
       blast
next
  case False
  with assms show ?thesis by (auto simp: page_bit_def pmm_core_bitmap_set_def)
qed

lemma page_bit_clear:
  assumes "p div 8 < length (bitmap s)"
  shows "page_bit (bitmap (pmm_core_bitmap_clear s p)) q \<longleftrightarrow> q \<noteq> p \<and> page_bit (bitmap s) q"
proof (cases "q div 8 = p div 8")
  case True
  then have "p mod 8 = q mod 8 \<longleftrightarrow> q = p" by (metis eq_by_div_mod)
  with True assms show ?thesis
    by (simp add: page_bit_def pmm_core_bitmap_clear_def bit_and_iff bit_not_iff bit_push_bit_u8 del: push_bit_of_1)
       blast
next
  case False
  with assms show ?thesis by (auto simp: page_bit_def pmm_core_bitmap_clear_def)
qed

text \<open>The three ways the operations change a page: use it, release it, change a positive count.\<close>

lemma pmm_wf_byte: "pmm_wf s \<Longrightarrow> p < unat (max_pages s) \<Longrightarrow> p div 8 < length (bitmap s)"
  by (simp add: pmm_wf_def div8_lt)

lemma pmm_wf_set:
  assumes "pmm_wf s" "p < unat (max_pages s)" "c \<noteq> 0"
  shows "pmm_wf ((pmm_core_bitmap_set s p)\<lparr>refcounts := (refcounts s)[p := c]\<rparr>)"
    and "page_refs ((pmm_core_bitmap_set s p)\<lparr>refcounts := (refcounts s)[p := c]\<rparr>) = (page_refs s)(p := c)"
  using assms pmm_wf_byte [OF assms(1,2)]
  by (auto simp: pmm_wf_def page_refs_def page_bit_set nth_list_update fun_eq_iff)

lemma pmm_wf_clear:
  assumes "pmm_wf s" "p < unat (max_pages s)"
  shows "pmm_wf ((pmm_core_bitmap_clear s p)\<lparr>refcounts := (refcounts s)[p := 0]\<rparr>)"
    and "page_refs ((pmm_core_bitmap_clear s p)\<lparr>refcounts := (refcounts s)[p := 0]\<rparr>) = (page_refs s)(p := 0)"
  using assms pmm_wf_byte [OF assms(1,2)]
  by (auto simp: pmm_wf_def page_refs_def page_bit_clear nth_list_update fun_eq_iff)

lemma pmm_wf_recount:
  assumes "pmm_wf s" "p < unat (max_pages s)" "refcounts s ! p \<noteq> 0" "c \<noteq> 0"
  shows "pmm_wf (s\<lparr>refcounts := (refcounts s)[p := c]\<rparr>)"
    and "page_refs (s\<lparr>refcounts := (refcounts s)[p := c]\<rparr>) = (page_refs s)(p := c)"
  using assms by (auto simp: pmm_wf_def page_refs_def nth_list_update fun_eq_iff)

lemma mark_page:
  assumes "pmm_wf s" "p < unat (max_pages s)"
  shows "pmm_wf (pmm_mark_page used p s)" "max_pages (pmm_mark_page used p s) = max_pages s"
    "page_refs (pmm_mark_page used p s) = (page_refs s)(p := if used then 0xFF else 0)"
  using pmm_wf_set [OF assms, of "0xFF"] pmm_wf_clear [OF assms]
  by (auto simp: pmm_mark_page_def Let_def)

lemma mark_pages:
  assumes "pmm_wf s" "\<forall>p\<in>set ps. p < unat (max_pages s)"
  shows "pmm_wf (fold (pmm_mark_page used) ps s) \<and>
    max_pages (fold (pmm_mark_page used) ps s) = max_pages s \<and>
    page_refs (fold (pmm_mark_page used) ps s) =
      (\<lambda>p. if p \<in> set ps then (if used then 0xFF else 0) else page_refs s p)"
  using assms
proof (induction ps arbitrary: s)
  case (Cons p ps)
  note m = mark_page [OF Cons.prems(1), of p used]
  then show ?case
    using Cons.IH [of "pmm_mark_page used p s"] Cons.prems by (auto simp: fun_eq_iff)
qed auto

lemma mark_range:
  assumes "pmm_wf s"
  shows "pmm_wf (pmm_core_mark_range s base len used) \<and>
    max_pages (pmm_core_mark_range s base len used) = max_pages s \<and>
    page_refs (pmm_core_mark_range s base len used) =
      (\<lambda>p. if len \<noteq> 0 \<and> p < unat (max_pages s) \<and> unat base div 4096 \<le> p \<and>
              p < (unat base + unat len + 4095) div 4096
           then (if used then 0xFF else 0) else page_refs s p)"
proof -
  have e: "unat base + unat len + 4096 - 1 = unat base + unat len + 4095" by simp
  let ?ps = "[unat base div 4096..<min ((unat base + unat len + 4095) div 4096) (unat (max_pages s))]"
  have "\<forall>p\<in>set ?ps. p < unat (max_pages s)" by simp
  note m = mark_pages [OF assms this, of used]
  show ?thesis
  proof (cases "len = 0 \<or> unat (max_pages s) \<le> unat base div 4096")
    case True
    then have "pmm_core_mark_range s base len used = s"
      by (auto simp: pmm_core_mark_range_def Let_def)
    with True assms show ?thesis by (auto simp: fun_eq_iff)
  next
    case False
    then have "pmm_core_mark_range s base len used = fold (pmm_mark_page used) ?ps s"
      using pmm_wf_storage [OF assms] unfolding pmm_core_mark_range_def Let_def e by simp
    with m False show ?thesis by (auto simp: fun_eq_iff)
  qed
qed


section \<open>Allocation takes the lowest free page\<close>

definition pmm_take :: "pmm_core_state \<Rightarrow> nat \<Rightarrow> u32 \<times> pmm_core_state" where
  "pmm_take s p = (of_nat p * PAGE_SIZE, (pmm_core_bitmap_set s p)\<lparr>refcounts := (refcounts s)[p := 1]\<rparr>)"

lemma alloc_bits_find:
  "alloc_bits s i bs =
     (case find (\<lambda>b. unat (max_pages s) \<le> i * 8 + b \<or> \<not> bit (bitmap s ! i) b) bs of
        None \<Rightarrow> None
      | Some b \<Rightarrow> Some (if unat (max_pages s) \<le> i * 8 + b then (0, s) else pmm_take s (i * 8 + b)))"
  by (induction bs) (auto simp: pmm_take_def Let_def and_exp_eq_0_iff_not_bit)

lemma page_bit_byte: "b < 8 \<Longrightarrow> page_bit bm (i * 8 + b) = bit (bm ! i) b"
  by (simp add: page_bit_def)

lemma bit_u8_all: "(\<forall>b<8. bit (w::u8) b) \<longleftrightarrow> w = 0xFF"
proof
  assume "\<forall>b<8. bit w b"
  then have "w = mask 8" by (intro bit_eqI) (auto simp: bit_simps dest: bit_imp_le_length)
  then show "w = 0xFF" by (simp add: mask_numeral)
next
  assume "w = 0xFF"
  then have "w = mask 8" by (simp add: mask_numeral)
  then show "\<forall>b<8. bit w b" by (auto simp: bit_simps)
qed

lemma page_below_byte:
  assumes "p < Suc k * 8" "\<not> p < k * 8"
  shows "\<exists>b<8. p = k * 8 + b"
  using assms by (intro exI [of _ "p - k * 8"]) auto

lemma alloc_bytes_scan:
  assumes "k \<le> n" "unat (max_pages s) \<le> n * 8"
    and "\<forall>p < k * 8. p < unat (max_pages s) \<longrightarrow> page_bit (bitmap s) p"
  shows "alloc_bytes s [k..<n] =
    (case scan_first (\<lambda>p. \<not> page_bit (bitmap s) p) (unat (max_pages s)) of
       None \<Rightarrow> (0, s) | Some p \<Rightarrow> pmm_take s p)"
  using assms
proof (induction "n - k" arbitrary: k)
  case 0
  then have "scan_first (\<lambda>p. \<not> page_bit (bitmap s) p) (unat (max_pages s)) = None" by (auto simp: scan_first_None)
  with 0 show ?case by simp
next
  case (Suc m)
  let ?P = "\<lambda>b. unat (max_pages s) \<le> k * 8 + b \<or> \<not> bit (bitmap s ! k) b"
  let ?scan = "scan_first (\<lambda>p. \<not> page_bit (bitmap s) p) (unat (max_pages s))"
  have upt: "[k..<n] = k # [Suc k..<n]" using Suc.hyps(2) by (simp add: upt_conv_Cons)
  have IH: "alloc_bytes s [Suc k..<n] = (case ?scan of None \<Rightarrow> (0, s) | Some p \<Rightarrow> pmm_take s p)"
    if "\<forall>b<8. k * 8 + b < unat (max_pages s) \<longrightarrow> page_bit (bitmap s) (k * 8 + b)"
    using Suc.hyps(2) Suc.prems that
    by (intro Suc.hyps(1)) (auto dest!: page_below_byte [rotated])
  show ?case
  proof (cases "scan_first ?P 8")
    case None
    then have all: "\<forall>b<8. bit (bitmap s ! k) b" by (auto simp: scan_first_None)
    then have "bitmap s ! k = 0xFF" by (simp add: bit_u8_all)
    with IH all show ?thesis by (simp add: upt page_bit_byte)
  next
    case (Some b)
    note b = scan_first_SomeD [OF Some]
    have found: "find ?P [0..<8] = Some b" using Some by (simp add: scan_first_def)
    have below: "page_bit (bitmap s) p" if "p < k * 8 + b" "p < unat (max_pages s)" for p
    proof (cases "p < k * 8")
      case False
      with that b(1) obtain c where "c < b" "p = k * 8 + c"
        by (metis add_less_cancel_left le_add_diff_inverse not_less)
      with b(1) b(3) [of c] show ?thesis by (auto simp: page_bit_byte)
    qed (use that Suc.prems(3) in blast)
    show ?thesis
    proof (cases "unat (max_pages s) \<le> k * 8 + b")
      case True
      then have none: "?scan = None" using below by (auto simp: scan_first_None)
      show ?thesis
      proof (cases "bitmap s ! k = 0xFF")
        case True
        then have "\<forall>b<8. bit (bitmap s ! k) b" using bit_u8_all by blast
        with IH True none show ?thesis by (simp add: upt page_bit_byte)
      next
        case False
        with True none found show ?thesis by (simp add: upt alloc_bits_find)
      qed
    next
      case False
      with b have clear: "\<not> bit (bitmap s ! k) b" by auto
      then have "\<not> page_bit (bitmap s) (k * 8 + b)" using b(1) by (simp add: page_bit_byte)
      with False below have scan: "?scan = Some (k * 8 + b)"
        by (intro scan_first_eq_SomeI) auto
      have "bitmap s ! k \<noteq> 0xFF" using clear b(1) bit_u8_all by blast
      with False found scan show ?thesis by (simp add: upt alloc_bits_find)
    qed
  qed
qed

lemma alloc_page_scan:
  assumes "pmm_wf s"
  shows "pmm_core_alloc_page s =
    (case scan_first (\<lambda>p. page_refs s p = 0) (unat (max_pages s)) of
       None \<Rightarrow> (0, s) | Some p \<Rightarrow> pmm_take s p)"
proof -
  have bytes: "unat (pmm_core_bitmap_bytes (max_pages s)) = (unat (max_pages s) + 7) div 8"
    using assms by (simp add: pmm_core_bitmap_bytes_def pmm_wf_def unat_div unat_u32_add)
  have "scan_first (\<lambda>p. \<not> page_bit (bitmap s) p) (unat (max_pages s)) =
        scan_first (\<lambda>p. page_refs s p = 0) (unat (max_pages s))"
    using assms by (intro scan_first_cong) (simp add: pmm_wf_def page_refs_def)
  moreover have "unat (max_pages s) \<le> (unat (max_pages s) + 7) div 8 * 8" by presburger
  ultimately show ?thesis
    using alloc_bytes_scan [of 0 "(unat (max_pages s) + 7) div 8" s] pmm_wf_storage [OF assms]
    by (simp add: pmm_core_alloc_page_def bytes)
qed


section \<open>Effect of each operation on the reference counts\<close>

lemma pmm_take_effect:
  assumes "pmm_wf s" "p < unat (max_pages s)"
  shows "pmm_wf (snd (pmm_take s p))" "page_refs (snd (pmm_take s p)) = (page_refs s)(p := 1)"
    "max_pages (snd (pmm_take s p)) = max_pages s" "unat (fst (pmm_take s p)) = p * 4096"
proof -
  have "p < 1048576" using assms by (simp add: pmm_wf_def)
  then have "unat (of_nat p * 4096 :: u32) = p * 4096"
    by (simp add: unat_word_ariths unat_of_nat)
  then show "unat (fst (pmm_take s p)) = p * 4096" by (simp add: pmm_take_def PAGE_SIZE_def)
qed (use pmm_wf_set [OF assms, of 1] in \<open>simp_all add: pmm_take_def\<close>)

lemma unat_div_page [simp]: "unat (a div PAGE_SIZE) = unat a div 4096"
  by (simp add: PAGE_SIZE_def unat_div)

lemma incref_effect:
  assumes "pmm_wf s"
  shows "pmm_wf (pmm_core_incref s a) \<and> max_pages (pmm_core_incref s a) = max_pages s \<and>
    page_refs (pmm_core_incref s a) =
      (let p = unat a div 4096 in
       if p < unat (max_pages s) \<and> page_refs s p \<noteq> 0xFF then (page_refs s)(p := page_refs s p + 1)
       else page_refs s)"
proof -
  let ?p = "unat a div 4096"
  show ?thesis
  proof (cases "?p < unat (max_pages s) \<and> refcounts s ! ?p \<noteq> 0xFF")
    case True
    then have "refcounts s ! ?p + 1 \<noteq> 0" by (simp add: u8_Suc_nonzero)
    with True assms pmm_wf_set [OF assms, of ?p "refcounts s ! ?p + 1"]
      pmm_wf_recount [OF assms, of ?p "refcounts s ! ?p + 1"] pmm_wf_storage [OF assms]
    show ?thesis
      by (cases "refcounts s ! ?p = 0")
         (auto simp: pmm_core_incref_def Let_def page_refs_def u8_less_max)
  next
    case False
    with assms show ?thesis
      by (auto simp: pmm_core_incref_def Let_def page_refs_def)
  qed
qed

lemma decref_effect:
  assumes "pmm_wf s"
  shows "pmm_wf (pmm_core_decref s a) \<and> max_pages (pmm_core_decref s a) = max_pages s \<and>
    page_refs (pmm_core_decref s a) =
      (let p = unat a div 4096 in
       if p < unat (max_pages s) \<and> page_refs s p \<noteq> 0xFF \<and> page_refs s p \<noteq> 0
       then (page_refs s)(p := page_refs s p - 1) else page_refs s)"
proof -
  let ?p = "unat a div 4096"
  show ?thesis
  proof (cases "?p < unat (max_pages s) \<and> refcounts s ! ?p \<noteq> 0xFF \<and> refcounts s ! ?p \<noteq> 0")
    case True
    then have len: "?p < length (refcounts s)" using assms by (simp add: pmm_wf_def)
    show ?thesis
    proof (cases "refcounts s ! ?p = 1")
      case one: True
      have "pmm_core_decref s a = (pmm_core_bitmap_clear s ?p)\<lparr>refcounts := (refcounts s)[?p := 0]\<rparr>"
        using True one len pmm_wf_storage [OF assms]
        by (simp add: pmm_core_decref_def Let_def pmm_core_bitmap_clear_def)
      with pmm_wf_clear [OF assms, of ?p] True one show ?thesis
        by (simp add: Let_def page_refs_def)
    next
      case False
      then have "refcounts s ! ?p - 1 \<noteq> 0" by simp
      with True len pmm_wf_storage [OF assms] pmm_wf_recount [OF assms, of ?p "refcounts s ! ?p - 1"]
      show ?thesis by (auto simp: pmm_core_decref_def Let_def page_refs_def)
    qed
  next
    case False
    with assms show ?thesis
      by (auto simp: pmm_core_decref_def Let_def page_refs_def)
  qed
qed

lemma free_count_fold:
  "fold (\<lambda>page count. if \<not> P page then count + 1 else count) ps (c::u32) =
     c + of_nat (length (filter (\<lambda>p. \<not> P p) ps))"
  by (induction ps arbitrary: c) auto

lemma free_page_count_refs:
  assumes "pmm_wf s"
  shows "unat (pmm_core_free_page_count s) = card {p. p < unat (max_pages s) \<and> page_refs s p = 0}"
proof -
  let ?n = "unat (max_pages s)"
  have "length (filter (\<lambda>p. \<not> pmm_core_bitmap_test s p) [0..<?n]) = card {p. p < ?n \<and> page_refs s p = 0}"
  proof -
    have "length (filter (\<lambda>p. \<not> pmm_core_bitmap_test s p) [0..<?n]) =
          card (set (filter (\<lambda>p. \<not> pmm_core_bitmap_test s p) [0..<?n]))"
      by (rule distinct_card [symmetric]) simp
    also have "set (filter (\<lambda>p. \<not> pmm_core_bitmap_test s p) [0..<?n]) = {p. p < ?n \<and> page_refs s p = 0}"
      using assms by (auto simp: bitmap_testE pmm_wf_def page_refs_def)
    finally show ?thesis .
  qed
  moreover have "card {p. p < ?n \<and> page_refs s p = 0} \<le> ?n"
    using card_mono [of "{..<?n}" "{p. p < ?n \<and> page_refs s p = 0}"] by auto
  ultimately show ?thesis
    using pmm_wf_storage [OF assms] assms
    by (simp add: pmm_core_free_page_count_def free_count_fold unat_of_nat_u32 pmm_wf_def)
qed


section \<open>The page frame contract\<close>

text \<open>
  What the slab caches and the commit accounting use of the allocator: a successful allocation
  hands out the address of a page nobody referenced, releasing the only reference makes it free
  again, and no other page changes.
\<close>

locale page_frames =
  fixes alloc :: "'s \<Rightarrow> u32 \<times> 's"
    and release :: "'s \<Rightarrow> u32 \<Rightarrow> 's"
    and refs :: "'s \<Rightarrow> nat \<Rightarrow> u8"
    and inv :: "'s \<Rightarrow> bool"
  assumes alloc_fail: "inv s \<Longrightarrow> alloc s = (0, s') \<Longrightarrow> s' = s"
    and alloc_page: "inv s \<Longrightarrow> alloc s = (a, s') \<Longrightarrow> a \<noteq> 0 \<Longrightarrow>
      inv s' \<and> unat a mod 4096 = 0 \<and> refs s (unat a div 4096) = 0 \<and>
      refs s' = (refs s)(unat a div 4096 := 1)"
    and release_page: "inv s \<Longrightarrow> refs s (unat a div 4096) = 1 \<Longrightarrow>
      inv (release s a) \<and> refs (release s a) = (refs s)(unat a div 4096 := 0)"
begin

text \<open>Two pages handed out without a release in between are different.\<close>

lemma alloc_twice_distinct:
  assumes "inv s" "alloc s = (a, s1)" "a \<noteq> 0" "alloc s1 = (b, s2)" "b \<noteq> 0"
  shows "unat a div 4096 \<noteq> unat b div 4096"
  using alloc_page [OF assms(1-3)] alloc_page [OF _ assms(4,5)] by auto

lemma alloc_release:
  assumes "inv s" "alloc s = (a, s1)" "a \<noteq> 0"
  shows "inv (release s1 a)" "refs (release s1 a) = refs s"
  using alloc_page [OF assms] release_page [of s1 a] by auto

end

text \<open>Page 0 is pinned by every provider, so the address 0 means failure only.\<close>

definition pmm_ok :: "pmm_core_state \<Rightarrow> bool" where
  "pmm_ok s \<longleftrightarrow> pmm_wf s \<and> page_refs s 0 = 0xFF"

lemma alloc_page_cases:
  assumes "pmm_wf s"
  shows "(pmm_core_alloc_page s = (0, s) \<and> (\<forall>p < unat (max_pages s). page_refs s p \<noteq> 0)) \<or>
    (\<exists>p < unat (max_pages s). pmm_core_alloc_page s = pmm_take s p \<and> page_refs s p = 0 \<and>
       (\<forall>q < p. page_refs s q \<noteq> 0))"
proof (cases "scan_first (\<lambda>p. page_refs s p = 0) (unat (max_pages s))")
  case None
  with alloc_page_scan [OF assms] have "pmm_core_alloc_page s = (0, s)" by simp
  with None show ?thesis by (auto simp: scan_first_None)
next
  case (Some p)
  with alloc_page_scan [OF assms] scan_first_SomeD [OF Some] show ?thesis by auto
qed

lemma alloc_page_fails_iff:
  assumes "pmm_ok s"
  shows "fst (pmm_core_alloc_page s) = 0 \<longleftrightarrow> (\<forall>p < unat (max_pages s). page_refs s p \<noteq> 0)"
proof -
  from assms have wf: "pmm_wf s" "page_refs s 0 = 0xFF" by (auto simp: pmm_ok_def)
  have "fst (pmm_take s p) \<noteq> 0" if "p < unat (max_pages s)" "page_refs s p = 0" for p
  proof
    assume "fst (pmm_take s p) = 0"
    with pmm_take_effect [OF wf(1) that(1)] have "p = 0" by simp
    with that wf show False by simp
  qed
  with alloc_page_cases [OF wf(1)] show ?thesis by fastforce
qed

lemma alloc_page_ok:
  assumes "pmm_ok s" "pmm_core_alloc_page s = (a, s')" "a \<noteq> 0"
  shows "pmm_ok s' \<and> unat a mod 4096 = 0 \<and> page_refs s (unat a div 4096) = 0 \<and>
    page_refs s' = (page_refs s)(unat a div 4096 := 1)"
proof -
  from assms have wf: "pmm_wf s" "page_refs s 0 = 0xFF" by (auto simp: pmm_ok_def)
  with alloc_page_cases [OF wf(1)] assms(2,3) obtain p where
    p: "p < unat (max_pages s)" "(a, s') = pmm_take s p" "page_refs s p = 0"
    by auto
  from p(3) wf(2) have "p \<noteq> 0" by (cases "p = 0") auto
  moreover note e = pmm_take_effect [OF wf(1) p(1)]
  moreover have "unat a = p * 4096" using e(4) p(2) by (metis fst_conv)
  moreover have "s' = snd (pmm_take s p)" using p(2) by (metis snd_conv)
  ultimately show ?thesis using p(3) wf(2) by (auto simp: pmm_ok_def)
qed

lemma decref_ok:
  assumes "pmm_ok s"
  shows "pmm_ok (pmm_core_decref s a)"
  using decref_effect [of s a] assms by (auto simp: pmm_ok_def Let_def)

interpretation frames: page_frames pmm_core_alloc_page pmm_core_free_page page_refs pmm_ok
proof
  fix s s' assume s: "pmm_ok s" "pmm_core_alloc_page s = (0, s')"
  then have wf: "pmm_wf s" "page_refs s 0 = 0xFF" by (auto simp: pmm_ok_def)
  show "s' = s"
  proof (rule ccontr)
    assume "s' \<noteq> s"
    with alloc_page_cases [OF wf(1)] s(2) obtain p where
      p: "p < unat (max_pages s)" "(0, s') = pmm_take s p" "page_refs s p = 0" by auto
    with pmm_take_effect(4) [OF wf(1) p(1)] have "p = 0" by (metis fst_conv mult_eq_0_iff unat_0 zero_neq_numeral)
    with p(3) wf(2) show False by simp
  qed
next
  fix s s' and a :: u32 assume "pmm_ok s" "pmm_core_alloc_page s = (a, s')" "a \<noteq> 0"
  then show "pmm_ok s' \<and> unat a mod 4096 = 0 \<and> page_refs s (unat a div 4096) = 0 \<and>
      page_refs s' = (page_refs s)(unat a div 4096 := 1)"
    by (rule alloc_page_ok)
next
  fix s and a :: u32 assume s: "pmm_ok s" "page_refs s (unat a div 4096) = 1"
  then have "unat a div 4096 < unat (max_pages s)" by (auto simp: page_refs_def split: if_splits)
  with decref_effect [of s a] s decref_ok [OF s(1), of a]
  show "pmm_ok (pmm_core_free_page s a) \<and>
      page_refs (pmm_core_free_page s a) = (page_refs s)(unat a div 4096 := 0)"
    by (auto simp: pmm_core_free_page_def pmm_ok_def Let_def)
qed


section \<open>Ranges and initialisation\<close>

text \<open>The pages a range of bytes touches.\<close>

definition range_covers :: "u32 \<Rightarrow> u32 \<Rightarrow> nat \<Rightarrow> bool" where
  "range_covers base len p \<longleftrightarrow> len \<noteq> 0 \<and> unat base div 4096 \<le> p \<and>
     p < (unat base + unat len + 4095) div 4096"

definition any_covers :: "pmm_range list \<Rightarrow> nat \<Rightarrow> bool" where
  "any_covers rs p \<longleftrightarrow> (\<exists>r\<in>set rs. range_covers (range_base r) (range_length r) p)"

lemma any_covers_simps [simp]:
  "any_covers [] p = False"
  "any_covers (r # rs) p \<longleftrightarrow> range_covers (range_base r) (range_length r) p \<or> any_covers rs p"
  by (auto simp: any_covers_def)

lemma mark_range_refs:
  assumes "pmm_wf s"
  shows "pmm_wf (pmm_core_mark_range s base len used)"
    "max_pages (pmm_core_mark_range s base len used) = max_pages s"
    "p < unat (max_pages s) \<Longrightarrow> page_refs (pmm_core_mark_range s base len used) p =
       (if range_covers base len p then (if used then 0xFF else 0) else page_refs s p)"
  using mark_range [OF assms] by (auto simp: range_covers_def)

lemma mark_ranges_refs:
  assumes "pmm_wf s"
  shows "pmm_wf (fold (\<lambda>r st. pmm_core_mark_range st (range_base r) (range_length r) used) rs s) \<and>
    max_pages (fold (\<lambda>r st. pmm_core_mark_range st (range_base r) (range_length r) used) rs s) = max_pages s \<and>
    (\<forall>p < unat (max_pages s).
       page_refs (fold (\<lambda>r st. pmm_core_mark_range st (range_base r) (range_length r) used) rs s) p =
       (if any_covers rs p then (if used then 0xFF else 0) else page_refs s p))"
  using assms by (induction rs arbitrary: s) (simp_all add: mark_range_refs)

lemma bitmap_bytes_unat:
  "unat n \<le> 1048576 \<Longrightarrow> unat (pmm_core_bitmap_bytes n) = (unat n + 7) div 8"
  by (simp add: pmm_core_bitmap_bytes_def unat_div_distrib unat_u32_add)

lemma pmm_core_init_refs:
  assumes "0 < max_pages s" "unat (max_pages s) \<le> 1048576"
    "length (bitmap s) = (unat (max_pages s) + 7) div 8" "length (refcounts s) = unat (max_pages s)"
  shows "pmm_wf (pmm_core_init s usable reserved)"
    "max_pages (pmm_core_init s usable reserved) = max_pages s"
    "p < unat (max_pages s) \<Longrightarrow> page_refs (pmm_core_init s usable reserved) p =
       (if any_covers usable p \<and> \<not> any_covers reserved p then 0 else 0xFF)"
proof -
  define s1 where "s1 = s\<lparr>bitmap := replicate (length (bitmap s)) 0xFF,
    refcounts := replicate (length (refcounts s)) 0xFF\<rparr>"
  have bits: "bit (0xFF :: u8) k" if "k < 8" for k
    using that bit_mask_iff [of 8 k, where ?'a = u8] by (simp add: mask_eq_exp_minus_1 bit_simps)
  have wf: "pmm_wf s1" "max_pages s1 = max_pages s"
    using assms bits by (auto simp: pmm_wf_def s1_def page_bit_def word_less_nat_alt)
  have refs: "q < unat (max_pages s) \<Longrightarrow> page_refs s1 q = 0xFF" for q
    using assms by (auto simp: page_refs_def s1_def)
  have st: "pmm_core_has_storage s"
    using assms by (auto simp: pmm_core_has_storage_def word_less_nat_alt)
  have "map (\<lambda>i. if i < unat (pmm_core_bitmap_bytes (max_pages s)) then 0xFF else bitmap s ! i)
      [0..<length (bitmap s)] = replicate (length (bitmap s)) 0xFF"
    "map (\<lambda>i. if i < unat (max_pages s) then 0xFF else refcounts s ! i)
      [0..<length (refcounts s)] = replicate (length (refcounts s)) 0xFF"
    using assms by (auto intro!: nth_equalityI simp: bitmap_bytes_unat)
  then have e: "pmm_core_init s usable reserved =
      fold (\<lambda>r st. pmm_core_mark_range st (range_base r) (range_length r) True) reserved
        (fold (\<lambda>r st. pmm_core_mark_range st (range_base r) (range_length r) False) usable s1)"
    using st by (simp add: pmm_core_init_def s1_def Let_def)
  note f = mark_ranges_refs [OF wf(1), of False usable]
  note u = mark_ranges_refs [OF conjunct1 [OF f], of True reserved]
  show "pmm_wf (pmm_core_init s usable reserved)"
    "max_pages (pmm_core_init s usable reserved) = max_pages s"
    using f u wf by (simp_all add: e)
  show "page_refs (pmm_core_init s usable reserved) p =
       (if any_covers usable p \<and> \<not> any_covers reserved p then 0 else 0xFF)"
    if "p < unat (max_pages s)" using f u wf refs that by (simp add: e)
qed

section \<open>Sequences of operations\<close>

datatype pmm_op = Alloc | Free u32 | Incref u32 | Decref u32 | MarkUsed u32 u32

fun pmm_step :: "pmm_op \<Rightarrow> pmm_core_state \<Rightarrow> pmm_core_state" where
  "pmm_step Alloc s = snd (pmm_core_alloc_page s)"
| "pmm_step (Free a) s = pmm_core_free_page s a"
| "pmm_step (Incref a) s = pmm_core_incref s a"
| "pmm_step (Decref a) s = pmm_core_decref s a"
| "pmm_step (MarkUsed b l) s = pmm_core_mark_used s b l"

lemma pmm_step_pinned:
  assumes "pmm_wf s"
  shows "pmm_wf (pmm_step op s)" "max_pages (pmm_step op s) = max_pages s"
    "page_refs s p = 0xFF \<Longrightarrow> page_refs (pmm_step op s) p = 0xFF"
  using assms alloc_page_cases [OF assms] pmm_take_effect [OF assms]
    incref_effect [OF assms] decref_effect [OF assms] mark_range [OF assms]
  by (cases op; fastforce simp: pmm_core_free_page_def pmm_core_mark_used_def Let_def)+

lemma pmm_steps_wf:
  assumes "pmm_wf s"
  shows "pmm_wf (fold pmm_step ops s) \<and> max_pages (fold pmm_step ops s) = max_pages s"
  using assms by (induction ops arbitrary: s) (simp_all add: pmm_step_pinned)


section \<open>Properties\<close>

text \<open>A small concrete state: four pages, page 0 pinned, page 1 in use, pages 2 and 3 free.\<close>

definition pmm_example :: pmm_core_state where
  "pmm_example = \<lparr>bitmap = [0xF3], refcounts = [0xFF, 1, 0, 0], max_pages = 4\<rparr>"

lemma pmm_example_wf: "pmm_wf pmm_example"
proof -
  have "(\<forall>p<4. P p) = (P 0 \<and> P 1 \<and> P 2 \<and> P 3)" for P :: "nat \<Rightarrow> bool"
    by (auto simp: numeral_eq_Suc All_less_Suc)
  then show ?thesis
    by (simp add: pmm_example_def pmm_wf_def page_bit_def)
qed

lemma pmm_example_alloc: "fst (pmm_core_alloc_page pmm_example) = 0x2000"
proof -
  have "unat (pmm_core_bitmap_bytes 4) = 1" by (simp add: pmm_core_bitmap_bytes_def)
  then show ?thesis
    by (simp add: pmm_core_alloc_page_def pmm_core_has_storage_def pmm_example_def upt_rec
        PAGE_SIZE_def)
qed

text \<open>
  C7: \<^verbatim>\<open>pmm_core_alloc_page\<close> takes the lowest-numbered free page: it keeps the bitmap and the
  counts consistent, gives that page the count 1, returns its address and changes no other
  page; when no page is free it returns 0 and changes nothing.
\<close>

theorem alloc_page_lowest_free:
  assumes "pmm_wf s" "pmm_core_alloc_page s = (a, s')"
  shows "pmm_wf s' \<and>
    (if \<exists>p < unat (max_pages s). page_refs s p = 0
     then \<exists>p < unat (max_pages s). unat a = p * 4096 \<and> page_refs s p = 0 \<and>
            (\<forall>q < p. page_refs s q \<noteq> 0) \<and> page_refs s' = (page_refs s)(p := 1)
     else a = 0 \<and> s' = s)"
  using alloc_page_cases [OF assms(1)] assms pmm_take_effect [OF assms(1)]
  by (metis (no_types, lifting) fst_conv snd_conv)

theorem alloc_page_lowest_free_witness:
  "pmm_wf pmm_example \<and> fst (pmm_core_alloc_page pmm_example) = 0x2000 \<and>
   pmm_wf (snd (pmm_core_alloc_page pmm_example))"
proof -
  show ?thesis
    using alloc_page_lowest_free [OF pmm_example_wf prod.collapse [symmetric]]
      pmm_example_wf pmm_example_alloc by simp
qed



text \<open>
  C9: The free-page counter is exact: it is the number of managed pages with count 0, a
  successful allocation lowers it by one, and freeing the page's only reference raises it
  back.
\<close>

theorem free_page_count_exact:
  assumes "pmm_ok s" "pmm_core_alloc_page s = (a, s')" "a \<noteq> 0"
  shows "unat (pmm_core_free_page_count s) = card {p. p < unat (max_pages s) \<and> page_refs s p = 0} \<and>
    unat (pmm_core_free_page_count s) = unat (pmm_core_free_page_count s') + 1 \<and>
    unat (pmm_core_free_page_count (pmm_core_free_page s' a)) = unat (pmm_core_free_page_count s)"
proof -
  from assms have wf: "pmm_wf s" "page_refs s 0 = 0xFF" by (auto simp: pmm_ok_def)
  note a = alloc_page_ok [OF assms]
  let ?p = "unat a div 4096"
  have m: "max_pages s' = max_pages s" "?p < unat (max_pages s)"
    using alloc_page_cases [OF wf(1)] assms(2,3) pmm_take_effect [OF wf(1)]
    by (metis fst_conv snd_conv nonzero_mult_div_cancel_right zero_neq_numeral)+
  have wf': "pmm_wf s'" using a by (simp add: pmm_ok_def)
  let ?F = "\<lambda>s. {p. p < unat (max_pages s) \<and> page_refs s p = 0}"
  have "?F s = insert ?p (?F s')" "?p \<notin> ?F s'" using a m by auto
  then have "card (?F s) = card (?F s') + 1"
    by (simp add: card_insert_if)
  moreover have "page_refs (pmm_core_free_page s' a) = page_refs s" "pmm_ok (pmm_core_free_page s' a)"
    using frames.alloc_release [OF assms] by auto
  moreover have "max_pages (pmm_core_free_page s' a) = max_pages s"
    using decref_effect [OF wf', of a] m by (simp add: pmm_core_free_page_def)
  ultimately show ?thesis
    using free_page_count_refs [OF wf(1)] free_page_count_refs [OF wf']
      free_page_count_refs [of "pmm_core_free_page s' a"]
    by (simp add: pmm_ok_def)
qed

theorem free_page_count_exact_witness:
  "\<exists>s'. pmm_core_alloc_page pmm_example = (0x2000, s') \<and>
     unat (pmm_core_free_page_count pmm_example) = unat (pmm_core_free_page_count s') + 1"
proof -
  obtain s' where s': "pmm_core_alloc_page pmm_example = (0x2000, s')"
    using pmm_example_alloc by (cases "pmm_core_alloc_page pmm_example") simp
  have "pmm_ok pmm_example"
    using pmm_example_wf by (simp add: pmm_ok_def pmm_example_def page_refs_def)
  from free_page_count_exact [OF this s'] s' show ?thesis by simp
qed

end
