(* ===== verification/Pmm_X86.thy ===== *)
theory Pmm_X86
  imports Pmm
begin

text \<open>
  The x86 page-frame provider \<^verbatim>\<open>kernel/arch/x86/mm/pmm.c\<close>: it reads the Multiboot memory map
  and framebuffer description, binds the allocator core to storage placed after the kernel
  image, frees the usable ranges and pins everything the kernel must keep.  The memory map in
  physical memory is a function from addresses to entries, the storage a byte memory, and the
  linker symbols are arguments.
\<close>

section \<open>Boot information\<close>

record multiboot_mmap_entry =
  mmap_size :: u32
  mmap_entry_addr :: u64
  mmap_len :: u64
  mmap_type :: u32

record multiboot_info =
  mb_flags :: u32
  mmap_length :: u32
  mmap_addr :: u32
  framebuffer_addr :: u64
  framebuffer_pitch :: u32
  framebuffer_width :: u32
  framebuffer_height :: u32
  framebuffer_bpp :: u8

definition MULTIBOOT_FLAG_MMAP :: u32 where "MULTIBOOT_FLAG_MMAP = 0x40"




definition x86_pmm_managed_usable_range :: "u64 \<Rightarrow> u64 \<Rightarrow> u32 \<Rightarrow> (u32 \<times> u32) option" where
  "x86_pmm_managed_usable_range base len managed_pages =
     (let managed_end = (ucast managed_pages :: u64) * 4096 in
      if len = 0 \<or> managed_end \<le> base then None
      else let end0 = base + len;
               end1 = (if end0 < base then 0xFFFFFFFFFFFFFFFF else end0);
               end2 = (if managed_end < end1 then managed_end else end1)
           in if end2 \<le> base then None else Some (ucast base, ucast (end2 - base)))"



text \<open>
  The walk over the memory map, with the loop body as an argument: an entry is \<open>size + 4\<close> bytes
  and the walk stops at an entry that wraps or passes the end of the map.
\<close>

function x86_mmap_walk ::
  "(u32 \<Rightarrow> multiboot_mmap_entry) \<Rightarrow> (multiboot_mmap_entry \<Rightarrow> 'a \<Rightarrow> 'a) \<Rightarrow> u32 \<Rightarrow> u32 \<Rightarrow> 'a \<Rightarrow> 'a" where
  "x86_mmap_walk rd body map_end entry_addr acc =
     (if entry_addr + 4 \<le> map_end then
        (let entry = rd entry_addr;
             nxt = entry_addr + mmap_size entry + 4
         in if nxt \<le> entry_addr \<or> map_end < nxt then acc
            else x86_mmap_walk rd body map_end nxt (body entry acc))
      else acc)"
  by pat_completeness auto
termination
  by (relation "measure (\<lambda>(rd, body, map_end, entry_addr, acc). unat map_end - unat entry_addr)")
     (auto simp: word_less_nat_alt word_le_nat_alt)

declare x86_mmap_walk.simps [simp del]



definition apply_usable_entry :: "multiboot_mmap_entry \<Rightarrow> pmm_core_state \<Rightarrow> pmm_core_state" where
  "apply_usable_entry e s =
     (if mmap_type e = 1 then
        (case x86_pmm_managed_usable_range (mmap_entry_addr e) (mmap_len e) (max_pages s) of
           Some (b, l) \<Rightarrow> pmm_core_mark_free s b l
         | None \<Rightarrow> s)
      else s)"

definition x86_pmm_apply_usable_ranges ::
  "(u32 \<Rightarrow> multiboot_mmap_entry) \<Rightarrow> multiboot_info option \<Rightarrow> pmm_core_state \<Rightarrow> pmm_core_state" where
  "x86_pmm_apply_usable_ranges rd mbi s =
     (case mbi of
        Some m \<Rightarrow>
          if mb_flags m AND MULTIBOOT_FLAG_MMAP \<noteq> 0 then
            (let map_end = mmap_addr m + mmap_length m in
             if map_end < mmap_addr m then s
             else x86_mmap_walk rd apply_usable_entry map_end (mmap_addr m) s)
          else pmm_core_mark_free s 0x00100000 0x07F00000
      | None \<Rightarrow> pmm_core_mark_free s 0x00100000 0x07F00000)"




section \<open>The boot snapshot\<close>








section \<open>Reserved ranges\<close>






section \<open>Properties\<close>














end
