(* ===== verification/Vma.thy ===== *)
theory Vma
  imports Kheap
begin

text \<open>
  Virtual memory areas: \<^verbatim>\<open>kernel/mm/vma.c\<close> with the layout helpers of
  \<^verbatim>\<open>kernel/mm/vm_layout.h\<close>.  A process keeps its areas in an array sorted by start address,
  either in its shared address space (a heap array that grows by doubling) or, without one, in
  an inline table of sixteen entries.  Array indices and counters that stay below the capacity
  are natural numbers; addresses, sizes and the stored counters are 32-bit words.  Operations
  return \<open>None\<close> when the C code does not return, and otherwise a flag (\<open>True\<close> for the result 0,
  \<open>False\<close> for -1) with the new state.
\<close>

section \<open>Model\<close>

record vm_area =
  vm_start :: u32
  vm_end :: u32
  vm_flags :: u32
  vm_kind :: u32
  vm_file_offset :: u32
  vm_file_size :: u32
  vm_mount_id :: u32
  vm_inode_num :: u32

definition VMA_SIZE :: u32 where "VMA_SIZE = 32"
definition PROCESS_MAX_VMAS :: u32 where "PROCESS_MAX_VMAS = 16"
definition VMA_FLAG_ANON :: u32 where "VMA_FLAG_ANON = 0x08"
definition VMA_PROT_FLAGS :: u32 where "VMA_PROT_FLAGS = 0x07"
definition VMA_KIND_GENERIC :: u32 where "VMA_KIND_GENERIC = 0"
definition VMA_KIND_STACK :: u32 where "VMA_KIND_STACK = 2"
definition VM_MMAP_MIN :: u32 where "VM_MMAP_MIN = 0x40000000"
definition VM_STACK_GUARD_GAP :: u32 where "VM_STACK_GUARD_GAP = 0x100000"

lemmas vma_consts = VMA_SIZE_def PROCESS_MAX_VMAS_def VMA_FLAG_ANON_def VMA_PROT_FLAGS_def
  VMA_KIND_GENERIC_def VMA_KIND_STACK_def VM_MMAP_MIN_def VM_STACK_GUARD_GAP_def

text \<open>
  The address space of a process: the pointer to the heap array, its contents, and the
  counters; without an address space the inline table is used.
\<close>

record proc_address_space =
  as_vmas_ptr :: u32
  as_vmas :: "vm_area list"
  as_vma_count :: u32
  as_vma_capacity :: u32
  as_brk :: u32
  as_committed_pages :: u32

record process_vm =
  p_as :: "proc_address_space option"
  p_vmas :: "vm_area list"
  p_vma_count :: u32
  p_brk :: u32

definition zero_area :: vm_area where
  "zero_area = \<lparr>vm_start = 0, vm_end = 0, vm_flags = 0, vm_kind = 0, vm_file_offset = 0,
     vm_file_size = 0, vm_mount_id = 0, vm_inode_num = 0\<rparr>"

definition vm_page_align_down :: "u32 \<Rightarrow> u32" where
  "vm_page_align_down v = v AND NOT 0xFFF"

definition vm_page_align_up :: "u32 \<Rightarrow> u32" where
  "vm_page_align_up v = (if 0xFFFFFFFF - 0xFFF < v then 0 else (v + 0xFFF) AND NOT 0xFFF)"

definition vma_table :: "process_vm \<Rightarrow> vm_area list" where
  "vma_table p = (case p_as p of Some a \<Rightarrow> as_vmas a | None \<Rightarrow> p_vmas p)"

definition vma_count_const :: "process_vm \<Rightarrow> nat" where
  "vma_count_const p = unat (case p_as p of Some a \<Rightarrow> as_vma_count a | None \<Rightarrow> p_vma_count p)"

definition vma_capacity_const :: "process_vm \<Rightarrow> u32" where
  "vma_capacity_const p = (case p_as p of Some a \<Rightarrow> as_vma_capacity a | None \<Rightarrow> PROCESS_MAX_VMAS)"

definition vma_brk_const :: "process_vm \<Rightarrow> u32" where
  "vma_brk_const p = (case p_as p of Some a \<Rightarrow> as_brk a | None \<Rightarrow> p_brk p)"

text \<open>Writes through \<open>vma_table\<close> and \<open>vma_count_ptr\<close>.\<close>

definition vma_set_table :: "process_vm \<Rightarrow> vm_area list \<Rightarrow> nat \<Rightarrow> process_vm" where
  "vma_set_table p vs n =
     (case p_as p of
        Some a \<Rightarrow> p\<lparr>p_as := Some (a\<lparr>as_vmas := vs, as_vma_count := of_nat n\<rparr>)\<rparr>
      | None \<Rightarrow> p\<lparr>p_vmas := vs, p_vma_count := of_nat n\<rparr>)"

text \<open>The doubling loop of \<open>vma_ensure_capacity\<close>; \<open>Some None\<close> is its early return of -1.\<close>

partial_function (option) vma_grow :: "u32 \<Rightarrow> u32 \<Rightarrow> u32 option option" where
  "vma_grow next_cap needed =
     (if next_cap < needed then
        (if 0x80000000 < next_cap then Some None else vma_grow (next_cap * 2) needed)
      else Some (Some next_cap))"

declare vma_grow.simps [code]

definition vma_ensure_capacity ::
  "process_vm \<Rightarrow> kheap \<Rightarrow> u32 \<Rightarrow> (bool \<times> process_vm \<times> kheap) option" where
  "vma_ensure_capacity p h needed =
     (case p_as p of
        None \<Rightarrow> Some (needed \<le> PROCESS_MAX_VMAS, p, h)
      | Some a \<Rightarrow>
          if needed \<le> as_vma_capacity a then Some (True, p, h)
          else do {
            g \<leftarrow> vma_grow (if as_vma_capacity a \<noteq> 0 then as_vma_capacity a else 32) needed;
            case g of
              None \<Rightarrow> Some (False, p, h)
            | Some next_cap \<Rightarrow> do {
                (ptr, h1) \<leftarrow> kmalloc h (VMA_SIZE * next_cap);
                if ptr = 0 then Some (False, p, h1)
                else do {
                  let fresh = replicate (unat next_cap) zero_area;
                  let n = unat (as_vma_count a);
                  let fresh1 = (if as_vmas_ptr a \<noteq> 0 \<and> 0 < n
                                then take n (as_vmas a) @ drop n fresh else fresh);
                  h2 \<leftarrow> kfree h1 (as_vmas_ptr a);
                  Some (True, p\<lparr>p_as := Some (a\<lparr>as_vmas_ptr := ptr, as_vmas := fresh1,
                                               as_vma_capacity := next_cap\<rparr>)\<rparr>, h2)
                }
              }
          })"

definition vma_init :: "process_vm \<Rightarrow> process_vm" where
  "vma_init p =
     vma_set_table p
       (if (case p_as p of Some a \<Rightarrow> as_vmas_ptr a \<noteq> 0 | None \<Rightarrow> True) \<and> 0 < vma_capacity_const p
        then replicate (unat (vma_capacity_const p)) zero_area @
             drop (unat (vma_capacity_const p)) (vma_table p)
        else vma_table p) 0"

definition vma_overlaps :: "vm_area \<Rightarrow> u32 \<Rightarrow> u32 \<Rightarrow> bool" where
  "vma_overlaps lhs start stop \<longleftrightarrow> start < vm_end lhs \<and> vm_start lhs < stop"

definition vma_is_file_backed :: "vm_area \<Rightarrow> bool" where
  "vma_is_file_backed v \<longleftrightarrow> vm_kind v = VMA_KIND_GENERIC \<and> vm_flags v AND VMA_FLAG_ANON = 0"

definition vma_slice :: "vm_area \<Rightarrow> u32 \<Rightarrow> u32 \<Rightarrow> vm_area" where
  "vma_slice v start stop =
     (let slice = (if vma_is_file_backed v \<and> vm_start v < start
                   then v\<lparr>vm_file_offset := vm_file_offset v + (start - vm_start v)\<rparr> else v)
      in slice\<lparr>vm_start := start, vm_end := stop\<rparr>)"


definition vma_can_merge :: "vm_area \<Rightarrow> vm_area \<Rightarrow> bool" where
  "vma_can_merge lhs rhs \<longleftrightarrow>
     \<not> vma_is_file_backed lhs \<and> \<not> vma_is_file_backed rhs \<and>
     vm_end lhs = vm_start rhs \<and> vm_flags lhs = vm_flags rhs \<and> vm_kind lhs = vm_kind rhs \<and>
     vm_file_offset lhs = vm_file_offset rhs \<and> vm_file_size lhs = vm_file_size rhs \<and>
     vm_mount_id lhs = vm_mount_id rhs \<and> vm_inode_num lhs = vm_inode_num rhs"

text \<open>\<open>vma_coalesce\<close>: the compaction loop over the array, then clearing of the freed tail.\<close>

definition vma_coalesce_step :: "nat \<Rightarrow> vm_area list \<times> nat \<Rightarrow> vm_area list \<times> nat" where
  "vma_coalesce_step i = (\<lambda>(vs, out).
     if 0 < out \<and> vma_can_merge (vs ! (out - 1)) (vs ! i)
     then (vs[out - 1 := (vs ! (out - 1))\<lparr>vm_end := vm_end (vs ! i)\<rparr>], out)
     else (if out \<noteq> i then vs[out := vs ! i] else vs, out + 1))"

definition vma_coalesce :: "process_vm \<Rightarrow> process_vm" where
  "vma_coalesce p =
     (let old_count = vma_count_const p;
          (vs, out) = fold vma_coalesce_step [0..<old_count] (vma_table p, 0);
          vs1 = fold (\<lambda>i vs. vs[i := zero_area]) [out..<old_count] vs
      in vma_set_table p vs1 out)"


definition vma_range_is_free :: "process_vm \<Rightarrow> u32 \<Rightarrow> u32 \<Rightarrow> bool" where
  "vma_range_is_free p start stop \<longleftrightarrow>
     start < stop \<and> \<not> list_ex (\<lambda>v. vma_overlaps v start stop) (take (vma_count_const p) (vma_table p))"

text \<open>The search for the insertion index; \<open>None\<close> is the return on an overlap.\<close>

fun vma_insert_at :: "vm_area \<Rightarrow> vm_area list \<Rightarrow> nat \<Rightarrow> nat option" where
  "vma_insert_at area [] i = Some i"
| "vma_insert_at area (v # vs) i =
     (if vm_start v \<le> vm_start area then
        (if vma_overlaps v (vm_start area) (vm_end area) then None
         else vma_insert_at area vs (Suc i))
      else if vma_overlaps v (vm_start area) (vm_end area) then None
      else Some i)"

definition vma_memmove_up :: "vm_area list \<Rightarrow> nat \<Rightarrow> nat \<Rightarrow> vm_area list" where
  "vma_memmove_up vs at n =
     map (\<lambda>j. if at < j \<and> j \<le> at + n then vs ! (j - 1) else vs ! j) [0..<length vs]"

definition vma_insert_area ::
  "process_vm \<Rightarrow> kheap \<Rightarrow> vm_area \<Rightarrow> (bool \<times> process_vm \<times> kheap) option" where
  "vma_insert_area p h area =
     (if vm_end area < vm_start area then Some (False, p, h)
      else do {
        (ok, p1, h1) \<leftarrow> vma_ensure_capacity p h (of_nat (vma_count_const p) + 1);
        if \<not> ok then Some (False, p1, h1)
        else let count = vma_count_const p1; vs = vma_table p1 in
          case vma_insert_at area (take count vs) 0 of
            None \<Rightarrow> Some (False, p1, h1)
          | Some at \<Rightarrow>
              let vs1 = (if at < count then vma_memmove_up vs at (count - at) else vs)
              in Some (True, vma_coalesce (vma_set_table p1 (vs1[at := area]) (count + 1)), h1)
      })"


text \<open>The finders return the index of the entry their pointer designates.\<close>

definition vma_find :: "process_vm \<Rightarrow> u32 \<Rightarrow> nat option" where
  "vma_find p addr =
     scan_first (\<lambda>i. vm_start (vma_table p ! i) \<le> addr \<and> addr < vm_end (vma_table p ! i)) (vma_count_const p)"

definition vma_find_kind :: "process_vm \<Rightarrow> u32 \<Rightarrow> nat option" where
  "vma_find_kind p kind = scan_first (\<lambda>i. vm_kind (vma_table p ! i) = kind) (vma_count_const p)"

text \<open>The scan of \<open>vma_find_topdown_gap\<close> from the last area down.\<close>

fun vma_topdown_scan :: "u32 \<Rightarrow> u32 \<Rightarrow> u32 \<Rightarrow> vm_area list \<Rightarrow> u32 option" where
  "vma_topdown_scan len low scan_end [] =
     (if low < scan_end \<and> len \<le> scan_end - low then Some (scan_end - len) else None)"
| "vma_topdown_scan len low scan_end (v # vs) =
     (if scan_end \<le> vm_start v then vma_topdown_scan len low scan_end vs
      else let gap_start = (if low < vm_end v then vm_page_align_up (vm_end v) else low) in
        if gap_start < scan_end \<and> len \<le> scan_end - gap_start then Some (scan_end - len)
        else vma_topdown_scan len low (vm_page_align_down (vm_start v)) vs)"

definition vma_find_topdown_gap :: "process_vm \<Rightarrow> u32 \<Rightarrow> u32 \<Rightarrow> u32 option" where
  "vma_find_topdown_gap p hint nbytes =
     (if nbytes = 0 then None
      else let len = vm_page_align_up nbytes in
        if len = 0 then None
        else case vma_find_kind p VMA_KIND_STACK of
          None \<Rightarrow> None
        | Some si \<Rightarrow>
            let low0 = vm_page_align_up (vma_brk_const p);
                low = (if low0 < VM_MMAP_MIN then VM_MMAP_MIN else low0);
                high0 = vm_start (vma_table p ! si);
                high = (if VM_STACK_GUARD_GAP < high0 then high0 - VM_STACK_GUARD_GAP else high0)
            in if high \<le> low \<or> high - low < len then None
               else if hint \<noteq> 0 \<and> hint AND 0xFFF = 0 \<and> low \<le> hint \<and> hint < hint + len \<and>
                       hint + len \<le> high \<and> vma_range_is_free p hint (hint + len)
               then Some hint
               else vma_topdown_scan len low high (rev (take (vma_count_const p) (vma_table p))))"


definition vma_map_file_private ::
  "process_vm \<Rightarrow> kheap \<Rightarrow> u32 \<Rightarrow> u32 \<Rightarrow> u32 \<Rightarrow> u32 \<Rightarrow> u32 \<Rightarrow> u32 \<Rightarrow> u32 \<Rightarrow>
   (u32 option \<times> process_vm \<times> kheap) option" where
  "vma_map_file_private p h hint nbytes flags mount_id inode_num file_offset file_size =
     (case vma_find_topdown_gap p hint nbytes of
        None \<Rightarrow> Some (None, p, h)
      | Some start \<Rightarrow> do {
          (ok, p1, h1) \<leftarrow> vma_insert_area p h
            \<lparr>vm_start = start, vm_end = start + vm_page_align_up nbytes, vm_flags = flags,
             vm_kind = VMA_KIND_GENERIC, vm_file_offset = file_offset, vm_file_size = file_size,
             vm_mount_id = mount_id, vm_inode_num = inode_num\<rparr>;
          Some (if ok then Some start else None, p1, h1)
        })"








section \<open>Areas as a partial map of addresses\<close>







text \<open>The invariant: areas are intervals and each ends before the next begins.\<close>

definition areas_ok :: "vm_area list \<Rightarrow> bool" where
  "areas_ok vs \<longleftrightarrow> sorted_wrt (\<lambda>a b. vm_end a \<le> vm_start b) vs \<and> (\<forall>v\<in>set vs. vm_start v \<le> vm_end v)"

lemma areas_ok_Nil [simp]: "areas_ok []"
  by (simp add: areas_ok_def)

lemma areas_ok_Cons:
  "areas_ok (v # vs) \<longleftrightarrow> vm_start v \<le> vm_end v \<and> (\<forall>w\<in>set vs. vm_end v \<le> vm_start w) \<and> areas_ok vs"
  by (auto simp: areas_ok_def)

lemma areas_ok_append:
  "areas_ok (xs @ ys) \<longleftrightarrow> areas_ok xs \<and> areas_ok ys \<and> (\<forall>v\<in>set xs. \<forall>w\<in>set ys. vm_end v \<le> vm_start w)"
  by (auto simp: areas_ok_def sorted_wrt_append)







section \<open>Arrays refine lists\<close>





section \<open>The table and its invariant\<close>

definition areas :: "process_vm \<Rightarrow> vm_area list" where
  "areas p = take (vma_count_const p) (vma_table p)"

definition table_ok :: "process_vm \<Rightarrow> bool" where
  "table_ok p \<longleftrightarrow> vma_count_const p \<le> unat (vma_capacity_const p) \<and>
     length (vma_table p) = unat (vma_capacity_const p)"


lemma set_table_simps [simp]:
  "vma_table (vma_set_table p vs n) = vs"
  "vma_capacity_const (vma_set_table p vs n) = vma_capacity_const p"
  "vma_brk_const (vma_set_table p vs n) = vma_brk_const p"
  "n < 2 ^ 32 \<Longrightarrow> vma_count_const (vma_set_table p vs n) = n"
  by (auto simp: vma_table_def vma_set_table_def vma_capacity_const_def vma_brk_const_def
      vma_count_const_def unat_of_nat_u32 split: option.splits)

lemma set_table_ptr [simp]:
  "map_option as_vmas_ptr (p_as (vma_set_table p vs n)) = map_option as_vmas_ptr (p_as p)"
  by (auto simp: vma_set_table_def split: option.splits)



text \<open>
  The heap side: the table of an address space is a block of the kernel heap big enough for
  its capacity.
\<close>

definition table_rep :: "process_vm \<Rightarrow> kheap \<Rightarrow> (u32 \<rightharpoonup> u32) \<Rightarrow> bool" where
  "table_rep p h L \<longleftrightarrow> heap_rep h L \<and>
     (case p_as p of None \<Rightarrow> True
      | Some a \<Rightarrow> if as_vmas_ptr a = 0 then as_vma_capacity a = 0
                  else \<exists>sz. L (as_vmas_ptr a) = Some sz \<and> 32 * unat (as_vma_capacity a) \<le> unat sz)"

text \<open>The blocks of everyone else: the live blocks without the table itself.\<close>

definition other_blocks :: "process_vm \<Rightarrow> (u32 \<rightharpoonup> u32) \<Rightarrow> (u32 \<rightharpoonup> u32)" where
  "other_blocks p L = (case p_as p of None \<Rightarrow> L | Some a \<Rightarrow> L(as_vmas_ptr a := None))"

definition vma_inv :: "process_vm \<Rightarrow> kheap \<Rightarrow> (u32 \<rightharpoonup> u32) \<Rightarrow> bool" where
  "vma_inv p h L \<longleftrightarrow> table_ok p \<and> areas_ok (areas p) \<and> (\<exists>L'. table_rep p h L' \<and> other_blocks p L' = L)"



text \<open>
  For more entries than that the loop need not end: the capacity 0x80000000 passes the guard,
  doubles to zero and stays there.
\<close>

lemma vma_grow_diverges:
  assumes "0x80000000 < n"
  shows "vma_grow 0x80000000 n = None"
proof -
  have z: "c \<noteq> 0 \<or> n = 0" if "vma_grow c n = Some y" for c n y
    by (rule vma_grow.raw_induct [OF _ that]) (auto simp: word_gt_0 split: if_splits)
  have wrap: "(0x80000000 * 2 :: u32) = 0" by simp
  have "vma_grow 0x80000000 n = vma_grow (0x80000000 * 2) n"
    using assms by (subst vma_grow.simps) simp
  then have "vma_grow 0x80000000 n = vma_grow 0 n" unfolding wrap .
  moreover have "n \<noteq> 0" using assms by auto
  then have "vma_grow 0 n = None"
    using z [of 0 n] by (cases "vma_grow 0 n") auto
  ultimately show ?thesis by simp
qed




section \<open>Insertion\<close>











section \<open>Rebuilding the table\<close>









lemma slice_simps [simp]:
  "vm_start (vma_slice v s e) = s" "vm_end (vma_slice v s e) = e"
  "vm_flags (vma_slice v s e) = vm_flags v" "vm_kind (vma_slice v s e) = vm_kind v"
  "vm_file_size (vma_slice v s e) = vm_file_size v" "vm_mount_id (vma_slice v s e) = vm_mount_id v"
  "vm_inode_num (vma_slice v s e) = vm_inode_num v"
  "vma_is_file_backed (vma_slice v s e) = vma_is_file_backed v"
  "vm_file_offset (vma_slice v s e) =
     (if vma_is_file_backed v \<and> vm_start v < s then vm_file_offset v + (s - vm_start v) else vm_file_offset v)"
  by (simp_all add: vma_slice_def vma_is_file_backed_def Let_def)


















section \<open>The gap search\<close>

lemma round_up_ge: "x \<le> (x + 4095) div 4096 * (4096 :: nat)"
  by linarith

lemma round_up_least:
  assumes "b mod 4096 = 0" "x \<le> b"
  shows "(x + 4095) div 4096 * 4096 \<le> (b :: nat)"
proof -
  obtain k where k: "b = 4096 * k" using assms(1) by (auto dest: mod_0_imp_dvd)
  with div_le_mono [of "x + 4095" "4096 * k + 4095" 4096] assms(2) show ?thesis by simp
qed

lemma round_down_greatest:
  assumes "b mod 4096 = 0" "b \<le> x"
  shows "b \<le> x div 4096 * (4096 :: nat)"
proof -
  obtain k where k: "b = 4096 * k" using assms(1) by (auto dest: mod_0_imp_dvd)
  with div_le_mono [of "4096 * k" x 4096] assms(2) show ?thesis by simp
qed

lemma unat_vm_page_align_up:
  assumes "unat v \<le> 0xFFFFF000"
  shows "unat (vm_page_align_up v) = (unat v + 4095) div 4096 * 4096"
proof -
  have "\<not> 0xFFFFFFFF - 0xFFF < v" using assms by (simp add: word_less_nat_alt)
  moreover have "unat (v + 0xFFF) = unat v + 4095" using assms by (simp add: unat_u32_add)
  ultimately show ?thesis
    by (simp add: vm_page_align_up_def page_simps minus_mod_eq_div_mult [symmetric])
qed

lemma vm_page_align_up_bounds:
  assumes "unat v \<le> 0xFFFFF000"
  shows "unat v \<le> unat (vm_page_align_up v)" "unat (vm_page_align_up v) mod 4096 = 0"
    "b mod 4096 = 0 \<Longrightarrow> unat v \<le> b \<Longrightarrow> unat (vm_page_align_up v) \<le> b"
  unfolding unat_vm_page_align_up [OF assms] using round_up_ge round_up_least by auto

lemma vm_page_align_up_zero_iff: "vm_page_align_up v = 0 \<longleftrightarrow> v = 0 \<or> 0xFFFFF000 < unat v"
proof (cases "unat v \<le> 0xFFFFF000")
  case True
  have "vm_page_align_up v = 0 \<longleftrightarrow> unat (vm_page_align_up v) = 0" by (simp add: unat_eq_0)
  also have "\<dots> \<longleftrightarrow> unat v = 0"
    unfolding unat_vm_page_align_up [OF True] using round_up_ge [of "unat v"] by auto
  finally show ?thesis using True by (simp add: unat_eq_0)
qed (simp add: vm_page_align_up_def word_less_nat_alt not_le)

lemma vm_page_align_down_bounds:
  "unat (vm_page_align_down v) \<le> unat v" "unat (vm_page_align_down v) mod 4096 = 0"
  "b mod 4096 = 0 \<Longrightarrow> b \<le> unat v \<Longrightarrow> b \<le> unat (vm_page_align_down v)"
proof -
  have u: "unat (vm_page_align_down v) = unat v - unat v mod 4096"
    by (simp add: vm_page_align_down_def page_simps)
  show "unat (vm_page_align_down v) \<le> unat v" "unat (vm_page_align_down v) mod 4096 = 0"
    "b mod 4096 = 0 \<Longrightarrow> b \<le> unat v \<Longrightarrow> b \<le> unat (vm_page_align_down v)"
    unfolding u using round_down_greatest by (auto simp: minus_mod_eq_div_mult)
qed

text \<open>A range of addresses that no area touches.\<close>

definition range_free :: "vm_area list \<Rightarrow> nat \<Rightarrow> nat \<Rightarrow> bool" where
  "range_free vs b e \<longleftrightarrow> (\<forall>v\<in>set vs. e \<le> unat (vm_start v) \<or> unat (vm_end v) \<le> b)"

lemma diff_aligned: "x mod 4096 = 0 \<Longrightarrow> y mod 4096 = 0 \<Longrightarrow> (x - y) mod 4096 = (0 :: nat)"
  by (metis dvd_diff_nat mod_0_imp_dvd mod_eq_0_iff_dvd)

lemma topdown_scan_sound:
  assumes "vma_topdown_scan len low scan_end xs = Some a" "areas_ok (rev xs)"
    "\<forall>v\<in>set xs. unat (vm_end v) \<le> 0xFFFFF000"
  shows "unat low \<le> unat a \<and> unat a + unat len \<le> unat scan_end \<and>
    range_free xs (unat a) (unat a + unat len) \<and>
    (unat scan_end mod 4096 = 0 \<and> unat len mod 4096 = 0 \<longrightarrow> unat a mod 4096 = 0)"
  using assms
proof (induction xs arbitrary: scan_end)
  case Nil
  then have "low < scan_end" "len \<le> scan_end - low" "a = scan_end - len" by (auto split: if_splits)
  then show ?case
    by (auto simp: range_free_def word_less_nat_alt word_le_nat_alt unat_sub diff_aligned)
next
  case (Cons v xs)
  have v: "areas_ok (rev xs)" "\<forall>w\<in>set xs. unat (vm_end w) \<le> unat (vm_start v)"
    "unat (vm_start v) \<le> unat (vm_end v)" "unat (vm_end v) \<le> 0xFFFFF000"
    using Cons.prems by (auto simp: areas_ok_append areas_ok_Cons word_le_nat_alt)
  let ?gap = "if low < vm_end v then vm_page_align_up (vm_end v) else low"
  show ?case
  proof (cases "scan_end \<le> vm_start v")
    case True
    with Cons.prems(1) have "vma_topdown_scan len low scan_end xs = Some a" by simp
    from Cons.IH [OF this v(1)] Cons.prems(3) True show ?thesis
      by (simp add: range_free_def word_le_nat_alt)
  next
    case start: False
    show ?thesis
    proof (cases "?gap < scan_end \<and> len \<le> scan_end - ?gap")
      case True
      with start Cons.prems have a: "a = scan_end - len" by (auto simp: Let_def)
      have g: "unat (vm_end v) \<le> unat ?gap" "unat low \<le> unat ?gap"
        using vm_page_align_up_bounds(1) [OF v(4)] by (auto simp: word_less_nat_alt)
      have le: "unat ?gap < unat scan_end" "unat len \<le> unat scan_end - unat ?gap"
        using True by (auto simp: word_less_nat_alt word_le_nat_alt unat_sub simp del: if_split)
      then have "unat a = unat scan_end - unat len"
        using a by (simp add: unat_sub word_le_nat_alt)
      moreover from this have "unat ?gap \<le> unat a" "unat a + unat len = unat scan_end" using le by simp_all
      ultimately have "unat low \<le> unat a" "unat (vm_end v) \<le> unat a" "unat a + unat len \<le> unat scan_end"
        using g by linarith+
      then show ?thesis
        using v \<open>unat a = unat scan_end - unat len\<close> by (auto simp: range_free_def diff_aligned)
    next
      case False
      with start Cons.prems have "vma_topdown_scan len low (vm_page_align_down (vm_start v)) xs = Some a"
        by (auto simp: Let_def)
      from Cons.IH [OF this v(1)] Cons.prems(3)
      have IH: "unat low \<le> unat a" "unat a + unat len \<le> unat (vm_page_align_down (vm_start v))"
        "range_free xs (unat a) (unat a + unat len)" "unat len mod 4096 = 0 \<Longrightarrow> unat a mod 4096 = 0"
        using vm_page_align_down_bounds(2) by simp_all
      have "unat a + unat len \<le> unat (vm_start v)" "unat (vm_start v) \<le> unat scan_end"
        using IH(2) vm_page_align_down_bounds(1) [of "vm_start v"] start by (auto simp: word_le_nat_alt)
      with IH show ?thesis by (simp add: range_free_def)
    qed
  qed
qed

lemma topdown_scan_complete:
  assumes "areas_ok (rev xs)" "\<forall>v\<in>set xs. unat (vm_end v) \<le> 0xFFFFF000"
    and "b mod 4096 = 0" "unat len mod 4096 = 0" "0 < unat len" "unat low \<le> b" "b + unat len \<le> unat scan_end"
    "range_free xs b (b + unat len)"
  shows "\<exists>a. vma_topdown_scan len low scan_end xs = Some a \<and> b \<le> unat a"
  using assms
proof (induction xs arbitrary: scan_end)
  case Nil
  then show ?case by (auto simp: word_less_nat_alt word_le_nat_alt unat_sub)
next
  case (Cons v xs)
  have v: "areas_ok (rev xs)" "unat (vm_end v) \<le> 0xFFFFF000" "range_free xs b (b + unat len)"
    using Cons.prems by (auto simp: areas_ok_append range_free_def)
  let ?gap = "if low < vm_end v then vm_page_align_up (vm_end v) else low"
  have found: "b \<le> unat (scan_end - len)"
    using Cons.prems by (simp add: unat_sub word_le_nat_alt)
  show ?case
  proof (cases "scan_end \<le> vm_start v")
    case True
    with Cons v show ?thesis by auto
  next
    case start: False
    show ?thesis
    proof (cases "?gap < scan_end \<and> len \<le> scan_end - ?gap")
      case True
      with start found show ?thesis by (auto simp: Let_def)
    next
      case False
      have "\<not> unat (vm_end v) \<le> b"
      proof
        assume "unat (vm_end v) \<le> b"
        then have "unat ?gap \<le> b"
          using vm_page_align_up_bounds(3) [OF v(2) Cons.prems(3)] Cons.prems(6) by auto
        with Cons.prems False show False
          by (simp add: word_less_nat_alt word_le_nat_alt unat_sub del: if_split)
      qed
      with Cons.prems have "b + unat len \<le> unat (vm_start v)" by (auto simp: range_free_def)
      moreover have "(b + unat len) mod 4096 = 0"
        using Cons.prems(3,4) by (simp add: mod_add_eq [symmetric])
      ultimately have "b + unat len \<le> unat (vm_page_align_down (vm_start v))"
        by (simp add: vm_page_align_down_bounds(3))
      from Cons.IH [OF v(1) _ Cons.prems(3-6) this v(3)] Cons.prems(2) start False found
      show ?thesis by (simp add: Let_def)
    qed
  qed
qed

text \<open>The window the search is confined to: above the break, a guard gap below the stack.\<close>

definition gap_low :: "process_vm \<Rightarrow> nat" where
  "gap_low p = max 0x40000000 (unat (vm_page_align_up (vma_brk_const p)))"

definition gap_high :: "process_vm \<Rightarrow> nat \<Rightarrow> nat" where
  "gap_high p si =
     (let s = unat (vm_start (vma_table p ! si)) in if 0x100000 < s then s - 0x100000 else s)"

definition free_gap :: "process_vm \<Rightarrow> nat \<Rightarrow> nat \<Rightarrow> nat \<Rightarrow> bool" where
  "free_gap p si len b \<longleftrightarrow> gap_low p \<le> b \<and> b + len \<le> gap_high p si \<and> b mod 4096 = 0 \<and>
     range_free (areas p) b (b + len)"

lemma vma_range_is_free_iff:
  assumes "unat b + unat len < 2 ^ 32" "0 < unat len"
  shows "vma_range_is_free p b (b + len) \<longleftrightarrow> range_free (areas p) (unat b) (unat b + unat len)"
proof -
  have "unat (b + len) = unat b + unat len" using assms by (simp add: unat_u32_add)
  then show ?thesis
    using assms(2) by (auto simp: vma_range_is_free_def range_free_def areas_def list_ex_iff
        vma_overlaps_def word_less_nat_alt not_less)
qed

lemma page_aligned_and: "hint AND 0xFFF = 0 \<longleftrightarrow> unat (hint :: u32) mod 4096 = 0"
proof -
  have "hint AND 0xFFF = 0 \<longleftrightarrow> unat (hint AND 0xFFF) = 0" by (simp only: unat_eq_0)
  then show ?thesis by (simp add: page_simps)
qed

lemma gap_search_cases:
  assumes ok: "areas_ok (areas p)" and top: "\<forall>v\<in>set (areas p). unat (vm_end v) \<le> 0xFFFFF000"
    and len: "0 < unat len" "unat len mod 4096 = 0" "len \<noteq> 0"
    and low: "unat low = gap_low p" and high: "unat high = gap_high p si" "unat high mod 4096 = 0"
  shows "case if high \<le> low \<or> high - low < len then None
       else if hint \<noteq> 0 \<and> hint AND 0xFFF = 0 \<and> low \<le> hint \<and> hint < hint + len \<and>
         hint + len \<le> high \<and> vma_range_is_free p hint (hint + len)
       then Some hint else vma_topdown_scan len low high (rev (areas p)) of
      Some a \<Rightarrow> free_gap p si (unat len) (unat a) \<and>
        (a = hint \<or> (\<forall>b. free_gap p si (unat len) b \<longrightarrow> b \<le> unat a))
    | None \<Rightarrow> \<not> (\<exists>b. free_gap p si (unat len) b)"
    (is "case if ?small then None else if ?hint then _ else ?scan of Some a \<Rightarrow> ?S a | None \<Rightarrow> ?N")
proof -
  have ok': "areas_ok (rev (rev (areas p)))" "\<forall>v\<in>set (rev (areas p)). unat (vm_end v) \<le> 0xFFFFF000"
    using ok top by simp_all
  have rf: "range_free (rev (areas p)) b e = range_free (areas p) b e" for b e by (simp add: range_free_def)
  have "?N" if "?small"
    using that len low high by (auto simp: free_gap_def word_le_nat_alt word_less_nat_alt unat_sub)
  moreover have "?S hint" if "?hint"
  proof -
    have u: "unat (hint + len) = unat hint + unat len"
      using that by (metis less_imp_le unat_plus_simple)
    then have "unat hint + unat len < 2 ^ 32" using unat_u32_bound [of "hint + len"] by simp
    then show ?thesis
      using that u low high vma_range_is_free_iff [OF _ len(1)] page_aligned_and [of hint]
      by (simp add: free_gap_def word_le_nat_alt)
  qed
  moreover have "?S a" if "?scan = Some a" for a
    using topdown_scan_sound [OF that ok'] topdown_scan_complete [OF ok' _ len(2,1), of _ low high] that
      low high len rf by (fastforce simp: free_gap_def)
  moreover have "?N" if "?scan = None"
    using topdown_scan_complete [OF ok' _ len(2,1), of _ low high] that low high rf
    by (fastforce simp: free_gap_def)
  ultimately show ?thesis by (cases ?scan) auto
qed

lemma vma_find_topdown_gap_ok:
  assumes ok: "areas_ok (areas p)" and top: "\<forall>v\<in>set (areas p). unat (vm_end v) \<le> 0xFFFFF000"
    and stack: "vma_find_kind p VMA_KIND_STACK = Some si" "unat (vm_start (vma_table p ! si)) mod 4096 = 0"
    and n: "nbytes \<noteq> 0" "unat nbytes \<le> 0xFFFFF000"
  shows "case vma_find_topdown_gap p hint nbytes of
      Some a \<Rightarrow> free_gap p si (unat (vm_page_align_up nbytes)) (unat a) \<and>
        (a = hint \<or> (\<forall>b. free_gap p si (unat (vm_page_align_up nbytes)) b \<longrightarrow> b \<le> unat a))
    | None \<Rightarrow> \<not> (\<exists>b. free_gap p si (unat (vm_page_align_up nbytes)) b)"
proof -
  define len where "len = vm_page_align_up nbytes"
  define low where "low = (if vm_page_align_up (vma_brk_const p) < VM_MMAP_MIN then VM_MMAP_MIN
    else vm_page_align_up (vma_brk_const p))"
  define high where "high = (if VM_STACK_GUARD_GAP < vm_start (vma_table p ! si)
    then vm_start (vma_table p ! si) - VM_STACK_GUARD_GAP else vm_start (vma_table p ! si))"
  have len: "0 < unat len" "unat len mod 4096 = 0" "len \<noteq> 0"
    using vm_page_align_up_zero_iff [of nbytes] vm_page_align_up_bounds(2) [OF n(2)] n
    by (auto simp: len_def unat_gt_0)
  have low: "unat low = gap_low p"
    by (auto simp: low_def gap_low_def vma_consts word_less_nat_alt)
  have high: "unat high = gap_high p si" "unat high mod 4096 = 0"
    using stack(2) by (auto simp: high_def gap_high_def vma_consts word_less_nat_alt unat_sub Let_def diff_aligned
        word_le_nat_alt)
  let ?hint = "hint \<noteq> 0 \<and> hint AND 0xFFF = 0 \<and> low \<le> hint \<and> hint < hint + len \<and>
     hint + len \<le> high \<and> vma_range_is_free p hint (hint + len)"
  have f: "vma_find_topdown_gap p hint nbytes =
      (if high \<le> low \<or> high - low < len then None
       else if ?hint then Some hint else vma_topdown_scan len low high (rev (areas p)))"
    using n(1) len(3) stack(1)
    by (simp add: vma_find_topdown_gap_def Let_def areas_def len_def low_def high_def del: if_split)
  show ?thesis
    unfolding len_def [symmetric] f using gap_search_cases [OF ok top len low high] by simp
qed

section \<open>Properties\<close>

text \<open>A process with an anonymous mapping and a stack, on the boot heap.\<close>

definition ex_map :: vm_area where
  "ex_map = zero_area\<lparr>vm_start := 0x40000000, vm_end := 0x40003000, vm_flags := 0x1B\<rparr>"

definition ex_stack :: vm_area where
  "ex_stack = zero_area\<lparr>vm_start := 0xBFFF0000, vm_end := 0xC0000000, vm_flags := 0x3B, vm_kind := VMA_KIND_STACK\<rparr>"

definition ex_proc :: process_vm where
  "ex_proc = \<lparr>p_as = None, p_vmas = ex_map # ex_stack # replicate 14 zero_area, p_vma_count = 2, p_brk = 0x8000000\<rparr>"

lemma ex_proc_simps [simp]:
  "areas ex_proc = [ex_map, ex_stack]" "vma_count_const ex_proc = 2" "vma_capacity_const ex_proc = 16"
  "vma_table ex_proc = ex_map # ex_stack # replicate 14 zero_area" "vma_brk_const ex_proc = 0x8000000"
  by (simp_all add: ex_proc_def areas_def vma_count_const_def vma_table_def vma_capacity_const_def
      vma_consts vma_brk_const_def)

lemma ex_proc_inv: "vma_inv ex_proc boot_heap (seg_live boot_segs)"
proof -
  have "heap_rep boot_heap (seg_live boot_segs)"
    using boot_heap_wf by (auto simp: heap_rep_def)
  moreover have "p_as ex_proc = None" by (simp add: ex_proc_def)
  ultimately show ?thesis
    by (auto simp: vma_inv_def table_ok_def table_rep_def other_blocks_def areas_ok_Cons ex_map_def
        ex_stack_def zero_area_def)
qed

lemma ex_proc_stack:
  "vma_find_kind ex_proc VMA_KIND_STACK = Some 1" "vma_table ex_proc ! 1 = ex_stack"
  by (simp_all add: vma_find_kind_def scan_first_def upt_rec ex_map_def ex_stack_def zero_area_def vma_consts)








text \<open>
  C13: The top-down search is exact.  In a well-formed table with a page-aligned stack, a result is
  a page-aligned range in the window between the break and the guard gap below the stack that
  no area touches, and it is the hint or the highest such range; no result means there is no
  such range.
\<close>

theorem vma_topdown_gap_exact:
  assumes "vma_inv p h L" "\<forall>v\<in>set (areas p). unat (vm_end v) \<le> 0xFFFFF000"
    and "vma_find_kind p VMA_KIND_STACK = Some si" "unat (vm_start (vma_table p ! si)) mod 4096 = 0"
    and "nbytes \<noteq> 0" "unat nbytes \<le> 0xFFFFF000"
  shows "case vma_find_topdown_gap p hint nbytes of
      Some a \<Rightarrow> free_gap p si (unat (vm_page_align_up nbytes)) (unat a) \<and>
        (a = hint \<or> (\<forall>b. free_gap p si (unat (vm_page_align_up nbytes)) b \<longrightarrow> b \<le> unat a))
    | None \<Rightarrow> \<not> (\<exists>b. free_gap p si (unat (vm_page_align_up nbytes)) b)"
  using vma_find_topdown_gap_ok [OF _ assms(2-6)] assms(1) by (simp add: vma_inv_def)

theorem vma_topdown_gap_exact_witness:
  "\<exists>a. vma_find_topdown_gap ex_proc 0 0x1800 = Some a \<and> free_gap ex_proc 1 0x2000 (unat a)"
proof -
  have l: "unat (vm_page_align_up 0x1800) = 0x2000" by (simp add: unat_vm_page_align_up)
  have "free_gap ex_proc 1 0x2000 0x50000000"
    by (simp add: free_gap_def gap_low_def gap_high_def range_free_def ex_map_def ex_stack_def zero_area_def
        unat_vm_page_align_up)
  then show ?thesis
    using vma_topdown_gap_exact [OF ex_proc_inv _ ex_proc_stack(1), of "0x1800" 0] l
    by (auto simp: ex_proc_stack(2) ex_map_def ex_stack_def zero_area_def split: option.splits)
qed



end
