(* ===== verification/Commit.thy ===== *)
theory Commit
  imports Vma Pmm
begin

text \<open>
  Commit accounting: \<^verbatim>\<open>kernel/mm/commit.c\<close>.  A process reserves pages in its address space
  against the free pages of the frame allocator; \<open>True\<close> is the result 0 and \<open>False\<close> is -1.
\<close>

definition vm_commit_pages_for_bytes :: "u32 \<Rightarrow> u32 option" where
  "vm_commit_pages_for_bytes bytes =
     (if bytes = 0 then Some 0
      else if 0xFFFFFFFF - (PAGE_SIZE - 1) < bytes then None
      else Some ((bytes + PAGE_SIZE - 1) div PAGE_SIZE))"

definition vm_commit_reserve :: "process_vm \<Rightarrow> pmm_core_state \<Rightarrow> u32 \<Rightarrow> bool \<times> process_vm" where
  "vm_commit_reserve p g_pmm bytes =
     (case p_as p of
        None \<Rightarrow> (False, p)
      | Some a \<Rightarrow>
          (case vm_commit_pages_for_bytes bytes of
             None \<Rightarrow> (False, p)
           | Some pages \<Rightarrow>
               if pages = 0 then (True, p)
               else if 0xFFFFFFFF - pages < as_committed_pages a then (False, p)
               else if pmm_core_free_page_count g_pmm < as_committed_pages a + pages then (False, p)
               else (True, p\<lparr>p_as := Some (a\<lparr>as_committed_pages := as_committed_pages a + pages\<rparr>)\<rparr>)))"

definition vm_commit_release :: "process_vm \<Rightarrow> u32 \<Rightarrow> process_vm" where
  "vm_commit_release p bytes =
     (case p_as p of
        None \<Rightarrow> p
      | Some a \<Rightarrow>
          (case vm_commit_pages_for_bytes bytes of
             None \<Rightarrow> p
           | Some pages \<Rightarrow>
               p\<lparr>p_as := Some (a\<lparr>as_committed_pages :=
                   (if as_committed_pages a < pages then 0 else as_committed_pages a - pages)\<rparr>)\<rparr>))"

lemma commit_pages:
  "vm_commit_pages_for_bytes bytes = None \<longleftrightarrow> 0xFFFFF000 < unat bytes"
  "vm_commit_pages_for_bytes bytes = Some n \<Longrightarrow> unat n = (unat bytes + 4095) div 4096"
proof -
  have c: "0xFFFFFFFF - (PAGE_SIZE - 1) = 0xFFFFF000" by (simp add: PAGE_SIZE_def)
  show "vm_commit_pages_for_bytes bytes = None \<longleftrightarrow> 0xFFFFF000 < unat bytes"
    by (auto simp: vm_commit_pages_for_bytes_def c word_less_nat_alt)
  assume n: "vm_commit_pages_for_bytes bytes = Some n"
  show "unat n = (unat bytes + 4095) div 4096"
  proof (cases "bytes = 0")
    case False
    with n have b: "unat bytes \<le> 0xFFFFF000" and e: "n = (bytes + PAGE_SIZE - 1) div PAGE_SIZE"
      by (auto simp: vm_commit_pages_for_bytes_def c word_less_nat_alt split: if_splits)
    have "unat (4095 + bytes) = unat bytes + 4095" using b by (simp add: unat_u32_add)
    then show ?thesis unfolding e by (simp add: PAGE_SIZE_def unat_div_distrib)
  qed (use n in \<open>simp add: vm_commit_pages_for_bytes_def\<close>)
qed

lemma commit_pages_ex:
  assumes "unat bytes \<le> 0xFFFFF000"
  obtains k where "vm_commit_pages_for_bytes bytes = Some k" "unat k = (unat bytes + 4095) div 4096"
proof (cases "vm_commit_pages_for_bytes bytes")
  case None
  with commit_pages(1) [of bytes] assms show ?thesis by simp
next
  case (Some k)
  with commit_pages(2) [OF Some] that show ?thesis by blast
qed

definition committed :: "process_vm \<Rightarrow> nat" where
  "committed p = (case p_as p of None \<Rightarrow> 0 | Some a \<Rightarrow> unat (as_committed_pages a))"

lemma vm_commit_reserve_ok:
  assumes "p_as p = Some a" "unat bytes \<le> 0xFFFFF000"
  defines "n \<equiv> (unat bytes + 4095) div 4096"
  shows "fst (vm_commit_reserve p g bytes) \<longleftrightarrow>
      n = 0 \<or> committed p + n \<le> unat (pmm_core_free_page_count g)"
    "committed (snd (vm_commit_reserve p g bytes)) =
       committed p + (if fst (vm_commit_reserve p g bytes) then n else 0)"
    "\<not> fst (vm_commit_reserve p g bytes) \<Longrightarrow> snd (vm_commit_reserve p g bytes) = p"
proof -
  obtain k where k: "vm_commit_pages_for_bytes bytes = Some k" "unat k = n"
    unfolding n_def using commit_pages_ex [OF assms(2)] .
  have z: "k = 0 \<longleftrightarrow> n = 0" using k(2) by (metis unat_eq_zero)
  let ?c = "as_committed_pages a" and ?f = "pmm_core_free_page_count g"
  have "k \<le> 0xFFFFFFFF" using unat_u32_bound [of k] by (simp add: word_le_nat_alt)
  then have "unat (0xFFFFFFFF - k) = 4294967295 - unat k" by (simp add: unat_sub)
  then have w: "0xFFFFFFFF - k < ?c \<longleftrightarrow> 4294967296 \<le> unat ?c + unat k"
    unfolding word_less_nat_alt using unat_u32_bound [of k] by linarith
  have cond: "0xFFFFFFFF - k < ?c \<or> ?f < ?c + k \<longleftrightarrow> unat ?f < committed p + n"
  proof (cases "0xFFFFFFFF - k < ?c")
    case True
    with w have "unat ?f < unat ?c + unat k" using unat_u32_bound [of ?f] by linarith
    with True k(2) assms(1) show ?thesis by (simp add: committed_def)
  next
    case False
    with w have "unat (?c + k) = unat ?c + unat k" by (simp add: unat_u32_add)
    with False k(2) assms(1) show ?thesis by (simp add: committed_def word_less_nat_alt)
  qed
  have e: "vm_commit_reserve p g bytes =
      (if n = 0 then (True, p) else if unat ?f < committed p + n then (False, p)
       else (True, p\<lparr>p_as := Some (a\<lparr>as_committed_pages := ?c + k\<rparr>)\<rparr>))"
    using assms(1) k(1) z cond by (auto simp: vm_commit_reserve_def)
  have sum: "unat (?c + k) = committed p + n" if "\<not> unat ?f < committed p + n"
    using that cond w k(2) assms(1) by (simp add: committed_def unat_u32_add)
  show "fst (vm_commit_reserve p g bytes) \<longleftrightarrow> n = 0 \<or> committed p + n \<le> unat ?f"
    "\<not> fst (vm_commit_reserve p g bytes) \<Longrightarrow> snd (vm_commit_reserve p g bytes) = p"
    unfolding e by (auto split: if_splits)
  show "committed (snd (vm_commit_reserve p g bytes)) =
       committed p + (if fst (vm_commit_reserve p g bytes) then n else 0)"
    unfolding e using sum by (simp add: committed_def [of "p\<lparr>p_as := _\<rparr>"])
qed

lemma vm_commit_release_ok:
  assumes "p_as p = Some a" "unat bytes \<le> 0xFFFFF000"
  shows "committed (vm_commit_release p bytes) = committed p - (unat bytes + 4095) div 4096"
proof -
  obtain k where k: "vm_commit_pages_for_bytes bytes = Some k" "unat k = (unat bytes + 4095) div 4096"
    using commit_pages_ex [OF assms(2)] .
  then show ?thesis
    using assms by (auto simp: vm_commit_release_def committed_def word_less_nat_alt unat_sub word_le_nat_alt)
qed

text \<open>
  C15: A reservation succeeds exactly when the pages already committed by the address space plus
  the rounded-up request fit in the free pages (an empty request always does), then charges
  exactly that many pages; a failed one changes nothing, and releasing the same amount restores
  the charge.
\<close>

theorem vm_commit_exact:
  assumes "p_as p = Some a" "unat bytes \<le> 0xFFFFF000" "vm_commit_reserve p g bytes = (r, p')"
  shows "(r \<longleftrightarrow> bytes = 0 \<or> committed p + (unat bytes + 4095) div 4096 \<le> unat (pmm_core_free_page_count g)) \<and>
    (if r then committed p' = committed p + (unat bytes + 4095) div 4096 \<and>
       committed (vm_commit_release p' bytes) = committed p
     else p' = p)"
proof -
  note r = vm_commit_reserve_ok [OF assms(1,2), of g]
  have z: "(unat bytes + 4095) div 4096 = 0 \<longleftrightarrow> bytes = 0" by (auto simp: unat_eq_0 [symmetric] simp del: unat_eq_0)
  have "\<exists>a'. p_as p' = Some a'"
    using assms(1,3) by (auto simp: vm_commit_reserve_def split: option.splits if_splits)
  with vm_commit_release_ok [of p' _ bytes] assms(2,3) r z show ?thesis by auto
qed

definition ex_commit :: process_vm where
  "ex_commit = \<lparr>p_as = Some \<lparr>as_vmas_ptr = 0, as_vmas = [], as_vma_count = 0, as_vma_capacity = 0,
     as_brk = 0, as_committed_pages = 1\<rparr>, p_vmas = [], p_vma_count = 0, p_brk = 0\<rparr>"

theorem vm_commit_exact_witness:
  "fst (vm_commit_reserve ex_commit pmm_example 0x800) \<and> \<not> fst (vm_commit_reserve ex_commit pmm_example 0x2000)"
proof -
  have r: "page_refs pmm_example 0 = 0xFF" "page_refs pmm_example 1 = 1"
    "page_refs pmm_example 2 = 0" "page_refs pmm_example 3 = 0"
    by (simp_all add: page_refs_def pmm_example_def)
  have "p < 4 \<Longrightarrow> p = 0 \<or> p = 1 \<or> p = 2 \<or> p = 3" for p :: nat by linarith
  then have "p < 4 \<and> page_refs pmm_example p = 0 \<longleftrightarrow> p = 2 \<or> p = 3" for p
    using r by (cases "p = 0 \<or> p = 1") auto
  then have "{p. p < 4 \<and> page_refs pmm_example p = 0} = {2, 3}" by blast
  then have f: "unat (pmm_core_free_page_count pmm_example) = 2"
    using free_page_count_refs [OF pmm_example_wf] by (simp add: pmm_example_def)
  have a: "p_as ex_commit = Some (the (p_as ex_commit))" "committed ex_commit = 1"
    by (simp_all add: ex_commit_def committed_def)
  show ?thesis
    using vm_commit_exact [OF a(1) _ prod.collapse [symmetric], where bytes = "0x800" and g = pmm_example]
      vm_commit_exact [OF a(1) _ prod.collapse [symmetric], where bytes = "0x2000" and g = pmm_example] f a(2) by simp
qed

end
