(* ===== verification/Kstring.thy ===== *)
theory Kstring
  imports Drunix_Prelude
begin

text \<open>
  The kernel's memory and string routines \<^verbatim>\<open>kernel/lib/kstring.c\<close> over a flat byte memory of
  32-bit addresses, with the word-at-a-time paths the code takes on aligned pointers.  A string
  loop that meets no terminator does not return, which is \<open>None\<close>.
\<close>

type_synonym mem = "u32 \<Rightarrow> u8"

section \<open>Memory\<close>

definition load32 :: "mem \<Rightarrow> u32 \<Rightarrow> u32" where
  "load32 m a = ucast (m a) OR push_bit 8 (ucast (m (a + 1))) OR push_bit 16 (ucast (m (a + 2)))
     OR push_bit 24 (ucast (m (a + 3)))"

definition store32 :: "mem \<Rightarrow> u32 \<Rightarrow> u32 \<Rightarrow> mem" where
  "store32 m a v = m(a := ucast v, a + 1 := ucast (drop_bit 8 v), a + 2 := ucast (drop_bit 16 v),
     a + 3 := ucast (drop_bit 24 v))"

fun copy_bytes :: "mem \<Rightarrow> u32 \<Rightarrow> u32 \<Rightarrow> nat \<Rightarrow> mem" where
  "copy_bytes m d s 0 = m"
| "copy_bytes m d s (Suc n) = copy_bytes (m(d := m s)) (d + 1) (s + 1) n"

function copy_words :: "mem \<Rightarrow> u32 \<Rightarrow> u32 \<Rightarrow> nat \<Rightarrow> mem \<times> u32 \<times> u32 \<times> nat" where
  "copy_words m d s n =
     (if 4 \<le> n then copy_words (store32 m d (load32 m s)) (d + 4) (s + 4) (n - 4) else (m, d, s, n))"
  by pat_completeness auto
termination by (relation "measure (\<lambda>(m, d, s, n). n)") auto

declare copy_words.simps [simp del]

definition copy_forward :: "mem \<Rightarrow> u32 \<Rightarrow> u32 \<Rightarrow> nat \<Rightarrow> mem" where
  "copy_forward m d s n =
     (let (m1, d1, s1, n1) = (if (d OR s) AND 3 = 0 then copy_words m d s n else (m, d, s, n))
      in copy_bytes m1 d1 s1 n1)"

fun copy_bytes_back :: "mem \<Rightarrow> u32 \<Rightarrow> u32 \<Rightarrow> nat \<Rightarrow> mem" where
  "copy_bytes_back m d s 0 = m"
| "copy_bytes_back m d s (Suc n) = copy_bytes_back (m(d - 1 := m (s - 1))) (d - 1) (s - 1) n"

function copy_words_back :: "mem \<Rightarrow> u32 \<Rightarrow> u32 \<Rightarrow> nat \<Rightarrow> mem \<times> u32 \<times> u32 \<times> nat" where
  "copy_words_back m d s n =
     (if 4 \<le> n then copy_words_back (store32 m (d - 4) (load32 m (s - 4))) (d - 4) (s - 4) (n - 4)
      else (m, d, s, n))"
  by pat_completeness auto
termination by (relation "measure (\<lambda>(m, d, s, n). n)") auto

declare copy_words_back.simps [simp del]

definition k_memcpy :: "mem \<Rightarrow> u32 \<Rightarrow> u32 \<Rightarrow> u32 \<Rightarrow> mem" where
  "k_memcpy m dst src n = copy_forward m dst src (unat n)"

fun k_memset32 :: "mem \<Rightarrow> u32 \<Rightarrow> u32 \<Rightarrow> nat \<Rightarrow> mem" where
  "k_memset32 m p v 0 = m"
| "k_memset32 m p v (Suc n) = k_memset32 (store32 m p v) (p + 4) v n"

fun set_bytes :: "mem \<Rightarrow> u32 \<Rightarrow> u8 \<Rightarrow> nat \<Rightarrow> mem" where
  "set_bytes m p c 0 = m"
| "set_bytes m p c (Suc n) = set_bytes (m(p := c)) (p + 1) c n"

text \<open>The leading loop of \<open>k_memset\<close>: bytes until the pointer is aligned.\<close>

fun set_until_aligned :: "mem \<Rightarrow> u32 \<Rightarrow> u8 \<Rightarrow> nat \<Rightarrow> mem \<times> u32 \<times> nat" where
  "set_until_aligned m p c 0 = (m, p, 0)"
| "set_until_aligned m p c (Suc n) =
     (if p AND 3 \<noteq> 0 then set_until_aligned (m(p := c)) (p + 1) c n else (m, p, Suc n))"

definition k_memset :: "mem \<Rightarrow> u32 \<Rightarrow> u32 \<Rightarrow> u32 \<Rightarrow> mem" where
  "k_memset m s c n =
     (let b = (ucast c :: u8);
          (m1, p1, n1) = set_until_aligned m s b (unat n);
          pat0 = (ucast b :: u32);
          pat1 = pat0 OR push_bit 8 pat0;
          pat = pat1 OR push_bit 16 pat1;
          words = n1 div 4;
          (m2, p2, n2) = (if 4 \<le> n1 then (k_memset32 m1 p1 pat words, p1 + of_nat words * 4, n1 - words * 4)
                          else (m1, p1, n1))
      in set_bytes m2 p2 b n2)"

definition k_memmove :: "mem \<Rightarrow> u32 \<Rightarrow> u32 \<Rightarrow> u32 \<Rightarrow> mem" where
  "k_memmove m dst src n =
     (if dst < src \<or> src + n \<le> dst then copy_forward m dst src (unat n)
      else let d = dst + n; s = src + n;
               (m1, d1, s1, n1) = (if (d OR s) AND 3 = 0 then copy_words_back m d s (unat n)
                                   else (m, d, s, unat n))
           in copy_bytes_back m1 d1 s1 n1)"

fun memcmp_loop :: "mem \<Rightarrow> u32 \<Rightarrow> u32 \<Rightarrow> nat \<Rightarrow> int" where
  "memcmp_loop m a b 0 = 0"
| "memcmp_loop m a b (Suc n) =
     (if m a \<noteq> m b then uint (m a) - uint (m b) else memcmp_loop m (a + 1) (b + 1) n)"

definition k_memcmp :: "mem \<Rightarrow> u32 \<Rightarrow> u32 \<Rightarrow> u32 \<Rightarrow> int" where
  "k_memcmp m a b n = memcmp_loop m a b (unat n)"

section \<open>Strings\<close>

partial_function (option) strlen_loop :: "mem \<Rightarrow> u32 \<Rightarrow> u32 \<Rightarrow> u32 option" where
  "strlen_loop m s n = (if m s = 0 then Some n else strlen_loop m (s + 1) (n + 1))"

definition k_strlen :: "mem \<Rightarrow> u32 \<Rightarrow> u32 option" where
  "k_strlen m s = strlen_loop m s 0"

fun strnlen_loop :: "mem \<Rightarrow> u32 \<Rightarrow> nat \<Rightarrow> nat" where
  "strnlen_loop m s 0 = 0"
| "strnlen_loop m s (Suc k) = (if m s = 0 then 0 else Suc (strnlen_loop m (s + 1) k))"

definition k_strnlen :: "mem \<Rightarrow> u32 \<Rightarrow> u32 \<Rightarrow> u32" where
  "k_strnlen m s lim = of_nat (strnlen_loop m s (unat lim))"

partial_function (option) strcpy_loop :: "mem \<Rightarrow> u32 \<Rightarrow> u32 \<Rightarrow> mem option" where
  "strcpy_loop m d s =
     (let m1 = m(d := m s) in if m s = 0 then Some m1 else strcpy_loop m1 (d + 1) (s + 1))"

definition k_strcpy :: "mem \<Rightarrow> u32 \<Rightarrow> u32 \<Rightarrow> mem option" where
  "k_strcpy m dst src = strcpy_loop m dst src"

fun strncpy_loop :: "mem \<Rightarrow> u32 \<Rightarrow> u32 \<Rightarrow> nat \<Rightarrow> mem" where
  "strncpy_loop m d s 0 = m"
| "strncpy_loop m d s (Suc n) =
     (let m1 = m(d := m s) in strncpy_loop m1 (d + 1) (if m s \<noteq> 0 then s + 1 else s) n)"

definition k_strncpy :: "mem \<Rightarrow> u32 \<Rightarrow> u32 \<Rightarrow> u32 \<Rightarrow> mem" where
  "k_strncpy m dst src n = strncpy_loop m dst src (unat n)"

partial_function (option) str_end :: "mem \<Rightarrow> u32 \<Rightarrow> u32 option" where
  "str_end m d = (if m d = 0 then Some d else str_end m (d + 1))"

definition k_strcat :: "mem \<Rightarrow> u32 \<Rightarrow> u32 \<Rightarrow> mem option" where
  "k_strcat m dst src = do { d \<leftarrow> str_end m dst; strcpy_loop m d src }"

fun strncat_loop :: "mem \<Rightarrow> u32 \<Rightarrow> u32 \<Rightarrow> nat \<Rightarrow> mem" where
  "strncat_loop m d s 0 = m(d := 0)"
| "strncat_loop m d s (Suc n) =
     (let m1 = m(d := m s) in if m s = 0 then m1(d := 0) else strncat_loop m1 (d + 1) (s + 1) n)"

definition k_strncat :: "mem \<Rightarrow> u32 \<Rightarrow> u32 \<Rightarrow> u32 \<Rightarrow> mem option" where
  "k_strncat m dst src n = do { d \<leftarrow> str_end m dst; Some (strncat_loop m d src (unat n)) }"

partial_function (option) k_strcmp :: "mem \<Rightarrow> u32 \<Rightarrow> u32 \<Rightarrow> int option" where
  "k_strcmp m a b =
     (if m a \<noteq> 0 \<and> m a = m b then k_strcmp m (a + 1) (b + 1) else Some (uint (m a) - uint (m b)))"

fun strncmp_loop :: "mem \<Rightarrow> u32 \<Rightarrow> u32 \<Rightarrow> nat \<Rightarrow> int" where
  "strncmp_loop m a b 0 = 0"
| "strncmp_loop m a b (Suc n) =
     (if m a = 0 \<or> m a \<noteq> m b then uint (m a) - uint (m b) else strncmp_loop m (a + 1) (b + 1) n)"

definition k_strncmp :: "mem \<Rightarrow> u32 \<Rightarrow> u32 \<Rightarrow> u32 \<Rightarrow> int" where
  "k_strncmp m a b n = strncmp_loop m a b (unat n)"

text \<open>The searches return the address found or 0.\<close>

partial_function (option) strchr_loop :: "mem \<Rightarrow> u32 \<Rightarrow> u8 \<Rightarrow> u32 option" where
  "strchr_loop m s c = (if m s = c then Some s else if m s \<noteq> 0 then strchr_loop m (s + 1) c else Some 0)"

definition k_strchr :: "mem \<Rightarrow> u32 \<Rightarrow> u32 \<Rightarrow> u32 option" where
  "k_strchr m s c = strchr_loop m s (ucast c)"

partial_function (option) strrchr_loop :: "mem \<Rightarrow> u32 \<Rightarrow> u8 \<Rightarrow> u32 \<Rightarrow> u32 option" where
  "strrchr_loop m s c lst =
     (let lst1 = (if m s = c then s else lst)
      in if m s \<noteq> 0 then strrchr_loop m (s + 1) c lst1 else Some lst1)"

definition k_strrchr :: "mem \<Rightarrow> u32 \<Rightarrow> u32 \<Rightarrow> u32 option" where
  "k_strrchr m s c = strrchr_loop m s (ucast c) 0"

partial_function (option) strstr_match :: "mem \<Rightarrow> u32 \<Rightarrow> u32 \<Rightarrow> u32 option" where
  "strstr_match m h n =
     (if m h \<noteq> 0 \<and> m n \<noteq> 0 \<and> m h = m n then strstr_match m (h + 1) (n + 1) else Some n)"

partial_function (option) strstr_loop :: "mem \<Rightarrow> u32 \<Rightarrow> u32 \<Rightarrow> u32 option" where
  "strstr_loop m h needle =
     (if m h \<noteq> 0 then do {
        n \<leftarrow> strstr_match m h needle;
        if m n = 0 then Some h else strstr_loop m (h + 1) needle
      } else Some 0)"

definition k_strstr :: "mem \<Rightarrow> u32 \<Rightarrow> u32 \<Rightarrow> u32 option" where
  "k_strstr m haystack needle = (if m needle = 0 then Some haystack else strstr_loop m haystack needle)"

section \<open>Byte-wise meaning of the copies\<close>

text \<open>What copying \<open>n\<close> bytes means, whatever the overlap: the bytes come from the old memory.\<close>

definition copied :: "mem \<Rightarrow> u32 \<Rightarrow> u32 \<Rightarrow> nat \<Rightarrow> mem" where
  "copied m d s n = (\<lambda>a. if unat (a - d) < n then m (s + (a - d)) else m a)"

definition filled :: "mem \<Rightarrow> u32 \<Rightarrow> u8 \<Rightarrow> nat \<Rightarrow> mem" where
  "filled m p c n = (\<lambda>a. if unat (a - p) < n then c else m a)"

lemma load32_bytes:
  "ucast (load32 m a) = m a" "ucast (drop_bit 8 (load32 m a)) = m (a + 1)"
  "ucast (drop_bit 16 (load32 m a)) = m (a + 2)" "ucast (drop_bit 24 (load32 m a)) = m (a + 3)"
  by (rule bit_word_eqI, auto simp: load32_def bit_simps dest: bit_imp_le_length)+

lemma unat_sub_of_nat:
  assumes "k < 4294967296"
  shows "unat (w - of_nat k :: u32) = (if k \<le> unat w then unat w - k else 4294967296 + unat w - k)"
  using assms unat_u32_bound [of w] by (auto simp: unat_sub_if' unat_of_nat_u32)

lemma store32_bytes:
  assumes "\<And>i. i < 4 \<Longrightarrow> b (of_nat i) = ucast (drop_bit (8 * i) v)"
  shows "store32 m d v = (\<lambda>a. if unat (a - d) < 4 then b (a - d) else m a)"
proof
  fix a
  let ?i = "unat (a - d)"
  have a: "a = d + of_nat ?i" by simp
  show "store32 m d v a = (if unat (a - d) < 4 then b (a - d) else m a)"
  proof (cases "?i < 4")
    case True
    then consider "?i = 0" | "?i = 1" | "?i = 2" | "?i = 3" by linarith
    then show ?thesis
    proof cases
      case 1 then have "a = d" using a by simp
      then show ?thesis using assms [of 0] by (simp add: store32_def)
    next
      case 2 then have "a = d + 1" using a by simp
      then show ?thesis using assms [of 1] by (simp add: store32_def)
    next
      case 3 then have "a = d + 2" using a by simp
      then show ?thesis using assms [of 2] by (simp add: store32_def)
    next
      case 4 then have "a = d + 3" using a by simp
      then show ?thesis using assms [of 3] by (simp add: store32_def)
    qed
  next
    case False
    then have "a \<noteq> d" "a \<noteq> d + 1" "a \<noteq> d + 2" "a \<noteq> d + 3" by auto
    with False show ?thesis by (simp add: store32_def)
  qed
qed

lemma store32_load32: "store32 m d (load32 m s) = copied m d s 4"
proof -
  have "m (s + of_nat i) = ucast (drop_bit (8 * i) (load32 m s))" if "i < 4" for i :: nat
  proof -
    from that consider "i = 0" | "i = 1" | "i = 2" | "i = 3" by linarith
    then show ?thesis by cases (simp_all add: load32_bytes)
  qed
  from store32_bytes [of "\<lambda>x. m (s + x)", OF this] show ?thesis by (simp add: copied_def)
qed

text \<open>Copies compose when the second part of the source is not overwritten by the first part.\<close>

lemma copied_append:
  assumes "k + r < 4294967296" "unat (d - s) = 0 \<or> k + r \<le> unat (d - s)"
  shows "copied (copied m d s k) (d + of_nat k) (s + of_nat k) r = copied m d s (k + r)"
proof
  fix a
  let ?i = "unat (a - d)"
  have k: "k < 4294967296" using assms by simp
  have off: "a - (d + of_nat k) = (a - d) - of_nat k" by simp
  have u: "unat (a - (d + of_nat k)) = (if k \<le> ?i then ?i - k else 4294967296 + ?i - k)"
    unfolding off by (rule unat_sub_of_nat [OF k])
  show "copied (copied m d s k) (d + of_nat k) (s + of_nat k) r a = copied m d s (k + r) a"
  proof (cases "k \<le> ?i \<and> ?i < k + r")
    case True
    have "s + of_nat k + (a - (d + of_nat k)) = s + (a - d)" by simp
    moreover have "\<not> unat (s + (a - d) - d) < k"
    proof -
      have e: "s + (a - d) - d = (a - d) - of_nat (unat (d - s))" by simp
      have "unat (s + (a - d) - d) =
          (if unat (d - s) \<le> ?i then ?i - unat (d - s) else 4294967296 + ?i - unat (d - s))"
        unfolding e by (rule unat_sub_of_nat [OF unat_u32_bound])
      with assms(2) True unat_u32_bound [of "d - s"] show ?thesis by auto
    qed
    ultimately show ?thesis using True u by (auto simp: copied_def)
  next
    case False
    with u assms(1) have "\<not> unat (a - (d + of_nat k)) < r" by auto
    with False show ?thesis by (auto simp: copied_def)
  qed
qed

lemma copied_1: "m(d := m s) = copied m d s 1"
  by (auto simp: copied_def fun_eq_iff unat_eq_0)

lemma copied_0 [simp]: "copied m d s 0 = m"
  by (simp add: copied_def)

lemma copy_bytes_copied:
  assumes "n < 4294967296" "unat (d - s) = 0 \<or> n \<le> unat (d - s)"
  shows "copy_bytes m d s n = copied m d s n"
  using assms
proof (induction n arbitrary: m d s)
  case (Suc n)
  have "copy_bytes (m(d := m s)) (d + 1) (s + 1) n = copied (m(d := m s)) (d + 1) (s + 1) n"
    by (rule Suc.IH) (use Suc.prems in auto)
  then have "copy_bytes m d s (Suc n) = copied (m(d := m s)) (d + 1) (s + 1) n" by simp
  with copied_append [of 1 n d s m] Suc.prems show ?case by (simp add: copied_1)
qed simp

lemma copy_words_copied:
  assumes "n < 4294967296" "unat (d - s) = 0 \<or> n \<le> unat (d - s)"
  shows "\<exists>k r. n = k + r \<and> copy_words m d s n = (copied m d s k, d + of_nat k, s + of_nat k, r)"
  using assms
proof (induction n arbitrary: m d s rule: less_induct)
  case (less n)
  show ?case
  proof (cases "4 \<le> n")
    case True
    have e: "(d + 4) - (s + 4) = d - s" by simp
    from less.IH [of "n - 4" "d + 4" "s + 4" "copied m d s 4"] less.prems True e obtain k r where
      k: "n - 4 = k + r" "copy_words (copied m d s 4) (d + 4) (s + 4) (n - 4) =
        (copied (copied m d s 4) (d + 4) (s + 4) k, d + 4 + of_nat k, s + 4 + of_nat k, r)"
      by fastforce
    have "copied (copied m d s 4) (d + 4) (s + 4) k = copied m d s (4 + k)"
      using copied_append [of 4 k d s m] less.prems k(1) True by auto
    with k True show ?thesis
      by (intro exI [of _ "4 + k"] exI [of _ r])
         (subst copy_words.simps, simp add: store32_load32 algebra_simps)
  next
    case False
    then show ?thesis by (intro exI [of _ 0] exI [of _ n]) (subst copy_words.simps, simp)
  qed
qed

lemma copy_forward_copied:
  assumes "n < 4294967296" "unat (d - s) = 0 \<or> n \<le> unat (d - s)"
  shows "copy_forward m d s n = copied m d s n"
proof (cases "(d OR s) AND 3 = 0")
  case True
  from copy_words_copied [OF assms] obtain k r where
    k: "n = k + r" "copy_words m d s n = (copied m d s k, d + of_nat k, s + of_nat k, r)" by blast
  have "copy_bytes (copied m d s k) (d + of_nat k) (s + of_nat k) r =
      copied (copied m d s k) (d + of_nat k) (s + of_nat k) r"
    by (rule copy_bytes_copied) (use assms k in auto)
  with True k copied_append [of k r d s m] assms show ?thesis by (auto simp: copy_forward_def)
qed (use assms in \<open>simp add: copy_forward_def copy_bytes_copied\<close>)

text \<open>The backward copies, described by their end pointers.\<close>

lemma back_offset:
  assumes "i < r" "t < 4294967296" "k + r \<le> t"
  shows "k \<le> unat (of_nat (i + t) - of_nat r :: u32)"
proof -
  have "of_nat (i + t) - of_nat r = (of_nat (i + t - r) :: u32)"
    using assms by (simp add: of_nat_diff)
  moreover have "unat (of_nat (i + t - r) :: u32) = i + t - r"
    using assms by (intro unat_of_nat_u32) simp
  ultimately show ?thesis using assms by simp
qed

lemma copied_prepend:
  assumes "k + r < 4294967296" "unat (s - d) = 0 \<or> k + r \<le> unat (s - d)"
  shows "copied (copied m d s k) (d - of_nat r) (s - of_nat r) r = copied m (d - of_nat r) (s - of_nat r) (k + r)"
proof
  fix a
  let ?i = "unat (a - (d - of_nat r))"
  have r: "r < 4294967296" using assms by simp
  have off: "a - d = (a - (d - of_nat r)) - of_nat r" by simp
  have u: "unat (a - d) = (if r \<le> ?i then ?i - r else 4294967296 + ?i - r)"
    unfolding off by (rule unat_sub_of_nat [OF r])
  have src: "s + (a - d) = s - of_nat r + (a - (d - of_nat r))" by simp
  show "copied (copied m d s k) (d - of_nat r) (s - of_nat r) r a = copied m (d - of_nat r) (s - of_nat r) (k + r) a"
  proof (cases "?i < r")
    case True
    have e: "s - of_nat r + (a - (d - of_nat r)) - d = of_nat (?i + unat (s - d)) - of_nat r" by simp
    have "\<not> unat (s - of_nat r + (a - (d - of_nat r)) - d) < k"
    proof (cases "unat (s - d) = 0")
      case eq: True
      then have "unat (s - of_nat r + (a - (d - of_nat r)) - d) = unat (a - d)" by (simp add: unat_eq_0)
      with u True assms(1) show ?thesis by auto
    next
      case False
      with assms(2) have l: "k + r \<le> unat (s - d)" by simp
      show ?thesis
        unfolding e using back_offset [OF True _ l] unat_u32_bound [of "s - d"] by (simp only: not_less)
    qed
    with True show ?thesis by (auto simp: copied_def)
  next
    case False
    with u src show ?thesis by (auto simp: copied_def)
  qed
qed

lemma copy_bytes_back_copied:
  assumes "n < 4294967296" "unat (s - d) = 0 \<or> n \<le> unat (s - d)"
  shows "copy_bytes_back m d s n = copied m (d - of_nat n) (s - of_nat n) n"
  using assms
proof (induction n arbitrary: m d s)
  case (Suc n)
  have "copy_bytes_back (m(d - 1 := m (s - 1))) (d - 1) (s - 1) n =
      copied (m(d - 1 := m (s - 1))) (d - 1 - of_nat n) (s - 1 - of_nat n) n"
    by (rule Suc.IH) (use Suc.prems in auto)
  moreover have "copied (copied m (d - 1) (s - 1) 1) (d - 1 - of_nat n) (s - 1 - of_nat n) n =
      copied m (d - 1 - of_nat n) (s - 1 - of_nat n) (1 + n)"
    by (rule copied_prepend) (use Suc.prems in auto)
  ultimately show ?case by (simp add: copied_1 algebra_simps)
qed simp

lemma copy_words_back_copied:
  assumes "n < 4294967296" "unat (s - d) = 0 \<or> n \<le> unat (s - d)"
  shows "\<exists>k r. n = k + r \<and> copy_words_back m d s n =
    (copied m (d - of_nat k) (s - of_nat k) k, d - of_nat k, s - of_nat k, r)"
  using assms
proof (induction n arbitrary: m d s rule: less_induct)
  case (less n)
  show ?case
  proof (cases "4 \<le> n")
    case True
    have "\<exists>k r. n - 4 = k + r \<and> copy_words_back (copied m (d - 4) (s - 4) 4) (d - 4) (s - 4) (n - 4) =
        (copied (copied m (d - 4) (s - 4) 4) (d - 4 - of_nat k) (s - 4 - of_nat k) k,
         d - 4 - of_nat k, s - 4 - of_nat k, r)"
      by (rule less.IH) (use less.prems True in auto)
    then obtain k r where k: "n - 4 = k + r" "copy_words_back (copied m (d - 4) (s - 4) 4) (d - 4) (s - 4) (n - 4) =
        (copied (copied m (d - 4) (s - 4) 4) (d - 4 - of_nat k) (s - 4 - of_nat k) k,
         d - 4 - of_nat k, s - 4 - of_nat k, r)" by blast
    have "copied (copied m (d - 4) (s - 4) 4) (d - 4 - of_nat k) (s - 4 - of_nat k) k =
        copied m (d - 4 - of_nat k) (s - 4 - of_nat k) (4 + k)"
      by (rule copied_prepend) (use less.prems k(1) True in auto)
    with k True show ?thesis
      by (intro exI [of _ "4 + k"] exI [of _ r])
         (subst copy_words_back.simps, simp add: store32_load32 algebra_simps)
  next
    case False
    then show ?thesis by (intro exI [of _ 0] exI [of _ n]) (subst copy_words_back.simps, simp)
  qed
qed

lemma k_memmove_copied:
  assumes "unat src + unat n < 4294967296" "unat dst + unat n \<le> 4294967296"
  shows "k_memmove m dst src n = copied m dst src (unat n)"
proof -
  have e: "unat (src + n) = unat src + unat n" using assms by (simp add: unat_u32_add)
  note b = unat_u32_bound [of n] unat_u32_bound [of src] unat_u32_bound [of dst]
  have ds: "unat (dst - src) = (if unat src \<le> unat dst then unat dst - unat src else 4294967296 + unat dst - unat src)"
    "unat (src - dst) = (if unat dst \<le> unat src then unat src - unat dst else 4294967296 + unat src - unat dst)"
    using unat_sub_of_nat [OF b(2), of dst] unat_sub_of_nat [OF b(3), of src] by simp_all
  show ?thesis
  proof (cases "dst < src \<or> src + n \<le> dst")
    case True
    then have "unat (dst - src) = 0 \<or> unat n \<le> unat (dst - src)"
      using ds(1) assms e by (auto simp: word_less_nat_alt word_le_nat_alt)
    with True copy_forward_copied [OF b(1)] show ?thesis by (simp add: k_memmove_def)
  next
    case False
    let ?d = "dst + n" and ?s = "src + n"
    have c: "unat (?s - ?d) = 0 \<or> unat n \<le> unat (?s - ?d)"
      using False ds(2) assms e by (auto simp: word_less_nat_alt word_le_nat_alt)
    from copy_words_back_copied [OF b(1) c] obtain k r where
      k: "unat n = k + r" "copy_words_back m ?d ?s (unat n) =
        (copied m (?d - of_nat k) (?s - of_nat k) k, ?d - of_nat k, ?s - of_nat k, r)" by blast
    have n: "of_nat k + of_nat r = n" by (simp flip: of_nat_add k(1))
    then have dd: "?d - of_nat k - of_nat r = dst" "?s - of_nat k - of_nat r = src" by (simp_all add: algebra_simps)
    have "copy_bytes_back (copied m (?d - of_nat k) (?s - of_nat k) k) (?d - of_nat k) (?s - of_nat k) r =
        copied (copied m (?d - of_nat k) (?s - of_nat k) k) (?d - of_nat k - of_nat r) (?s - of_nat k - of_nat r) r"
      by (rule copy_bytes_back_copied) (use b(1) c k(1) in auto)
    also have "\<dots> = copied m (?d - of_nat k - of_nat r) (?s - of_nat k - of_nat r) (k + r)"
      by (rule copied_prepend) (use b(1) c k(1) in auto)
    finally have words: "copy_bytes_back (copied m (?d - of_nat k) (?s - of_nat k) k) (?d - of_nat k) (?s - of_nat k) r =
        copied m dst src (unat n)" unfolding dd k(1) .
    have bytes: "copy_bytes_back m ?d ?s (unat n) = copied m dst src (unat n)"
      using copy_bytes_back_copied [OF b(1) c] by simp
    show ?thesis using False k(2) words bytes by (simp add: k_memmove_def Let_def)
  qed
qed

section \<open>Filling\<close>

lemma filled_append:
  assumes "k + r < 4294967296"
  shows "filled (filled m p c k) (p + of_nat k) c r = filled m p c (k + r)"
proof
  fix a
  let ?i = "unat (a - p)"
  have off: "a - (p + of_nat k) = (a - p) - of_nat k" by simp
  have "unat (a - (p + of_nat k)) = (if k \<le> ?i then ?i - k else 4294967296 + ?i - k)"
    unfolding off by (rule unat_sub_of_nat) (use assms in simp)
  with assms show "filled (filled m p c k) (p + of_nat k) c r a = filled m p c (k + r) a"
    by (auto simp: filled_def)
qed

lemma filled_1: "m(p := c) = filled m p c 1"
  by (auto simp: filled_def fun_eq_iff unat_eq_0)

lemma filled_0 [simp]: "filled m p c 0 = m"
  by (simp add: filled_def)

lemma set_bytes_filled: "n < 4294967296 \<Longrightarrow> set_bytes m p c n = filled m p c n"
proof (induction n arbitrary: m p)
  case (Suc n)
  with filled_append [of 1 n m p c] show ?case by (simp add: filled_1)
qed simp

definition memset_pattern :: "u8 \<Rightarrow> u32" where
  "memset_pattern b = (let p0 = (ucast b :: u32); p1 = p0 OR push_bit 8 p0 in p1 OR push_bit 16 p1)"

lemma store_pattern: "store32 m p (memset_pattern b) = filled m p b 4"
proof -
  have "b = ucast (drop_bit (8 * i) (memset_pattern b))" if "i < 4" for i :: nat
  proof -
    from that consider "i = 0" | "i = 1" | "i = 2" | "i = 3" by linarith
    then show ?thesis
      by cases (rule bit_word_eqI,
        auto simp: memset_pattern_def Let_def bit_simps dest: bit_imp_le_length)+
  qed
  from store32_bytes [of "\<lambda>_. b", OF this] show ?thesis by (simp add: filled_def)
qed

lemma k_memset32_filled: "4 * w < 4294967296 \<Longrightarrow> k_memset32 m p (memset_pattern b) w = filled m p b (4 * w)"
proof (induction w arbitrary: m p)
  case (Suc w)
  with filled_append [of 4 "4 * w" m p b] show ?case by (simp add: store_pattern)
qed simp

lemma set_until_aligned_filled:
  assumes "n < 4294967296"
  shows "\<exists>k \<le> n. set_until_aligned m p c n = (filled m p c k, p + of_nat k, n - k)"
  using assms
proof (induction n arbitrary: m p)
  case (Suc n)
  show ?case
  proof (cases "p AND 3 \<noteq> 0")
    case True
    from Suc obtain k where k: "k \<le> n"
      "set_until_aligned (m(p := c)) (p + 1) c n = (filled (m(p := c)) (p + 1) c k, p + 1 + of_nat k, n - k)"
      by (meson Suc_lessD)
    have "filled (m(p := c)) (p + 1) c k = filled m p c (1 + k)"
      using filled_append [of 1 k m p c] k(1) Suc.prems by (simp add: filled_1)
    with k True show ?thesis by (intro exI [of _ "Suc k"]) (simp add: algebra_simps)
  next
    case False
    then show ?thesis by (intro exI [of _ 0]) simp
  qed
qed simp

lemma k_memset_filled: "k_memset m s c n = filled m s (ucast c) (unat n)"
proof -
  let ?b = "ucast c :: u8"
  note b = unat_u32_bound [of n]
  from set_until_aligned_filled [OF b] obtain k where
    k: "k \<le> unat n" "set_until_aligned m s ?b (unat n) = (filled m s ?b k, s + of_nat k, unat n - k)" by blast
  let ?r = "unat n - k" and ?m1 = "filled m s ?b k" and ?p1 = "s + of_nat k :: u32"
  let ?w = "?r div 4"
  have w: "4 * ?w + ?r mod 4 = ?r" "4 * ?w < 4294967296" using b by simp_all
  have words: "k_memset32 ?m1 ?p1 (memset_pattern ?b) ?w = filled m s ?b (k + 4 * ?w)"
    using k_memset32_filled [OF w(2)] filled_append [of k "4 * ?w" m s ?b] k(1) w(1) b by simp
  have r: "unat n - (k + ?w * 4) = ?r mod 4" using w(1) by linarith
  have p2: "?p1 + of_nat ?w * 4 = s + of_nat (k + 4 * ?w)" by simp
  have fin: "set_bytes (filled m s ?b (k + 4 * ?w)) (s + of_nat (k + 4 * ?w)) ?b (?r mod 4) = filled m s ?b (unat n)"
    using filled_append [of "k + 4 * ?w" "?r mod 4" m s ?b] k(1) w(1) b by (simp add: set_bytes_filled del: of_nat_add)
  have "set_bytes ?m1 ?p1 ?b ?r = filled m s ?b (unat n)"
    using filled_append [of k ?r m s ?b] k(1) b by (simp add: set_bytes_filled)
  with k(2) words fin show ?thesis
    by (simp add: k_memset_def Let_def memset_pattern_def r p2 del: of_nat_add)
qed

section \<open>Strings\<close>

fun cstr :: "mem \<Rightarrow> u32 \<Rightarrow> u8 list \<Rightarrow> bool" where
  "cstr m a [] \<longleftrightarrow> m a = 0"
| "cstr m a (x # xs) \<longleftrightarrow> m a = x \<and> x \<noteq> 0 \<and> cstr m (a + 1) xs"

lemma cstr_drop: "cstr m a xs \<Longrightarrow> i \<le> length xs \<Longrightarrow> cstr m (a + of_nat i) (drop i xs)"
proof (induction xs arbitrary: a i)
  case (Cons x xs)
  show ?case
  proof (cases i)
    case (Suc j)
    with Cons have "cstr m (a + 1 + of_nat j) (drop j xs)" by simp
    with Suc show ?thesis by (simp add: algebra_simps)
  qed (use Cons in simp)
qed simp

lemma k_strlen_ok: "cstr m a xs \<Longrightarrow> k_strlen m a = Some (of_nat (length xs))"
proof -
  have "cstr m a xs \<Longrightarrow> strlen_loop m a n = Some (n + of_nat (length xs))" for n
  proof (induction xs arbitrary: a n)
    case Nil then show ?case by (subst strlen_loop.simps) simp
  next
    case (Cons x xs) then show ?case by (subst strlen_loop.simps) (auto simp: algebra_simps)
  qed
  then show "cstr m a xs \<Longrightarrow> ?thesis" by (simp add: k_strlen_def)
qed

lemma strnlen_loop_ok: "cstr m a xs \<Longrightarrow> strnlen_loop m a n = min n (length xs)"
proof (induction n arbitrary: a xs)
  case (Suc n)
  then show ?case by (cases xs) auto
qed simp

text \<open>Comparison of byte strings: the difference at the first mismatch, a missing byte counting 0.\<close>

fun bytes_diff :: "u8 list \<Rightarrow> u8 list \<Rightarrow> int" where
  "bytes_diff [] [] = 0"
| "bytes_diff [] (y # ys) = - uint y"
| "bytes_diff (x # xs) [] = uint x"
| "bytes_diff (x # xs) (y # ys) = (if x = y then bytes_diff xs ys else uint x - uint y)"

lemma k_strcmp_diff:
  "cstr m a xs \<Longrightarrow> cstr m b ys \<Longrightarrow> k_strcmp m a b = Some (bytes_diff xs ys)"
proof (induction xs ys arbitrary: a b rule: bytes_diff.induct)
  case 1 then show ?case by (subst k_strcmp.simps) simp
next
  case (2 y ys) then show ?case by (subst k_strcmp.simps) auto
next
  case (3 x xs) then show ?case by (subst k_strcmp.simps) auto
next
  case (4 x xs y ys) then show ?case by (subst k_strcmp.simps) auto
qed

lemma strncmp_diff:
  "cstr m a xs \<Longrightarrow> cstr m b ys \<Longrightarrow> strncmp_loop m a b n = bytes_diff (take n xs) (take n ys)"
proof (induction n arbitrary: a b xs ys)
  case (Suc n)
  then show ?case by (cases xs; cases ys) auto
qed simp

lemma uint_pos: "x \<noteq> 0 \<Longrightarrow> 0 < uint (x :: u8)"
  by (metis order_le_less uint_0_iff unsigned_greater_eq)

lemma bytes_diff_order:
  assumes "0 \<notin> set xs" "0 \<notin> set ys"
  shows "bytes_diff xs ys = 0 \<longleftrightarrow> xs = ys"
    "bytes_diff xs ys < 0 \<longleftrightarrow> (xs, ys) \<in> lexord {(x, y). x < y}"
  using assms
proof (induction xs ys rule: bytes_diff.induct)
  case (4 x xs y ys)
  { case 1 with 4 show ?case by (simp add: word_uint_eq_iff) }
  { case 2 with 4 show ?case by (auto simp: word_less_def) }
qed (auto dest: uint_pos simp: not_less)

lemma cstr_nonzero: "cstr m a xs \<Longrightarrow> 0 \<notin> set xs"
  by (induction xs arbitrary: a) auto

lemma cstr_update:
  assumes "cstr m a xs" "length xs < unat (d - a)"
  shows "cstr (m(d := v)) a xs"
  using assms
proof (induction xs arbitrary: a)
  case (Cons x xs)
  have "unat (d - (a + 1)) = unat (d - a) - 1"
    using Cons.prems(2) unat_sub_of_nat [of 1 "d - a"] by (simp add: diff_diff_eq)
  with Cons show ?case by auto
qed auto

lemma strcpy_copied:
  assumes "cstr m s xs" "length xs + 1 < 4294967296" "unat (d - s) = 0 \<or> length xs + 1 \<le> unat (d - s)"
  shows "strcpy_loop m d s = Some (copied m d s (length xs + 1))"
  using assms
proof (induction xs arbitrary: m d s)
  case Nil
  then show ?case using copied_1 [of m d s] by (subst strcpy_loop.simps) (simp del: One_nat_def)
next
  case (Cons x xs)
  have "unat (d - (s + 1)) = (if unat (d - s) = 0 then 4294967295 else unat (d - s) - 1)"
    using unat_sub_of_nat [of 1 "d - s"] by (simp add: diff_diff_eq)
  then have "cstr (m(d := m s)) (s + 1) xs"
    using Cons.prems by (intro cstr_update) auto
  then have "strcpy_loop (m(d := m s)) (d + 1) (s + 1) = Some (copied (m(d := m s)) (d + 1) (s + 1) (length xs + 1))"
    by (rule Cons.IH) (use Cons.prems in auto)
  moreover have "copied (copied m d s 1) (d + 1) (s + 1) (length xs + 1) = copied m d s (1 + (length xs + 1))"
    using copied_append [of 1 "length xs + 1" d s m] Cons.prems by auto
  moreover have "m(d := x) = copied m d s 1" using Cons.prems(1) copied_1 [of m d s] by simp
  ultimately show ?case
    using Cons.prems(1) by (subst strcpy_loop.simps) simp
qed

lemma strncpy_ok:
  assumes "cstr m s xs" "n < 4294967296" "\<forall>i \<le> length xs. n \<le> unat (s + of_nat i - d)"
  shows "strncpy_loop m d s n =
    (\<lambda>a. let i = unat (a - d) in if i < n then if i < length xs then xs ! i else 0 else m a)"
  using assms
proof (induction n arbitrary: m d s xs)
  case (Suc n)
  have far: "n \<le> unat (w - 1)" if "Suc n \<le> unat w" for w :: u32
    using that unat_sub_of_nat [of 1 w] by simp
  let ?m1 = "m(d := m s)"
  have step: "(\<lambda>a. let i = unat (a - (d + 1)) in if i < n then f i else (m(d := v)) a) =
      (\<lambda>a. let i = unat (a - d) in if i < Suc n then (case i of 0 \<Rightarrow> v | Suc j \<Rightarrow> f j) else m a)" for f v
  proof
    fix a
    show "(let i = unat (a - (d + 1)) in if i < n then f i else (m(d := v)) a) =
      (let i = unat (a - d) in if i < Suc n then (case i of 0 \<Rightarrow> v | Suc j \<Rightarrow> f j) else m a)"
    proof (cases "a = d")
      case True
      then have "unat (a - (d + 1)) = 4294967295" using unat_sub_of_nat [of 1 0] by simp
      with True Suc.prems(2) show ?thesis by (simp add: Let_def)
    next
      case False
      then have "0 < unat (a - d)" by (simp add: unat_gt_0)
      then obtain j where j: "unat (a - d) = Suc j" by (cases "unat (a - d)") auto
      with unat_sub_of_nat [of 1 "a - d"] have "unat (a - (d + 1)) = j" by (simp add: diff_diff_eq)
      with j False show ?thesis by (simp add: Let_def)
    qed
  qed
  show ?case
  proof (cases xs)
    case Nil
    with Suc.prems(3) have sd: "Suc n \<le> unat (s - d)" by auto
    then have "s \<noteq> d" by auto
    with Nil Suc.prems have c: "cstr ?m1 s xs" by simp
    have "strncpy_loop ?m1 (d + 1) s n =
        (\<lambda>a. let i = unat (a - (d + 1)) in if i < n then if i < length xs then xs ! i else 0 else ?m1 a)"
      by (rule Suc.IH [OF c]) (use Nil Suc.prems far [OF sd] in \<open>auto simp: diff_diff_eq\<close>)
    then show ?thesis using Nil Suc.prems(1,2)
      by (simp add: step) (auto simp: fun_eq_iff Let_def split: nat.splits)
  next
    case (Cons x ys)
    have "length ys < unat (d - (s + 1))"
    proof (rule ccontr)
      assume "\<not> length ys < unat (d - (s + 1))"
      then have "Suc (unat (d - (s + 1))) \<le> length xs" using Cons by simp
      with Suc.prems(3) have "Suc n \<le> unat (s + of_nat (Suc (unat (d - (s + 1)))) - d)" by blast
      then show False by simp
    qed
    then have c: "cstr ?m1 (s + 1) ys" using Suc.prems(1) Cons by (intro cstr_update) auto
    have "n \<le> unat (s + 1 + of_nat i - (d + 1))" if "i \<le> length ys" for i
    proof -
      have "i \<le> length xs" using that Cons by simp
      then have "Suc n \<le> unat (s + of_nat i - d)" using Suc.prems(3) by blast
      moreover have "s + 1 + of_nat i - (d + 1) = s + of_nat i - d" by simp
      ultimately show ?thesis by (metis Suc_leD)
    qed
    then have "strncpy_loop ?m1 (d + 1) (s + 1) n =
        (\<lambda>a. let i = unat (a - (d + 1)) in if i < n then if i < length ys then ys ! i else 0 else ?m1 a)"
      using Suc.prems(2) by (intro Suc.IH [OF c]) auto
    moreover have "m s = x" "x \<noteq> 0" using Suc.prems(1) Cons by auto
    ultimately show ?thesis using Cons Suc.prems(2)
      by (simp add: step) (auto simp: fun_eq_iff Let_def split: nat.splits)
  qed
qed (simp add: Let_def)

lemma str_end_ok: "cstr m d xs \<Longrightarrow> str_end m d = Some (d + of_nat (length xs))"
proof (induction xs arbitrary: d)
  case Nil then show ?case by (subst str_end.simps) simp
next
  case (Cons x xs) then show ?case by (subst str_end.simps) (auto simp: algebra_simps)
qed

lemma find_upt_Suc:
  "find P [0..<Suc n] = (if P 0 then Some 0 else map_option Suc (find (\<lambda>i. P (Suc i)) [0..<n]))"
proof -
  have "find P (map Suc xs) = map_option Suc (find (\<lambda>i. P (Suc i)) xs)" for xs by (induction xs) auto
  moreover have "[0..<Suc n] = 0 # map Suc [0..<n]" by (simp add: upt_conv_Cons map_Suc_upt del: upt_Suc)
  ultimately show ?thesis by (simp del: upt_Suc)
qed

lemma strchr_ok:
  assumes "cstr m s xs"
  shows "k_strchr m s c = Some (case find (\<lambda>i. (xs @ [0]) ! i = ucast c) [0..<length xs + 1] of
    Some i \<Rightarrow> s + of_nat i | None \<Rightarrow> 0)"
proof -
  have "strchr_loop m s b = Some (case find (\<lambda>i. (xs @ [0]) ! i = b) [0..<length xs + 1] of
      Some i \<Rightarrow> s + of_nat i | None \<Rightarrow> 0)" for b
    using assms
  proof (induction xs arbitrary: s)
    case Nil then show ?case by (subst strchr_loop.simps) auto
  next
    case (Cons x xs)
    then have IH: "strchr_loop m (s + 1) b = Some (case find (\<lambda>i. (xs @ [0]) ! i = b) [0..<length xs + 1] of
      Some i \<Rightarrow> s + 1 + of_nat i | None \<Rightarrow> 0)" by simp
    have "find (\<lambda>i. (x # xs @ [0]) ! i = b) [0..<Suc (length xs + 1)] =
        (if x = b then Some 0 else map_option Suc (find (\<lambda>i. (xs @ [0]) ! i = b) [0..<length xs + 1]))"
      by (subst find_upt_Suc) simp
    with IH Cons.prems show ?case
      by (subst strchr_loop.simps) (simp add: algebra_simps split: option.splits del: upt_Suc)
  qed
  then show ?thesis by (simp add: k_strchr_def)
qed

text \<open>Substring search.\<close>

fun common :: "u8 list \<Rightarrow> u8 list \<Rightarrow> nat" where
  "common [] ys = 0"
| "common (x # xs) [] = 0"
| "common (x # xs) (y # ys) = (if x = y then Suc (common xs ys) else 0)"

lemma common_full: "common hs ns = length ns \<longleftrightarrow> take (length ns) hs = ns"
proof (induction hs arbitrary: ns)
  case Nil
  then show ?case by (cases ns) auto
next
  case (Cons h hs)
  then show ?case by (cases ns) auto
qed

lemma common_le: "common hs ns \<le> length ns"
  by (induction hs ns rule: common.induct) simp_all

lemma strstr_match_ok:
  "cstr m h hs \<Longrightarrow> cstr m n ns \<Longrightarrow> strstr_match m h n = Some (n + of_nat (common hs ns))"
proof (induction hs ns arbitrary: h n rule: common.induct)
  case (1 ys) then show ?case by (subst strstr_match.simps) auto
next
  case (2 x xs) then show ?case by (subst strstr_match.simps) auto
next
  case (3 x xs y ys) then show ?case by (subst strstr_match.simps) (auto simp: algebra_simps)
qed

lemma cstr_end_iff: "cstr m n ns \<Longrightarrow> k \<le> length ns \<Longrightarrow> m (n + of_nat k) = 0 \<longleftrightarrow> k = length ns"
  using cstr_drop [of m n ns k] by (cases "drop k ns") auto

lemma strstr_loop_ok:
  assumes "cstr m h hs" "cstr m n ns" "ns \<noteq> []"
  shows "strstr_loop m h n = Some (case find (\<lambda>i. take (length ns) (drop i hs) = ns) [0..<length hs] of
    Some i \<Rightarrow> h + of_nat i | None \<Rightarrow> 0)"
  using assms(1)
proof (induction hs arbitrary: h)
  case Nil
  then show ?case by (subst strstr_loop.simps) simp
next
  case (Cons x hs)
  have shift: "find (\<lambda>i. take (length ns) (drop i (x # hs)) = ns) [0..<Suc (length hs)] =
      (if take (length ns) (x # hs) = ns then Some 0
       else map_option Suc (find (\<lambda>i. take (length ns) (drop i hs) = ns) [0..<length hs]))"
    by (subst find_upt_Suc) simp
  have "m h \<noteq> 0" "strstr_loop m (h + 1) n = Some (case find (\<lambda>i. take (length ns) (drop i hs) = ns) [0..<length hs] of
      Some i \<Rightarrow> h + 1 + of_nat i | None \<Rightarrow> 0)" using Cons by auto
  moreover have "strstr_match m h n = Some (n + of_nat (common (x # hs) ns))"
    by (rule strstr_match_ok) (use Cons.prems assms(2) in auto)
  moreover have "m (n + of_nat (common (x # hs) ns)) = 0 \<longleftrightarrow> take (length ns) (x # hs) = ns"
    using cstr_end_iff [OF assms(2) common_le] common_full by metis
  ultimately show ?case
    using shift by (subst strstr_loop.simps) (simp add: algebra_simps split: option.splits del: upt_Suc)
qed

section \<open>Properties\<close>

definition bytes_at :: "u32 \<Rightarrow> u8 list \<Rightarrow> mem \<Rightarrow> mem" where
  "bytes_at a xs m = (\<lambda>x. let i = unat (x - a) in if i < length xs then xs ! i else m x)"

definition ex_mem :: mem where
  "ex_mem = bytes_at 0x1000 [97, 98, 97, 98, 99] (bytes_at 0x2000 [97, 98, 99] (\<lambda>_. 0))"

lemma ex_strings: "cstr ex_mem 0x1000 [97, 98, 97, 98, 99]" "cstr ex_mem 0x2000 [97, 98, 99]"
  by (simp_all add: ex_mem_def bytes_at_def Let_def)

text \<open>
  C16: \<^verbatim>\<open>k_memmove\<close> copies exactly the requested bytes for every overlap of source and
  destination and every alignment: each destination byte gets the old value of the
  corresponding source byte and nothing else changes.
\<close>

theorem k_memmove_correct:
  assumes "unat src + unat n < 2 ^ 32" "unat dst + unat n \<le> 2 ^ 32"
  shows "k_memmove m dst src n = (\<lambda>a. if unat (a - dst) < unat n then m (src + (a - dst)) else m a)"
  using k_memmove_copied [of src n dst m] assms by (simp add: copied_def)

theorem k_memmove_correct_witness:
  "k_memmove ex_mem 0x1002 0x1000 5 0x1003 = 98 \<and> k_memmove ex_mem 0x1000 0x1002 3 0x1000 = 97"
proof -
  have "k_memmove ex_mem 0x1002 0x1000 5 0x1003 = ex_mem 0x1001"
    by (subst k_memmove_correct) simp_all
  moreover have "k_memmove ex_mem 0x1000 0x1002 3 0x1000 = ex_mem 0x1002"
    by (subst k_memmove_correct) simp_all
  moreover have "ex_mem 0x1001 = 98" "ex_mem 0x1002 = 97"
    by (simp_all add: ex_mem_def bytes_at_def Let_def)
  ultimately show ?thesis by simp
qed

text \<open>
  C17: \<^verbatim>\<open>k_strcmp\<close> of two terminated strings returns, its result is zero exactly for equal
  strings and negative exactly when the first precedes the second in the lexicographic order
  of unsigned bytes.
\<close>

theorem k_strcmp_order:
  assumes "cstr m a xs" "cstr m b ys"
  shows "\<exists>r. k_strcmp m a b = Some r \<and> (r = 0 \<longleftrightarrow> xs = ys) \<and>
    (r < 0 \<longleftrightarrow> (xs, ys) \<in> lexord {(x, y). x < y})"
  using k_strcmp_diff [OF assms] bytes_diff_order [OF cstr_nonzero cstr_nonzero, OF assms] by simp

theorem k_strcmp_order_witness:
  "\<exists>r. k_strcmp ex_mem 0x1000 0x2000 = Some r \<and> r < 0"
  using k_strcmp_order [OF ex_strings] by force

text \<open>
  C18: \<^verbatim>\<open>k_strstr\<close> on terminated strings returns the address of the first occurrence of the
  needle, the haystack itself for an empty needle, and 0 when there is none.
\<close>

theorem k_strstr_first:
  assumes "cstr m h hs" "cstr m n ns"
  shows "k_strstr m h n = Some (if ns = [] then h
    else case find (\<lambda>i. take (length ns) (drop i hs) = ns) [0..<length hs] of
      Some i \<Rightarrow> h + of_nat i | None \<Rightarrow> 0)"
proof (cases ns)
  case Nil
  with assms show ?thesis by (simp add: k_strstr_def)
next
  case (Cons x xs)
  with assms have "m n \<noteq> 0" by auto
  with Cons strstr_loop_ok [OF assms] show ?thesis by (simp add: k_strstr_def)
qed

theorem k_strstr_first_witness: "k_strstr ex_mem 0x1000 0x2000 = Some 0x1002"
  using k_strstr_first [OF ex_strings] by (simp add: upt_rec)

text \<open>
  C19: \<^verbatim>\<open>k_strncpy\<close> writes exactly \<open>n\<close> bytes, the source string cut to \<open>n\<close> bytes and padded with
  zeros, and nothing else.
\<close>

theorem k_strncpy_exact:
  assumes "cstr m s xs" "\<forall>i \<le> length xs. unat n \<le> unat (s + of_nat i - d)"
  shows "k_strncpy m d s n =
    (\<lambda>a. let i = unat (a - d) in if i < unat n then if i < length xs then xs ! i else 0 else m a)"
  unfolding k_strncpy_def by (rule strncpy_ok [OF assms(1) unat_u32_bound assms(2)])

theorem k_strncpy_exact_witness:
  "k_strncpy ex_mem 0x1000 0x2000 4 0x1003 = 0 \<and> k_strncpy ex_mem 0x1000 0x2000 4 0x1004 = 99"
proof -
  have "unat (4 :: u32) \<le> unat (0x2000 + of_nat i - 0x1000 :: u32)" if "i \<le> length [97, 98, 99 :: u8]" for i
  proof -
    from that consider "i = 0" | "i = 1" | "i = 2" | "i = 3" by (auto simp: le_Suc_eq)
    then show ?thesis by cases simp_all
  qed
  then have "\<forall>i \<le> length [97, 98, 99 :: u8]. unat (4 :: u32) \<le> unat (0x2000 + of_nat i - 0x1000 :: u32)" by blast
  from k_strncpy_exact [OF ex_strings(2) this] show ?thesis
    by (simp add: Let_def) (simp add: ex_mem_def bytes_at_def Let_def)
qed

end
