(* ===== verification/Ksort.thy ===== *)
theory Ksort
  imports Kstring "HOL-Library.Multiset"
begin

text \<open>
  The in-place heapsort: \<^verbatim>\<open>kernel/lib/ksort.c\<close>.  The array is the list of its elements, of one
  size each, and an index is a natural number: an array in memory has fewer than \<open>2^31\<close>
  elements, so no index computed from one wraps.  The comparison function of the caller is a
  parameter; its contract is the locale \<open>comparator\<close>, and the byte comparison of
  \<^verbatim>\<open>kernel/lib/kstring.c\<close> meets it.
\<close>

section \<open>Model\<close>

definition swap_elems :: "'a list \<Rightarrow> nat \<Rightarrow> nat \<Rightarrow> 'a list" where
  "swap_elems base a b = base[a := base ! b, b := base ! a]"

text \<open>The larger of the children of \<open>root\<close> that lie in the range.\<close>

definition sift_child :: "('a \<Rightarrow> 'a \<Rightarrow> int) \<Rightarrow> 'a list \<Rightarrow> nat \<Rightarrow> nat \<Rightarrow> nat" where
  "sift_child cmp base root stop =
     (let child = 2 * root + 1 in
      if child + 1 \<le> stop \<and> cmp (base ! child) (base ! (child + 1)) < 0 then child + 1 else child)"

lemma sift_child_bounds:
  "2 * root + 1 \<le> stop \<Longrightarrow> sift_child cmp base root stop \<le> stop \<and> root < sift_child cmp base root stop"
  by (auto simp: sift_child_def Let_def)

function sift_down :: "('a \<Rightarrow> 'a \<Rightarrow> int) \<Rightarrow> 'a list \<Rightarrow> nat \<Rightarrow> nat \<Rightarrow> 'a list" where
  "sift_down cmp base root stop =
     (if 2 * root + 1 > stop then base
      else if cmp (base ! root) (base ! sift_child cmp base root stop) < 0
      then sift_down cmp (swap_elems base root (sift_child cmp base root stop)) (sift_child cmp base root stop) stop
      else base)"
  by pat_completeness auto
termination
proof (relation "measure (\<lambda>(cmp, base, root, stop). Suc stop - root)")
  fix cmp :: "'a \<Rightarrow> 'a \<Rightarrow> int" and base and root stop :: nat
  assume "\<not> 2 * root + 1 > stop"
  with sift_child_bounds [of root stop cmp base]
  show "((cmp, swap_elems base root (sift_child cmp base root stop), sift_child cmp base root stop, stop),
      cmp, base, root, stop) \<in> measure (\<lambda>(cmp, base, root, stop). Suc stop - root)"
    by auto
qed simp

declare sift_down.simps [simp del]

fun build_loop :: "('a \<Rightarrow> 'a \<Rightarrow> int) \<Rightarrow> 'a list \<Rightarrow> nat \<Rightarrow> nat \<Rightarrow> 'a list" where
  "build_loop cmp base stop 0 = base"
| "build_loop cmp base stop (Suc i) = build_loop cmp (sift_down cmp base i stop) stop i"

fun extract_loop :: "('a \<Rightarrow> 'a \<Rightarrow> int) \<Rightarrow> 'a list \<Rightarrow> nat \<Rightarrow> 'a list" where
  "extract_loop cmp base 0 = base"
| "extract_loop cmp base (Suc e) = extract_loop cmp (sift_down cmp (swap_elems base 0 (Suc e)) 0 e) e"

definition k_sort :: "('a \<Rightarrow> 'a \<Rightarrow> int) \<Rightarrow> 'a list \<Rightarrow> 'a list" where
  "k_sort cmp base =
     (let n = length base in
      if n < 2 then base
      else extract_loop cmp (build_loop cmp base (n - 1) ((n - 2) div 2 + 1)) (n - 1))"

section \<open>What no comparison can change\<close>

lemma swap_elems_length [simp]: "length (swap_elems xs i j) = length xs"
  by (simp add: swap_elems_def)

lemma swap_elems_mset: "i < length xs \<Longrightarrow> j < length xs \<Longrightarrow> mset (swap_elems xs i j) = mset xs"
  by (simp add: swap_elems_def mset_swap)

lemma swap_elems_nth:
  "i < length xs \<Longrightarrow> j < length xs \<Longrightarrow> k < length xs \<Longrightarrow>
   swap_elems xs i j ! k = (if k = j then xs ! i else if k = i then xs ! j else xs ! k)"
  by (auto simp: swap_elems_def nth_list_update)

lemma swap_elems_take_drop:
  "i < n \<Longrightarrow> j < n \<Longrightarrow> take n (swap_elems xs i j) = swap_elems (take n xs) i j \<and>
   drop n (swap_elems xs i j) = drop n xs"
  by (auto simp: swap_elems_def take_update_swap)

text \<open>Every step is a swap inside the range, so the range keeps its elements and the rest is untouched.\<close>

lemma sift_down_frame:
  "stop < length xs \<Longrightarrow> length (sift_down cmp xs root stop) = length xs \<and>
   mset (take (Suc stop) (sift_down cmp xs root stop)) = mset (take (Suc stop) xs) \<and>
   drop (Suc stop) (sift_down cmp xs root stop) = drop (Suc stop) xs"
proof (induction cmp xs root stop rule: sift_down.induct)
  case (1 cmp xs root stop)
  let ?c = "sift_child cmp xs root stop"
  show ?case
  proof (cases "2 * root + 1 \<le> stop \<and> cmp (xs ! root) (xs ! ?c) < 0")
    case True
    then have c: "?c \<le> stop" "root < ?c" using sift_child_bounds by blast+
    have sw: "take (Suc stop) (swap_elems xs root ?c) = swap_elems (take (Suc stop) xs) root ?c"
      "drop (Suc stop) (swap_elems xs root ?c) = drop (Suc stop) xs"
      using swap_elems_take_drop [of root "Suc stop" ?c xs] c by auto
    have m: "mset (swap_elems (take (Suc stop) xs) root ?c) = mset (take (Suc stop) xs)"
      using c "1.prems" by (intro swap_elems_mset) auto
    have step: "sift_down cmp xs root stop = sift_down cmp (swap_elems xs root ?c) ?c stop"
      using True by (subst sift_down.simps) simp
    from 1 True show ?thesis unfolding step using sw m by simp
  next
    case False
    then have "sift_down cmp xs root stop = xs" by (subst sift_down.simps) auto
    then show ?thesis by simp
  qed
qed

lemma sift_down_length [simp]: "stop < length xs \<Longrightarrow> length (sift_down cmp xs root stop) = length xs"
  using sift_down_frame by blast

lemma sift_down_mset: "stop < length xs \<Longrightarrow> mset (sift_down cmp xs root stop) = mset xs"
  using sift_down_frame [of stop xs cmp root]
  by (metis append_take_drop_id mset_append)

lemma build_loop_mset:
  "stop < length xs \<Longrightarrow> mset (build_loop cmp xs stop i) = mset xs \<and> length (build_loop cmp xs stop i) = length xs"
  by (induction i arbitrary: xs) (simp_all add: sift_down_mset)

lemma extract_loop_mset:
  "e < length xs \<Longrightarrow> mset (extract_loop cmp xs e) = mset xs \<and> length (extract_loop cmp xs e) = length xs"
proof (induction e arbitrary: xs)
  case (Suc e)
  then have "mset (swap_elems xs 0 (Suc e)) = mset xs" by (intro swap_elems_mset) auto
  with Suc show ?case by (simp add: sift_down_mset)
qed simp

lemma k_sort_mset: "mset (k_sort cmp xs) = mset xs"
proof (cases "length xs < 2")
  case False
  then have n: "length xs - 1 < length xs" by simp
  define ys where "ys = build_loop cmp xs (length xs - 1) ((length xs - 2) div 2 + 1)"
  with build_loop_mset [OF n] have ys: "mset ys = mset xs" "length ys = length xs" by blast+
  with n extract_loop_mset [of "length xs - 1" ys cmp] have "mset (extract_loop cmp ys (length xs - 1)) = mset xs"
    by simp
  with False show ?thesis unfolding k_sort_def Let_def ys_def by (simp only: if_False)
qed (simp add: k_sort_def)

section \<open>The comparator contract\<close>

locale comparator =
  fixes cmp :: "'a \<Rightarrow> 'a \<Rightarrow> int"
  assumes asym: "cmp a b < 0 \<Longrightarrow> \<not> cmp b a < 0"
    and not_less_trans: "\<not> cmp b a < 0 \<Longrightarrow> \<not> cmp c b < 0 \<Longrightarrow> \<not> cmp c a < 0"
begin

definition le :: "'a \<Rightarrow> 'a \<Rightarrow> bool" where
  "le a b \<longleftrightarrow> \<not> cmp b a < 0"

lemma le_trans: "le a b \<Longrightarrow> le b c \<Longrightarrow> le a c"
  using not_less_trans by (simp add: le_def)

lemma le_refl: "le a a"
  using asym by (auto simp: le_def)

lemma less_le: "cmp a b < 0 \<Longrightarrow> le a b"
  using asym by (simp add: le_def)

text \<open>The nodes from \<open>lo\<close> on dominate their children up to \<open>stop\<close>.\<close>

definition heap_from :: "nat \<Rightarrow> nat \<Rightarrow> 'a list \<Rightarrow> bool" where
  "heap_from lo stop xs \<longleftrightarrow>
     (\<forall>i c. lo \<le> i \<and> (c = 2 * i + 1 \<or> c = 2 * i + 2) \<and> c \<le> stop \<longrightarrow> le (xs ! c) (xs ! i))"

text \<open>The same but for the node \<open>root\<close>, whose children are still below its own parent.\<close>

definition heap_but :: "nat \<Rightarrow> nat \<Rightarrow> nat \<Rightarrow> 'a list \<Rightarrow> bool" where
  "heap_but lo root stop xs \<longleftrightarrow>
     (\<forall>i c. lo \<le> i \<and> i \<noteq> root \<and> (c = 2 * i + 1 \<or> c = 2 * i + 2) \<and> c \<le> stop \<longrightarrow> le (xs ! c) (xs ! i)) \<and>
     (\<forall>p c. lo \<le> p \<and> (root = 2 * p + 1 \<or> root = 2 * p + 2) \<and> (c = 2 * root + 1 \<or> c = 2 * root + 2) \<and>
        c \<le> stop \<longrightarrow> le (xs ! c) (xs ! p))"

lemma sift_child_largest:
  assumes "2 * root + 1 \<le> stop" and "c = 2 * root + 1 \<or> c = 2 * root + 2" and "c \<le> stop"
  shows "le (xs ! c) (xs ! sift_child cmp xs root stop)"
  using assms less_le le_refl by (auto simp: sift_child_def Let_def le_def)

lemma sift_child_child:
  "sift_child cmp xs root stop = 2 * root + 1 \<or> sift_child cmp xs root stop = 2 * root + 2"
  by (auto simp: sift_child_def Let_def)

lemma sift_step_heap_but:
  assumes h: "heap_but lo root stop xs" and b: "2 * root + 1 \<le> stop" "stop < length xs" "lo \<le> root"
    and less: "cmp (xs ! root) (xs ! sift_child cmp xs root stop) < 0"
  shows "heap_but lo (sift_child cmp xs root stop) stop (swap_elems xs root (sift_child cmp xs root stop))"
proof -
  let ?c = "sift_child cmp xs root stop"
  let ?ys = "swap_elems xs root ?c"
  from sift_child_bounds [OF b(1)] have c: "?c \<le> stop" "root < ?c" by blast+
  note cc = sift_child_child [of xs root stop]
  have nth: "?ys ! k = (if k = ?c then xs ! root else if k = root then xs ! ?c else xs ! k)" if "k \<le> stop" for k
    using swap_elems_nth [of root xs ?c k] c b that by simp
  have "le (?ys ! c) (?ys ! i)"
    if "lo \<le> i" "i \<noteq> ?c" "c = 2 * i + 1 \<or> c = 2 * i + 2" "c \<le> stop" for i c
  proof -
    from that have i: "i \<le> stop" "i < c" by auto
    show ?thesis
    proof (cases "i = root")
      case True
      with that less less_le sift_child_largest [OF b(1), of c xs] c show ?thesis by (auto simp: nth)
    next
      case False
      from False that cc have "c \<noteq> ?c" by auto
      have old: "le (xs ! c) (xs ! i)" using h that False unfolding heap_but_def by blast
      show ?thesis
      proof (cases "c = root")
        case True
        then have "le (xs ! ?c) (xs ! i)" using h that cc c unfolding heap_but_def by blast
        with True False that i c show ?thesis by (simp add: nth)
      qed (use old False that i \<open>c \<noteq> ?c\<close> in \<open>simp add: nth\<close>)
    qed
  qed
  moreover have "le (?ys ! d) (?ys ! p)"
    if "lo \<le> p" "?c = 2 * p + 1 \<or> ?c = 2 * p + 2" "d = 2 * ?c + 1 \<or> d = 2 * ?c + 2" "d \<le> stop" for p d
  proof -
    from that cc have "p = root" by auto
    moreover have "lo \<le> ?c" "?c \<noteq> root" using c b by auto
    with h that have "le (xs ! d) (xs ! ?c)" unfolding heap_but_def by blast
    ultimately show ?thesis using that c by (auto simp: nth)
  qed
  ultimately show ?thesis unfolding heap_but_def by blast
qed

lemma sift_down_heap:
  "heap_but lo root stop xs \<Longrightarrow> lo \<le> root \<Longrightarrow> stop < length xs \<Longrightarrow> heap_from lo stop (sift_down cmp xs root stop)"
proof (induction "Suc stop - root" arbitrary: xs root rule: less_induct)
  case less
  let ?c = "sift_child cmp xs root stop"
  show ?case
  proof (cases "2 * root + 1 \<le> stop \<and> cmp (xs ! root) (xs ! ?c) < 0")
    case True
    then have c: "?c \<le> stop" "root < ?c" using sift_child_bounds by blast+
    have "sift_down cmp xs root stop = sift_down cmp (swap_elems xs root ?c) ?c stop"
      using True by (subst sift_down.simps) simp
    moreover have "heap_from lo stop (sift_down cmp (swap_elems xs root ?c) ?c stop)"
      using c True less.prems sift_step_heap_but [OF less.prems(1)] by (intro less.hyps) auto
    ultimately show ?thesis by simp
  next
    case False
    then have stay: "sift_down cmp xs root stop = xs" by (subst sift_down.simps) auto
    have "le (xs ! c) (xs ! root)" if "c = 2 * root + 1 \<or> c = 2 * root + 2" "c \<le> stop" for c
      using False that sift_child_largest [OF _ that, of xs] le_trans [of "xs ! c" "xs ! ?c" "xs ! root"]
      by (auto simp: le_def)
    then show ?thesis using less.prems unfolding stay heap_but_def heap_from_def by blast
  qed
qed

lemma build_loop_heap:
  "heap_from i stop xs \<Longrightarrow> stop < length xs \<Longrightarrow> heap_from 0 stop (build_loop cmp xs stop i)"
proof (induction i arbitrary: xs)
  case (Suc i)
  then have "heap_but i i stop xs" unfolding heap_but_def heap_from_def by auto
  with Suc sift_down_heap [of i i stop xs] show ?case by simp
qed simp

lemma heap_root_max: "heap_from 0 stop xs \<Longrightarrow> i \<le> stop \<Longrightarrow> le (xs ! i) (xs ! 0)"
proof (induction i rule: less_induct)
  case (less i)
  show ?case
  proof (cases "i = 0")
    case False
    let ?p = "(i - 1) div 2"
    have p: "?p < i" "i = 2 * ?p + 1 \<or> i = 2 * ?p + 2" using False by presburger+
    have "le (xs ! i) (xs ! ?p)" using less.prems p(2) unfolding heap_from_def by blast
    with less.IH [OF p(1)] less.prems p(1) show ?thesis using le_trans by force
  qed (simp add: le_refl)
qed

text \<open>The elements after \<open>e\<close> are in their final places.\<close>

definition placed :: "nat \<Rightarrow> 'a list \<Rightarrow> bool" where
  "placed e xs \<longleftrightarrow> (\<forall>i j. i < j \<and> e < j \<and> j < length xs \<longrightarrow> le (xs ! i) (xs ! j))"

lemma extract_step:
  assumes h: "heap_from 0 (Suc e) xs" and p: "placed (Suc e) xs" and n: "Suc e < length xs"
  defines "zs \<equiv> sift_down cmp (swap_elems xs 0 (Suc e)) 0 e"
  shows "heap_from 0 e zs \<and> placed e zs \<and> length zs = length xs"
proof -
  let ?ys = "swap_elems xs 0 (Suc e)"
  have nth: "?ys ! k = (if k = Suc e then xs ! 0 else if k = 0 then xs ! Suc e else xs ! k)" if "k < length xs" for k
    using that n by (intro swap_elems_nth) auto
  have "heap_but 0 0 e ?ys" using h n unfolding heap_but_def heap_from_def by (auto simp: nth)
  then have heap: "heap_from 0 e zs" unfolding zs_def using n by (intro sift_down_heap) auto
  note frame = sift_down_frame [of e ?ys cmp 0, folded zs_def]
  have len: "length zs = length xs" using frame n by simp
  have high: "zs ! j = ?ys ! j" if "e < j" "j < length xs" for j
    using frame n that len by (metis Suc_leI add_diff_inverse_nat nth_drop not_less swap_elems_length Suc_lessD less_imp_le_nat)
  have low: "\<exists>k \<le> Suc e. zs ! i = xs ! k" if "i \<le> e" for i
  proof -
    have "zs ! i \<in> set (take (Suc e) zs)" using that len n by (auto simp: in_set_conv_nth intro!: exI [of _ i])
    also have "set (take (Suc e) zs) = set (take (Suc e) ?ys)" using frame n by (metis set_mset_mset Suc_lessD swap_elems_length)
    finally obtain k where "k \<le> e" "zs ! i = ?ys ! k" by (force simp: in_set_conv_nth less_Suc_eq_le)
    with n nth [of k] show ?thesis by (intro exI [of _ "if k = 0 then Suc e else k"]) auto
  qed
  have "le (zs ! i) (zs ! j)" if ij: "i < j" "e < j" "j < length xs" for i j
  proof -
    from ij consider "i \<le> e" | "i = Suc e" "Suc e < j" | "Suc e < i" by linarith
    then show ?thesis
    proof cases
      case 1
      from low [OF this] obtain k where k: "k \<le> Suc e" "zs ! i = xs ! k" by blast
      show ?thesis
      proof (cases "j = Suc e")
        case True
        with k h n heap_root_max [of "Suc e" xs k] show ?thesis by (simp add: high nth)
      qed (use k p ij high [of j] nth [of j] in \<open>auto simp: placed_def\<close>)
    qed (use p ij high [of j] high [of i] nth [of j] nth [of i] n in \<open>auto simp: placed_def\<close>)
  qed
  with heap len show ?thesis by (simp add: placed_def)
qed

lemma extract_loop_placed:
  "heap_from 0 e xs \<Longrightarrow> placed e xs \<Longrightarrow> e < length xs \<Longrightarrow> placed 0 (extract_loop cmp xs e)"
proof (induction e arbitrary: xs)
  case (Suc e)
  with extract_step [of e xs] show ?case by simp
qed simp

lemma k_sort_sorted: "sorted_wrt le (k_sort cmp xs)"
proof (cases "length xs < 2")
  case True
  then have "k_sort cmp xs = xs" by (simp add: k_sort_def)
  moreover have "i < j \<Longrightarrow> j < length xs \<Longrightarrow> False" for i j using True by linarith
  ultimately show ?thesis unfolding sorted_wrt_iff_nth_less by auto
next
  case False
  then have n: "length xs - 1 < length xs" by simp
  define ys where "ys = build_loop cmp xs (length xs - 1) ((length xs - 2) div 2 + 1)"
  with build_loop_mset [OF n] have len: "length ys = length xs" by blast
  have "heap_from ((length xs - 2) div 2 + 1) (length xs - 1) xs" unfolding heap_from_def by auto
  then have "heap_from 0 (length xs - 1) ys" unfolding ys_def using n by (rule build_loop_heap)
  then have "placed 0 (extract_loop cmp ys (length xs - 1))"
    using n len by (intro extract_loop_placed) (auto simp: placed_def)
  moreover have "k_sort cmp xs = extract_loop cmp ys (length xs - 1)"
    using False unfolding k_sort_def Let_def ys_def by (simp only: if_False)
  ultimately show ?thesis by (simp add: placed_def sorted_wrt_iff_nth_less)
qed

end

section \<open>The byte comparison is a comparator\<close>

lemma memcmp_loop_diff:
  "memcmp_loop m a b n = bytes_diff (map (\<lambda>i. m (a + of_nat i)) [0..<n]) (map (\<lambda>i. m (b + of_nat i)) [0..<n])"
proof (induction n arbitrary: a b)
  case (Suc n)
  have "map (\<lambda>i. m (x + of_nat i)) [0..<Suc n] = m x # map (\<lambda>i. m (x + 1 + of_nat i)) [0..<n]" for x
    by (simp add: upt_conv_Cons map_Suc_upt [symmetric] add.assoc del: upt_Suc map_Suc_upt)
  with Suc show ?case by simp
qed simp

lemma bytes_diff_less_lex:
  "length xs = length ys \<Longrightarrow> bytes_diff xs ys < 0 \<longleftrightarrow> (xs, ys) \<in> lex {(x, y). x < y}"
proof (induction xs ys rule: bytes_diff.induct)
  case (4 x xs y ys)
  then show ?case by (auto simp: word_less_def)
qed auto

lemma lex_total_order:
  fixes xs ys zs :: "u8 list"
  shows "(xs, ys) \<in> lex {(x, y). x < y} \<Longrightarrow> (ys, xs) \<notin> lex {(x, y). x < y}"
    and "length xs = length ys \<Longrightarrow> length ys = length zs \<Longrightarrow> (ys, xs) \<notin> lex {(x, y). x < y} \<Longrightarrow>
      (zs, ys) \<notin> lex {(x, y). x < y} \<Longrightarrow> (zs, xs) \<notin> lex {(x, y). x < y}"
proof -
  show "(xs, ys) \<in> lex {(x, y). x < y} \<Longrightarrow> (ys, xs) \<notin> lex {(x, y). x < y}"
  proof (induction xs arbitrary: ys)
    case (Cons x xs)
    then show ?case by (cases ys) auto
  qed simp
  show "length xs = length ys \<Longrightarrow> length ys = length zs \<Longrightarrow> (ys, xs) \<notin> lex {(x, y). x < y} \<Longrightarrow>
      (zs, ys) \<notin> lex {(x, y). x < y} \<Longrightarrow> (zs, xs) \<notin> lex {(x, y). x < y}"
  proof (induction xs ys zs rule: list_induct3)
    case (Cons x xs y ys z zs)
    then show ?case by auto
  qed simp
qed

interpretation bytes: comparator "\<lambda>a b. k_memcmp m a b n" for m n
proof
  show "k_memcmp m a b n < 0 \<Longrightarrow> \<not> k_memcmp m b a n < 0" for a b
    using lex_total_order(1) by (simp add: k_memcmp_def memcmp_loop_diff bytes_diff_less_lex)
  show "\<not> k_memcmp m b a n < 0 \<Longrightarrow> \<not> k_memcmp m c b n < 0 \<Longrightarrow> \<not> k_memcmp m c a n < 0" for a b c
    unfolding k_memcmp_def memcmp_loop_diff by (simp add: bytes_diff_less_lex) (rule lex_total_order(2), simp_all)
qed

section \<open>Properties\<close>

text \<open>
  C23: \<^verbatim>\<open>k_sort\<close> sorts: for a comparison that is a strict weak order, the result is a
  permutation of the array in which no element is smaller than one before it.
\<close>

theorem k_sort_correct:
  assumes "comparator cmp"
  shows "mset (k_sort cmp xs) = mset xs \<and>
    (\<forall>i j. i < j \<longrightarrow> j < length xs \<longrightarrow> \<not> cmp (k_sort cmp xs ! j) (k_sort cmp xs ! i) < 0)"
  using k_sort_mset [of cmp xs] comparator.k_sort_sorted [OF assms, of xs] mset_eq_length [OF k_sort_mset [of cmp xs]]
  by (simp add: sorted_wrt_iff_nth_less comparator.le_def [OF assms])

theorem k_sort_correct_witness:
  "\<exists>a b c. k_sort (\<lambda>a b. k_memcmp ex_mem a b 1) [0x1002, 0x1001, 0x1000] = [a, b, c] \<and>
     mset [a, b, c] = mset [0x1002, 0x1001, 0x1000] \<and> \<not> k_memcmp ex_mem b a 1 < 0 \<and> \<not> k_memcmp ex_mem c b 1 < 0"
proof -
  let ?s = "k_sort (\<lambda>a b. k_memcmp ex_mem a b 1) [0x1002, 0x1001, 0x1000]"
  have s: "mset ?s = mset [0x1002, 0x1001, 0x1000]"
    "\<forall>i j. i < j \<longrightarrow> j < 3 \<longrightarrow> \<not> k_memcmp ex_mem (?s ! j) (?s ! i) 1 < 0"
    using k_sort_correct [OF bytes.comparator_axioms [of ex_mem 1], of "[0x1002, 0x1001, 0x1000]"] by simp_all
  from mset_eq_length [OF s(1)] have "length ?s = 3" by simp
  then obtain a b c where abc: "?s = [a, b, c]"
    by (auto simp: numeral_3_eq_3 length_Suc_conv)
  from s(2) [rule_format, of 0 1] s(2) [rule_format, of 1 2] s(1) abc show ?thesis
    by (intro exI [of _ a] exI [of _ b] exI [of _ c]) simp
qed

end
