(* ===== verification/Kprintf.thy ===== *)
theory Kprintf
  imports Drunix_Prelude
begin

text \<open>
  Formatted output: \<^verbatim>\<open>kernel/lib/kprintf.c\<close>.  Strings are character lists without their
  terminator, the output buffer is a character list with a capacity and a write position, and
  the variadic arguments are a list of tagged values.  \<open>None\<close> is undefined behaviour of the C
  code: an argument that is missing or of the wrong kind, a width outside the signed range, or a format
  string that ends inside a conversion, after which the code reads past its terminator.
\<close>

section \<open>Model\<close>

record outbuf =
  ob_buf :: string
  ob_size :: u32
  ob_pos :: u32

datatype fmt_arg = ArgInt u32 | ArgStr "string option" | ArgPtr u32

definition ob_putc :: "outbuf \<Rightarrow> char \<Rightarrow> outbuf" where
  "ob_putc ob c =
     (let ob1 = (if ob_pos ob + 1 < ob_size ob then ob\<lparr>ob_buf := (ob_buf ob)[unat (ob_pos ob) := c]\<rparr> else ob)
      in ob1\<lparr>ob_pos := ob_pos ob1 + 1\<rparr>)"

fun ob_pad_loop :: "outbuf \<Rightarrow> char \<Rightarrow> nat \<Rightarrow> outbuf" where
  "ob_pad_loop ob c 0 = ob"
| "ob_pad_loop ob c (Suc n) = ob_pad_loop (ob_putc ob c) c n"

definition ob_pad :: "outbuf \<Rightarrow> char \<Rightarrow> int \<Rightarrow> outbuf" where
  "ob_pad ob padch count = ob_pad_loop ob padch (nat count)"

definition F_LEFT :: u32 where "F_LEFT = 1"
definition F_ZERO :: u32 where "F_ZERO = 2"
definition F_PLUS :: u32 where "F_PLUS = 4"
definition F_SPACE :: u32 where "F_SPACE = 8"

definition fmt_digit :: "bool \<Rightarrow> u32 \<Rightarrow> char" where
  "fmt_digit upper d = (if upper then ''0123456789ABCDEF'' else ''0123456789abcdef'') ! unat d"

text \<open>The digits in the order the loop stores them, least significant first; the base is 10 or 16.\<close>

function fmt_digits :: "u32 \<Rightarrow> bool \<Rightarrow> u32 \<Rightarrow> string" where
  "fmt_digits base upper v =
     (if v = 0 \<or> base < 2 then [] else fmt_digit upper (v mod base) # fmt_digits base upper (v div base))"
  by pat_completeness auto
termination
proof (relation "measure (\<lambda>(base, upper, v). unat v)")
  fix base :: u32 and upper and v :: u32
  assume "\<not> (v = 0 \<or> base < 2)"
  then have "0 < unat v" "1 < unat base" by (auto simp: unat_gt_0 word_less_nat_alt)
  then show "((base, upper, v div base), base, upper, v) \<in> measure (\<lambda>(base, upper, v). unat v)"
    by (simp add: unat_div_distrib)
qed simp

declare fmt_digits.simps [simp del]

definition ob_puts :: "outbuf \<Rightarrow> string \<Rightarrow> outbuf" where
  "ob_puts ob s = fold (\<lambda>c ob. ob_putc ob c) s ob"

definition fmt_uint ::
  "outbuf \<Rightarrow> u32 \<Rightarrow> u32 \<Rightarrow> bool \<Rightarrow> u32 \<Rightarrow> int \<Rightarrow> char option \<Rightarrow> outbuf" where
  "fmt_uint ob val base upper flags width sign =
     (let tmp = (if val = 0 then ''0'' else fmt_digits base upper val);
          content = int (length tmp) + (if sign \<noteq> None then 1 else 0);
          pad = width - content;
          put_sign = (\<lambda>ob. case sign of Some c \<Rightarrow> ob_putc ob c | None \<Rightarrow> ob)
      in if flags AND F_LEFT \<noteq> 0 then ob_pad (ob_puts (put_sign ob) (rev tmp)) CHR '' '' pad
         else if flags AND F_ZERO \<noteq> 0 then ob_puts (ob_pad (put_sign ob) CHR ''0'' pad) (rev tmp)
         else ob_puts (put_sign (ob_pad ob CHR '' '' pad)) (rev tmp))"

fun hex_loop :: "outbuf \<Rightarrow> u32 \<Rightarrow> nat list \<Rightarrow> outbuf" where
  "hex_loop ob val [] = ob"
| "hex_loop ob val (shift # shifts) =
     hex_loop (ob_putc ob (fmt_digit False (drop_bit shift val AND 0xF))) val shifts"

definition fmt_uintptr_hex :: "outbuf \<Rightarrow> u32 \<Rightarrow> outbuf" where
  "fmt_uintptr_hex ob val = hex_loop ob val [28, 24, 20, 16, 12, 8, 4, 0]"

definition fmt_int :: "outbuf \<Rightarrow> u32 \<Rightarrow> u32 \<Rightarrow> int \<Rightarrow> outbuf" where
  "fmt_int ob val flags width =
     (let (sign, uval) =
        (if sint val < 0 then (Some CHR ''-'', - val)
         else (if flags AND F_PLUS \<noteq> 0 then Some CHR ''+''
               else if flags AND F_SPACE \<noteq> 0 then Some CHR '' '' else None, val))
      in fmt_uint ob uval 10 False flags (if sign \<noteq> None then width - 1 else width) sign)"

definition fmt_str :: "outbuf \<Rightarrow> string option \<Rightarrow> u32 \<Rightarrow> int \<Rightarrow> outbuf" where
  "fmt_str ob s flags width =
     (let s1 = (case s of Some t \<Rightarrow> t | None \<Rightarrow> ''(null)'');
          pad = width - int (length s1)
      in if flags AND F_LEFT \<noteq> 0 then ob_pad (ob_puts ob s1) CHR '' '' pad
         else ob_puts (ob_pad ob CHR '' '' pad) s1)"

fun fmt_flags :: "string \<Rightarrow> u32 \<Rightarrow> u32 \<times> string" where
  "fmt_flags [] flags = (flags, [])"
| "fmt_flags (c # cs) flags =
     (if c = CHR ''-'' then fmt_flags cs (flags OR F_LEFT)
      else if c = CHR ''0'' then fmt_flags cs (flags OR F_ZERO)
      else if c = CHR ''+'' then fmt_flags cs (flags OR F_PLUS)
      else if c = CHR '' '' then fmt_flags cs (flags OR F_SPACE)
      else (flags, c # cs))"

definition digit_value :: "char \<Rightarrow> int option" where
  "digit_value c = (let n = of_char c in if 48 \<le> n \<and> n \<le> 57 then Some (n - 48) else None)"

fun fmt_width :: "string \<Rightarrow> int \<Rightarrow> (int \<times> string) option" where
  "fmt_width [] w = Some (w, [])"
| "fmt_width (c # cs) w =
     (case digit_value c of
        Some d \<Rightarrow> if w * 10 + d \<le> 0x7FFFFFFF then fmt_width cs (w * 10 + d) else None
      | None \<Rightarrow> Some (w, c # cs))"

text \<open>The text after a percent sign: flags, width, length modifier and conversion.\<close>

definition fmt_width_arg :: "string \<Rightarrow> fmt_arg list \<Rightarrow> u32 \<Rightarrow> (int \<times> u32 \<times> string \<times> fmt_arg list) option" where
  "fmt_width_arg fmt args flags =
     (if fmt \<noteq> [] \<and> hd fmt = CHR ''*'' then
        (case args of
           ArgInt v # args1 \<Rightarrow>
             (let w = sint v in
              if w = - 0x80000000 then None
              else if w < 0 then Some (- w, flags OR F_LEFT, tl fmt, args1)
              else Some (w, flags, tl fmt, args1))
         | _ \<Rightarrow> None)
      else case fmt_width fmt 0 of None \<Rightarrow> None | Some (w, rest) \<Rightarrow> Some (w, flags, rest, args))"

definition fmt_char :: "outbuf \<Rightarrow> char \<Rightarrow> u32 \<Rightarrow> int \<Rightarrow> outbuf" where
  "fmt_char ob ch flags width =
     (if flags AND F_LEFT \<noteq> 0 then ob_pad (ob_putc ob ch) CHR '' '' (width - 1)
      else ob_putc (ob_pad ob CHR '' '' (width - 1)) ch)"

definition fmt_conv ::
  "outbuf \<Rightarrow> char \<Rightarrow> u32 \<Rightarrow> int \<Rightarrow> fmt_arg list \<Rightarrow> (outbuf \<times> fmt_arg list) option" where
  "fmt_conv ob c flags width args =
     (if c = CHR ''d'' \<or> c = CHR ''i'' then
        (case args of ArgInt v # as \<Rightarrow> Some (fmt_int ob v flags width, as) | _ \<Rightarrow> None)
      else if c = CHR ''u'' then
        (case args of ArgInt v # as \<Rightarrow> Some (fmt_uint ob v 10 False flags width None, as) | _ \<Rightarrow> None)
      else if c = CHR ''x'' then
        (case args of ArgInt v # as \<Rightarrow> Some (fmt_uint ob v 16 False flags width None, as) | _ \<Rightarrow> None)
      else if c = CHR ''X'' then
        (case args of ArgInt v # as \<Rightarrow> Some (fmt_uint ob v 16 True flags width None, as) | _ \<Rightarrow> None)
      else if c = CHR ''p'' then
        (case args of ArgPtr v # as \<Rightarrow>
           Some (fmt_uintptr_hex (ob_putc (ob_putc ob CHR ''0'') CHR ''x'') v, as) | _ \<Rightarrow> None)
      else if c = CHR ''s'' then
        (case args of ArgStr s # as \<Rightarrow> Some (fmt_str ob s flags width, as) | _ \<Rightarrow> None)
      else if c = CHR ''c'' then
        (case args of ArgInt v # as \<Rightarrow> Some (fmt_char ob (char_of (unat (ucast v :: u8))) flags width, as)
         | _ \<Rightarrow> None)
      else if c = CHR ''%'' then Some (ob_putc ob CHR ''%'', args)
      else Some (ob_putc ob CHR ''?'', args))"

definition fmt_length :: "string \<Rightarrow> string" where
  "fmt_length fmt = (if fmt \<noteq> [] \<and> hd fmt = CHR ''l'' then tl fmt else fmt)"

definition fmt_spec ::
  "outbuf \<Rightarrow> string \<Rightarrow> fmt_arg list \<Rightarrow> (outbuf \<times> string \<times> fmt_arg list) option" where
  "fmt_spec ob fmt args =
     (case fmt_flags fmt 0 of (flags, fmt1) \<Rightarrow>
      case fmt_width_arg fmt1 args flags of
        None \<Rightarrow> None
      | Some (width, flags1, fmt2, args1) \<Rightarrow>
          (case fmt_length fmt2 of
             [] \<Rightarrow> None
           | c # rest \<Rightarrow>
               (case fmt_conv ob c flags1 width args1 of
                  None \<Rightarrow> None
                | Some (ob1, args2) \<Rightarrow> Some (ob1, rest, args2))))"

lemma fmt_flags_length: "length (snd (fmt_flags s f)) \<le> length s"
proof (induction s f rule: fmt_flags.induct)
  case (2 c cs f)
  then show ?case by (auto intro: le_SucI)
qed simp

lemma fmt_width_length: "fmt_width s w = Some (v, rest) \<Longrightarrow> length rest \<le> length s"
  by (induction s w rule: fmt_width.induct) (auto split: option.splits if_splits intro: le_SucI)

lemma fmt_width_arg_length:
  "fmt_width_arg s as f = Some (w, f', rest, as') \<Longrightarrow> length rest \<le> length s"
  by (auto simp: fmt_width_arg_def Let_def dest: fmt_width_length
      split: if_splits list.splits fmt_arg.splits option.splits)

lemma fmt_length_cons: "fmt_length s = c # rest \<Longrightarrow> length rest < length s"
  by (cases s) (auto simp: fmt_length_def split: if_splits)

lemma fmt_spec_length:
  assumes "fmt_spec ob fmt args = Some (ob', rest, args')"
  shows "length rest < length fmt"
proof -
  obtain f s1 where s1: "fmt_flags fmt 0 = (f, s1)" by force
  from assms s1 obtain w f' s2 as c where s2: "fmt_width_arg s1 args f = Some (w, f', s2, as)"
    and r: "fmt_length s2 = c # rest"
    by (auto simp: fmt_spec_def split: list.split_asm option.split_asm)
  from fmt_flags_length [of fmt 0] fmt_width_arg_length [OF s2] s1 fmt_length_cons [OF r]
  show ?thesis by simp
qed

function vsnprintf_loop :: "outbuf \<Rightarrow> string \<Rightarrow> fmt_arg list \<Rightarrow> outbuf option" where
  "vsnprintf_loop ob [] args = Some ob"
| "vsnprintf_loop ob (c # cs) args =
     (if c \<noteq> CHR ''%'' then vsnprintf_loop (ob_putc ob c) cs args
      else case fmt_spec ob cs args of
        None \<Rightarrow> None
      | Some (ob1, rest, args1) \<Rightarrow> vsnprintf_loop ob1 rest args1)"
  by pat_completeness auto
termination
  by (relation "measure (\<lambda>(ob, fmt, args). length fmt)") (auto dest: fmt_spec_length intro: less_SucI)

definition NUL :: char where "NUL = CHR 0x00"

definition k_vsnprintf :: "string \<Rightarrow> u32 \<Rightarrow> string \<Rightarrow> fmt_arg list \<Rightarrow> (string \<times> u32) option" where
  "k_vsnprintf buf n fmt args = do {
     ob \<leftarrow> vsnprintf_loop \<lparr>ob_buf = buf, ob_size = n, ob_pos = 0\<rparr> fmt args;
     let buf1 = (if 0 < n then (ob_buf ob)[unat (if ob_pos ob < n then ob_pos ob else n - 1) := NUL]
                 else ob_buf ob);
     Some (buf1, ob_pos ob)
   }"

text \<open>The C string in a character buffer.\<close>

definition c_text :: "string \<Rightarrow> string" where
  "c_text s = takeWhile (\<lambda>c. c \<noteq> NUL) s"

definition k_snprintf :: "string \<Rightarrow> u32 \<Rightarrow> string \<Rightarrow> fmt_arg list \<Rightarrow> (string \<times> u32) option" where
  "k_snprintf buf n fmt args = k_vsnprintf buf n fmt args"

section \<open>Reference: the formatted text\<close>

text \<open>What a conversion prints, with no buffer: a field of a sign, a body and padding.\<close>

definition field :: "u32 \<Rightarrow> bool \<Rightarrow> int \<Rightarrow> string \<Rightarrow> string \<Rightarrow> string" where
  "field flags zeros width sign body =
     (let pad = nat (width - int (length sign + length body)) in
      if flags AND F_LEFT \<noteq> 0 then sign @ body @ replicate pad CHR '' ''
      else if zeros \<and> flags AND F_ZERO \<noteq> 0 then sign @ replicate pad CHR ''0'' @ body
      else replicate pad CHR '' '' @ sign @ body)"

definition number :: "u32 \<Rightarrow> bool \<Rightarrow> u32 \<Rightarrow> string" where
  "number base upper v = (if v = 0 then ''0'' else rev (fmt_digits base upper v))"

definition sign_of :: "u32 \<Rightarrow> u32 \<Rightarrow> string" where
  "sign_of flags v =
     (if sint v < 0 then ''-'' else if flags AND F_PLUS \<noteq> 0 then ''+''
      else if flags AND F_SPACE \<noteq> 0 then '' '' else [])"

definition pointer_text :: "u32 \<Rightarrow> string" where
  "pointer_text v = ''0x'' @ map (\<lambda>i. fmt_digit False (drop_bit (4 * i) v AND 0xF)) (rev [0..<8])"

fun conv_text :: "char \<Rightarrow> u32 \<Rightarrow> int \<Rightarrow> fmt_arg \<Rightarrow> string option" where
  "conv_text c flags width (ArgInt v) =
     (if c = CHR ''d'' \<or> c = CHR ''i'' then
        Some (let s = sign_of flags v in
              field flags True (width - int (length s)) s (number 10 False (if sint v < 0 then - v else v)))
      else if c = CHR ''u'' then Some (field flags True width [] (number 10 False v))
      else if c = CHR ''x'' then Some (field flags True width [] (number 16 False v))
      else if c = CHR ''X'' then Some (field flags True width [] (number 16 True v))
      else if c = CHR ''c'' then Some (field flags False width [] [char_of (unat (ucast v :: u8))])
      else None)"
| "conv_text c flags width (ArgStr s) =
     (if c = CHR ''s'' then Some (field flags False width [] (case s of Some t \<Rightarrow> t | None \<Rightarrow> ''(null)''))
      else None)"
| "conv_text c flags width (ArgPtr v) = (if c = CHR ''p'' then Some (pointer_text v) else None)"

definition spec_text :: "string \<Rightarrow> fmt_arg list \<Rightarrow> (string \<times> string \<times> fmt_arg list) option" where
  "spec_text fmt args =
     (case fmt_flags fmt 0 of (flags, fmt1) \<Rightarrow>
      case fmt_width_arg fmt1 args flags of
        None \<Rightarrow> None
      | Some (width, flags1, fmt2, args1) \<Rightarrow>
          (case fmt_length fmt2 of
             [] \<Rightarrow> None
           | c # rest \<Rightarrow>
               (if c \<in> set ''diuxXcsp'' then
                  (case args1 of
                     [] \<Rightarrow> None
                   | a # args2 \<Rightarrow> map_option (\<lambda>t. (t, rest, args2)) (conv_text c flags1 width a))
                else Some (if c = CHR ''%'' then ''%'' else ''?'', rest, args1))))"

section \<open>Writing through the bounded buffer\<close>

lemma ob_puts_simps [simp]:
  "ob_puts ob [] = ob"
  "ob_puts ob (c # s) = ob_puts (ob_putc ob c) s"
  by (simp_all add: ob_puts_def)

lemma ob_puts_append [simp]: "ob_puts ob (s @ t) = ob_puts (ob_puts ob s) t"
  by (simp add: ob_puts_def)

lemma ob_pad_puts [simp]: "ob_pad ob c n = ob_puts ob (replicate (nat n) c)"
proof -
  have "ob_pad_loop ob c k = ob_puts ob (replicate k c)" for k
    by (induction k arbitrary: ob) simp_all
  then show ?thesis by (simp add: ob_pad_def)
qed

lemma ob_puts_pos [simp]: "ob_pos (ob_puts ob s) = ob_pos ob + of_nat (length s)"
  by (induction s arbitrary: ob) (auto simp: ob_putc_def Let_def)

lemma ob_puts_size [simp]: "ob_size (ob_puts ob s) = ob_size ob"
  by (induction s arbitrary: ob) (auto simp: ob_putc_def Let_def)

lemma ob_puts_length [simp]: "length (ob_buf (ob_puts ob s)) = length (ob_buf ob)"
  by (induction s arbitrary: ob) (auto simp: ob_putc_def Let_def)

text \<open>What a bounded write leaves in the buffer, byte by byte.\<close>

lemma ob_puts_nth:
  assumes "unat (ob_pos ob) + length s < 2 ^ 32" and "unat (ob_size ob) \<le> length (ob_buf ob)"
    and "i < length (ob_buf ob)"
  shows "ob_buf (ob_puts ob s) ! i =
    (if unat (ob_pos ob) \<le> i \<and> i < unat (ob_pos ob) + length s \<and> i + 1 < unat (ob_size ob)
     then s ! (i - unat (ob_pos ob)) else ob_buf ob ! i)"
  using assms
proof (induction s arbitrary: ob)
  case (Cons c s)
  have p: "unat (ob_pos ob + 1) = unat (ob_pos ob) + 1"
    using Cons.prems(1) by (simp add: unat_word_ariths)
  have pos: "unat (ob_pos (ob_putc ob c)) = unat (ob_pos ob) + 1"
    and sz: "ob_size (ob_putc ob c) = ob_size ob"
    and len: "length (ob_buf (ob_putc ob c)) = length (ob_buf ob)"
    using p by (auto simp: ob_putc_def Let_def)
  have buf: "ob_buf (ob_putc ob c) ! i =
     (if i = unat (ob_pos ob) \<and> i + 1 < unat (ob_size ob) then c else ob_buf ob ! i)"
    using Cons.prems p by (auto simp: ob_putc_def Let_def word_less_nat_alt nth_list_update)
  show ?case
    using Cons.IH [of "ob_putc ob c"] Cons.prems buf
    by (auto simp: pos sz len nth_Cons' Suc_le_eq split: if_splits)
qed auto

section \<open>Every conversion appends its text\<close>

lemma fmt_uint_text:
  "fmt_uint ob v base upper flags width sign =
     ob_puts ob (field flags True width (case sign of Some c \<Rightarrow> [c] | None \<Rightarrow> []) (number base upper v))"
  by (cases sign) (auto simp: fmt_uint_def field_def number_def Let_def add.commute)

lemma fmt_int_text:
  "fmt_int ob v flags width =
     ob_puts ob (field flags True (width - int (length (sign_of flags v))) (sign_of flags v)
       (number 10 False (if sint v < 0 then - v else v)))"
  by (auto simp: fmt_int_def fmt_uint_text sign_of_def)

lemma fmt_str_text:
  "fmt_str ob s flags width =
     ob_puts ob (field flags False width [] (case s of Some t \<Rightarrow> t | None \<Rightarrow> ''(null)''))"
  by (auto simp: fmt_str_def field_def Let_def)

lemma fmt_char_text:
  "fmt_char ob c flags width = ob_puts ob (field flags False width [] [c])"
  by (auto simp: fmt_char_def field_def Let_def)

lemma fmt_pointer_text:
  "fmt_uintptr_hex (ob_putc (ob_putc ob CHR ''0'') CHR ''x'') v = ob_puts ob (pointer_text v)"
  by (simp add: fmt_uintptr_hex_def pointer_text_def upt_rec)

lemmas fmt_texts = fmt_uint_text fmt_int_text fmt_str_text fmt_char_text fmt_pointer_text

lemma fmt_conv_text:
  "fmt_conv ob c flags width args =
     (if c \<in> set ''diuxXcsp'' then
        (case args of [] \<Rightarrow> None
         | a # as \<Rightarrow> map_option (\<lambda>t. (ob_puts ob t, as)) (conv_text c flags width a))
      else Some (ob_puts ob (if c = CHR ''%'' then ''%'' else ''?''), args))"
proof (cases args)
  case (Cons a as)
  then show ?thesis by (cases a) (auto simp: fmt_conv_def fmt_texts Let_def)
qed (auto simp: fmt_conv_def)

lemma fmt_spec_text:
  "fmt_spec ob fmt args = map_option (\<lambda>(t, rest, as). (ob_puts ob t, rest, as)) (spec_text fmt args)"
  by (auto simp: fmt_spec_def spec_text_def fmt_conv_text option.map_comp comp_def
      split: option.splits list.splits prod.splits)

lemma spec_text_length: "spec_text fmt args = Some (t, rest, as) \<Longrightarrow> length rest < length fmt"
  using fmt_spec_length [of undefined fmt args] by (simp add: fmt_spec_text)

function fmt_text :: "string \<Rightarrow> fmt_arg list \<Rightarrow> string option" where
  "fmt_text [] args = Some []"
| "fmt_text (c # cs) args =
     (if c \<noteq> CHR ''%'' then map_option (Cons c) (fmt_text cs args)
      else case spec_text cs args of
        None \<Rightarrow> None
      | Some (t, rest, args1) \<Rightarrow> map_option (append t) (fmt_text rest args1))"
  by pat_completeness auto
termination
  by (relation "measure (\<lambda>(fmt, args). length fmt)") (auto dest: spec_text_length intro: less_SucI)

lemma vsnprintf_loop_text:
  "vsnprintf_loop ob fmt args = map_option (ob_puts ob) (fmt_text fmt args)"
proof (induction ob fmt args rule: vsnprintf_loop.induct)
  case (2 ob c cs args)
  then show ?case
    by (auto simp: fmt_spec_text option.map_comp comp_def split: option.splits)
qed (simp add: option.map_comp)

lemma k_vsnprintf_text:
  assumes t: "fmt_text fmt args = Some t" and "length t < 2 ^ 32" and "unat n \<le> length buf"
  shows "k_vsnprintf buf n fmt args =
    Some (if n = 0 then buf
          else take (unat n - 1) t @ NUL # drop (min (length t) (unat n - 1) + 1) buf, of_nat (length t))"
proof (cases "n = 0")
  case True
  let ?ob = "\<lparr>ob_buf = buf, ob_size = n, ob_pos = 0\<rparr>"
  have "ob_buf (ob_puts ?ob t) = buf"
    using assms True by (intro nth_equalityI) (auto simp: ob_puts_nth)
  with t True show ?thesis by (simp add: k_vsnprintf_def vsnprintf_loop_text)
next
  case False
  let ?ob = "\<lparr>ob_buf = buf, ob_size = n, ob_pos = 0\<rparr>" and ?k = "min (length t) (unat n - 1)"
  from False have n0: "0 < n" by (simp add: word_gt_0)
  then have n1: "0 < unat n" by (simp add: unat_gt_0)
  have idx: "unat (if of_nat (length t) < n then of_nat (length t) else n - 1) = ?k"
    using assms(2) n0 n1 by (auto simp: word_less_nat_alt unat_of_nat unat_sub_if' )
  have "(ob_buf (ob_puts ?ob t))[?k := NUL] = take (unat n - 1) t @ NUL # drop (?k + 1) buf"
    using assms n1 by (intro nth_equalityI) (auto simp: ob_puts_nth nth_list_update nth_append nth_Cons')
  moreover have "k_vsnprintf buf n fmt args = Some ((ob_buf (ob_puts ?ob t))[
      unat (if of_nat (length t) < n then of_nat (length t) else n - 1) := NUL], of_nat (length t))"
    using t n0 by (simp add: k_vsnprintf_def vsnprintf_loop_text)
  ultimately show ?thesis using False idx by simp
qed

lemma c_text_append: "NUL \<notin> set s \<Longrightarrow> c_text (s @ NUL # t) = s"
  by (auto simp: c_text_def takeWhile_append)

section \<open>Numbers\<close>

definition read_digits :: "string \<Rightarrow> int" where
  "read_digits s = fold (\<lambda>c a. a * 10 + (case digit_value c of Some d \<Rightarrow> d | None \<Rightarrow> 0)) s 0"

definition read_int :: "string \<Rightarrow> int" where
  "read_int s = (if s \<noteq> [] \<and> hd s = CHR ''-'' then - read_digits (tl s) else read_digits s)"

lemma digit_value_fmt_digit:
  assumes "d < 10"
  shows "digit_value (fmt_digit upper d) = Some (uint d)" and "fmt_digit upper d \<noteq> CHR ''-''"
proof -
  have *: "k \<in> {0, 1, 2, 3, 4, 5, 6, 7, 8, 9} \<Longrightarrow>
      digit_value ((if upper then ''0123456789ABCDEF'' else ''0123456789abcdef'') ! k) = Some (int k) \<and>
      (if upper then ''0123456789ABCDEF'' else ''0123456789abcdef'') ! k \<noteq> CHR ''-''" for k
    by (auto simp: digit_value_def)
  from assms have "unat d < 10" by (simp add: word_less_nat_alt)
  then have "unat d \<in> {0, 1, 2, 3, 4, 5, 6, 7, 8, 9}" by auto
  from * [OF this] have "digit_value (fmt_digit upper d) = Some (int (unat d)) \<and> fmt_digit upper d \<noteq> CHR ''-''"
    by (simp add: fmt_digit_def)
  then show "digit_value (fmt_digit upper d) = Some (uint d)" and "fmt_digit upper d \<noteq> CHR ''-''"
    by simp_all
qed

lemma read_digits_rev: "read_digits (rev (fmt_digits 10 upper v)) = uint v"
proof (induction "10 :: u32" upper v rule: fmt_digits.induct)
  case (1 upper v)
  show ?case
  proof (cases "v = 0")
    case True
    then show ?thesis by (simp add: fmt_digits.simps read_digits_def)
  next
    case False
    have "v mod 10 < 10" by (simp add: word_less_def uint_mod)
    then show ?thesis
      using 1 False digit_value_fmt_digit(1) [of "v mod 10" upper]
      by (subst fmt_digits.simps) (simp add: read_digits_def uint_div uint_mod)
  qed
qed

lemma fmt_digits_chars: "c \<in> set (fmt_digits 10 upper v) \<Longrightarrow> digit_value c \<noteq> None"
proof (induction "10 :: u32" upper v rule: fmt_digits.induct)
  case (1 upper v)
  have "v mod 10 < 10" by (simp add: word_less_def uint_mod)
  from digit_value_fmt_digit(1) [OF this] 1 show ?case
    by (subst (asm) (2) fmt_digits.simps) (auto split: if_splits)
qed

lemma number_chars: "c \<in> set (number 10 upper v) \<Longrightarrow> digit_value c \<noteq> None"
  by (auto simp: number_def digit_value_def [of "CHR ''0''"] split: if_splits dest: fmt_digits_chars)

lemma fmt_digits_length: "uint v < 10 ^ k \<Longrightarrow> length (fmt_digits 10 upper v) \<le> k"
proof (induction k arbitrary: v)
  case 0
  then have "uint v < 1" by simp
  with uint_ge_0 [of v] have "uint v = 0" by linarith
  then have "v = 0" by (simp add: uint_0_iff)
  then show ?case by (simp add: fmt_digits.simps)
next
  case (Suc k)
  then have "uint (v div 10) < 10 ^ k" by (simp add: uint_div)
  with Suc.IH [of "v div 10"] show ?case by (subst fmt_digits.simps) auto
qed

lemma number_length: "length (number 10 upper v) \<le> 10"
proof -
  have "uint v < 10 ^ 10" using uint_lt2p [of v] by simp
  from fmt_digits_length [OF this] show ?thesis by (auto simp: number_def)
qed

lemma number_hd: "number 10 upper v \<noteq> []" "hd (number 10 upper v) \<noteq> CHR ''-''"
proof -
  show ne: "number 10 upper v \<noteq> []" by (auto simp: number_def fmt_digits.simps [of 10 upper v])
  from number_chars [OF hd_in_set [OF ne]] show "hd (number 10 upper v) \<noteq> CHR ''-''"
    by (auto simp: digit_value_def)
qed

lemma read_number: "read_digits (number 10 upper v) = uint v"
  by (simp add: number_def read_digits_rev) (simp add: read_digits_def digit_value_def)

lemma conv_chars:
  "list_all (\<lambda>c. digit_value c = None \<and> c \<noteq> CHR ''-'' \<and> c \<noteq> CHR ''0'' \<and> c \<noteq> CHR ''+'' \<and>
     c \<noteq> CHR '' '' \<and> c \<noteq> CHR ''*'' \<and> c \<noteq> CHR ''l'') ''diuxXcsp''"
  by (simp add: digit_value_def)

lemma spec_text_conv:
  assumes "c \<in> set ''diuxXcsp''"
  shows "spec_text (c # fmt) (a # as) = map_option (\<lambda>t. (t, fmt, as)) (conv_text c 0 0 a)"
proof -
  from conv_chars assms have d: "digit_value c = None" "c \<noteq> CHR ''-''" "c \<noteq> CHR ''0''" "c \<noteq> CHR ''+''"
    "c \<noteq> CHR '' ''" "c \<noteq> CHR ''*''" "c \<noteq> CHR ''l''"
    unfolding list_all_iff by blast+
  then have f: "fmt_flags (c # fmt) 0 = (0, c # fmt)" and w: "fmt_width (c # fmt) 0 = Some (0, c # fmt)" by simp_all
  have "fmt_width_arg (c # fmt) (a # as) 0 = Some (0, 0, c # fmt, a # as)"
    using d(6) w by (simp add: fmt_width_arg_def)
  moreover have "fmt_length (c # fmt) = c # fmt" using d(7) by (simp add: fmt_length_def)
  ultimately show ?thesis unfolding spec_text_def f using assms by (simp only: prod.case option.case list.case if_True)
qed

lemma field_plain [simp]: "field 0 z w s b = replicate (nat (w - int (length s + length b))) CHR '' '' @ s @ b"
  by (simp add: field_def)

lemma sint_by_sign: "sint (v :: u32) = (if sint v < 0 then - uint (- v) else uint v)"
proof -
  have s: "sint v = (uint v + 2 ^ 31) mod 2 ^ 32 - 2 ^ 31"
    by (simp add: sint_uint signed_take_bit_eq_take_bit_shift take_bit_eq_mod)
  have n: "uint (- v) = (- uint v) mod 2 ^ 32" by (simp add: uint_word_ariths)
  have b: "0 \<le> uint v" "uint v < 2 ^ 32" using uint_lt2p [of v] by simp_all
  show ?thesis
  proof (cases "uint v < 2 ^ 31")
    case True
    with b have "(uint v + 2 ^ 31) mod 2 ^ 32 = uint v + 2 ^ 31" by (intro mod_pos_pos_trivial) simp_all
    with s b show ?thesis by simp
  next
    case False
    have "(uint v + 2 ^ 31) mod 2 ^ 32 = (uint v + 2 ^ 31 - 2 ^ 32) mod 2 ^ 32"
      by (simp only: minus_mod_self2)
    also have "\<dots> = uint v + 2 ^ 31 - 2 ^ 32" using False b by (intro mod_pos_pos_trivial) simp_all
    finally have "sint v = uint v - 2 ^ 32" using s by simp
    moreover have "(- uint v) mod 2 ^ 32 = (- uint v + 2 ^ 32) mod 2 ^ 32" by (simp only: mod_add_self2)
    then have "uint (- v) = (2 ^ 32 - uint v) mod 2 ^ 32" unfolding n by (simp only: add.commute diff_conv_add_uminus)
    then have "uint (- v) = 2 ^ 32 - uint v" using False b
      by (subst (asm) mod_pos_pos_trivial) simp_all
    ultimately show ?thesis using b by simp
  qed
qed

section \<open>Properties\<close>

text \<open>
  C20: formatting never leaves the caller's buffer: whatever the format prints (\<open>fmt_text\<close>, the
  text with no bound), k_vsnprintf returns its full length, stores the first size - 1
  characters of it and a terminator, and leaves the rest of the buffer alone; with size 0
  nothing is stored.\<close>

theorem k_vsnprintf_truncates:
  assumes "fmt_text fmt args = Some t" and "length t < 2 ^ 32" and "unat n \<le> length buf"
  shows "k_vsnprintf buf n fmt args =
    Some (if n = 0 then buf
          else take (unat n - 1) t @ NUL # drop (min (length t) (unat n - 1) + 1) buf, of_nat (length t))"
  by (rule k_vsnprintf_text [OF assms])

theorem k_vsnprintf_truncates_witness:
  "k_vsnprintf ''........'' 5 ''%s%u!'' [ArgStr (Some ''sd''), ArgInt 12] = Some (''sd12'' @ NUL # ''...'', 5)"
proof -
  have d: "fmt_digits 10 False 12 = ''21''"
    by (simp add: fmt_digits.simps [of 10 False 12] fmt_digits.simps [of 10 False 1]
        fmt_digits.simps [of 10 False 0] fmt_digit_def)
  have "fmt_text ''%s%u!'' [ArgStr (Some ''sd''), ArgInt 12] = Some ''sd12!''"
    by (simp add: spec_text_conv number_def d)
  from k_vsnprintf_truncates [OF this, of 5 "''........''"] show ?thesis by simp
qed

text \<open>
  C21: decimal output reads back: "%d" of any 32-bit value gives at most 11 characters, and
  reading them as a signed decimal number gives the value, the most negative one included.\<close>

theorem decimal_roundtrip:
  assumes "12 \<le> length buf"
  shows "\<exists>t. k_vsnprintf buf 12 ''%d'' [ArgInt v] =
      Some (t @ NUL # drop (length t + 1) buf, of_nat (length t)) \<and> length t \<le> 11 \<and> read_int t = sint v"
proof -
  let ?u = "if sint v < 0 then - v else v"
  let ?t = "sign_of 0 v @ number 10 False ?u"
  have t: "fmt_text ''%d'' [ArgInt v] = Some ?t" by (simp add: spec_text_conv sign_of_def)
  have len: "length ?t \<le> 11" using number_length [of False ?u] by (auto simp: sign_of_def)
  have "sint v = (if sint v < 0 then - uint (- v) else uint v)"
    by (rule sint_by_sign)
  then have "read_int ?t = sint v"
    using number_hd [of False ?u] read_number [of False ?u]
    by (auto simp: read_int_def sign_of_def hd_append)
  with k_vsnprintf_text [OF t, of 12 buf] len assms show ?thesis
    by (intro exI [of _ ?t]) (simp add: min_def)
qed

theorem decimal_roundtrip_witness:
  "\<exists>t. k_vsnprintf (replicate 12 CHR ''.'') 12 ''%d'' [ArgInt 0x80000000] =
      Some (t @ NUL # drop (length t + 1) (replicate 12 CHR ''.''), of_nat (length t)) \<and>
    length t \<le> 11 \<and> read_int t = - 0x80000000"
  using decimal_roundtrip [of "replicate 12 CHR ''.''" "0x80000000"] by simp



end
