(* ===== verification/Klog.thy ===== *)
theory Klog
  imports Kprintf
begin

text \<open>
  The kernel log: \<^verbatim>\<open>kernel/lib/klog.c\<close>.  A record keeps the text of its tag and message (the
  characters before the terminator of the fixed arrays).  The two sinks, the console and the
  debug port, are the texts written to them so far.  \<open>None\<close> is undefined behaviour, which the
  theorems exclude.  \<open>None\<close> as a string argument is the null pointer.
\<close>

section \<open>Model\<close>

record klog_record =
  kr_ticks :: u32
  kr_level :: u8
  kr_tag :: string
  kr_msg :: string

record klog_state =
  klog_ring :: "klog_record list"
  klog_head :: u32
  klog_count :: u32
  klog_console :: string
  klog_debugcon :: string

definition KLOG_RING_CAP :: u32 where "KLOG_RING_CAP = 96"
definition KLOG_TAG_CAP :: nat where "KLOG_TAG_CAP = 16"
definition KLOG_MSG_CAP :: nat where "KLOG_MSG_CAP = 96"
definition SCHED_HZ :: u32 where "SCHED_HZ = 100"
definition KLOG_LEVEL_INFO :: u8 where "KLOG_LEVEL_INFO = 1"

definition klog_debugcon_puts :: "klog_state \<Rightarrow> string \<Rightarrow> klog_state" where
  "klog_debugcon_puts st s = st\<lparr>klog_debugcon := klog_debugcon st @ s\<rparr>"

definition klog_puts :: "klog_state \<Rightarrow> string \<Rightarrow> klog_state" where
  "klog_puts st s = klog_debugcon_puts (st\<lparr>klog_console := klog_console st @ s\<rparr>) s"

definition klog_puts_silent :: "klog_state \<Rightarrow> string \<Rightarrow> klog_state" where
  "klog_puts_silent st s = klog_debugcon_puts st s"

definition klog_level_name :: "u8 \<Rightarrow> string" where
  "klog_level_name level =
     (if level = 0 then ''DEBUG'' else if level = 1 then ''INFO'' else if level = 2 then ''WARN''
      else if level = 3 then ''ERROR'' else ''INFO'')"

definition klog_store_record :: "klog_state \<Rightarrow> klog_record \<Rightarrow> klog_state" where
  "klog_store_record st rec =
     (let st1 = st\<lparr>klog_ring := (klog_ring st)[unat (klog_head st) := rec],
                   klog_head := (klog_head st + 1) mod KLOG_RING_CAP\<rparr>
      in if klog_count st1 < KLOG_RING_CAP then st1\<lparr>klog_count := klog_count st1 + 1\<rparr> else st1)"

definition klog_format_line ::
  "string \<Rightarrow> u32 \<Rightarrow> u32 \<Rightarrow> u8 \<Rightarrow> string \<Rightarrow> string \<Rightarrow> (string \<times> u32) option" where
  "klog_format_line buf cap ticks level tag msg =
     (let secs = ticks div SCHED_HZ;
          ms = ((ticks mod SCHED_HZ) * 1000) div SCHED_HZ
      in k_snprintf buf cap (''[%u.%03u] %s [%s] %s'' @ [CHR 0x0A])
           [ArgInt secs, ArgInt ms, ArgStr (Some (klog_level_name level)), ArgStr (Some tag), ArgStr (Some msg)])"

definition klog_snapshot_start :: "klog_state \<Rightarrow> u32" where
  "klog_snapshot_start st = (if klog_count st < KLOG_RING_CAP then 0 else klog_head st)"

definition klog_record_at :: "klog_state \<Rightarrow> u32 \<Rightarrow> klog_record" where
  "klog_record_at st logical_index =
     klog_ring st ! unat ((klog_snapshot_start st + logical_index) mod KLOG_RING_CAP)"

text \<open>The text a call leaves in its own 160-byte line buffer.\<close>

definition klog_line :: "klog_record \<Rightarrow> string option" where
  "klog_line rec = do {
     (line, n) \<leftarrow> klog_format_line (replicate 160 NUL) 160 (kr_ticks rec) (kr_level rec) (kr_tag rec) (kr_msg rec);
     Some (c_text line)
   }"

definition klog_emit_record :: "klog_state \<Rightarrow> klog_record \<Rightarrow> klog_state option" where
  "klog_emit_record st rec = do { line \<leftarrow> klog_line rec; Some (klog_puts st line) }"

definition klog_emit_record_silent :: "klog_state \<Rightarrow> klog_record \<Rightarrow> klog_state option" where
  "klog_emit_record_silent st rec = do { line \<leftarrow> klog_line rec; Some (klog_puts_silent st line) }"



definition klog_make_record :: "u32 \<Rightarrow> u8 \<Rightarrow> string option \<Rightarrow> string option \<Rightarrow> klog_record" where
  "klog_make_record ticks level tag msg =
     \<lparr>kr_ticks = ticks, kr_level = level,
      kr_tag = take (KLOG_TAG_CAP - 1) (case tag of Some s \<Rightarrow> c_text s | None \<Rightarrow> ''KLOG''),
      kr_msg = take (KLOG_MSG_CAP - 1) (case msg of Some s \<Rightarrow> c_text s | None \<Rightarrow> ''(null)'')\<rparr>"

definition klog_log :: "klog_state \<Rightarrow> u32 \<Rightarrow> u8 \<Rightarrow> string option \<Rightarrow> string option \<Rightarrow> klog_state option" where
  "klog_log st ticks level tag msg =
     (let rec = klog_make_record ticks level tag msg in klog_emit_record (klog_store_record st rec) rec)"

definition klog :: "klog_state \<Rightarrow> u32 \<Rightarrow> string option \<Rightarrow> string option \<Rightarrow> klog_state option" where
  "klog st ticks tag msg = klog_log st ticks KLOG_LEVEL_INFO tag msg"

definition null_text :: "string option \<Rightarrow> string" where
  "null_text msg = (case msg of Some s \<Rightarrow> s | None \<Rightarrow> ''(null)'')"

definition klog_uint :: "klog_state \<Rightarrow> u32 \<Rightarrow> string option \<Rightarrow> string option \<Rightarrow> u32 \<Rightarrow> klog_state option" where
  "klog_uint st ticks tag msg val = do {
     (line, n) \<leftarrow> k_snprintf (replicate KLOG_MSG_CAP NUL) (of_nat KLOG_MSG_CAP) ''%s: %u''
                  [ArgStr (Some (null_text msg)), ArgInt val];
     klog_log st ticks KLOG_LEVEL_INFO tag (Some line)
   }"

definition klog_hex :: "klog_state \<Rightarrow> u32 \<Rightarrow> string option \<Rightarrow> string option \<Rightarrow> u32 \<Rightarrow> klog_state option" where
  "klog_hex st ticks tag msg val = do {
     (line, n) \<leftarrow> k_snprintf (replicate KLOG_MSG_CAP NUL) (of_nat KLOG_MSG_CAP) ''%s: 0x%08X''
                  [ArgStr (Some (null_text msg)), ArgInt val];
     klog_log st ticks KLOG_LEVEL_INFO tag (Some line)
   }"


definition klog_log_silent :: "klog_state \<Rightarrow> u32 \<Rightarrow> u8 \<Rightarrow> string option \<Rightarrow> string option \<Rightarrow> klog_state option" where
  "klog_log_silent st ticks level tag msg =
     (let rec = klog_make_record ticks level tag msg in klog_emit_record_silent (klog_store_record st rec) rec)"

definition klog_silent :: "klog_state \<Rightarrow> u32 \<Rightarrow> string option \<Rightarrow> string option \<Rightarrow> klog_state option" where
  "klog_silent st ticks tag msg = klog_log_silent st ticks KLOG_LEVEL_INFO tag msg"

definition klog_silent_uint :: "klog_state \<Rightarrow> u32 \<Rightarrow> string option \<Rightarrow> string option \<Rightarrow> u32 \<Rightarrow> klog_state option" where
  "klog_silent_uint st ticks tag msg val = do {
     (line, n) \<leftarrow> k_snprintf (replicate KLOG_MSG_CAP NUL) (of_nat KLOG_MSG_CAP) ''%s: %u''
                  [ArgStr (Some (null_text msg)), ArgInt val];
     klog_log_silent st ticks KLOG_LEVEL_INFO tag (Some line)
   }"

definition klog_silent_hex :: "klog_state \<Rightarrow> u32 \<Rightarrow> string option \<Rightarrow> string option \<Rightarrow> u32 \<Rightarrow> klog_state option" where
  "klog_silent_hex st ticks tag msg val = do {
     (line, n) \<leftarrow> k_snprintf (replicate KLOG_MSG_CAP NUL) (of_nat KLOG_MSG_CAP) ''%s: 0x%08X''
                  [ArgStr (Some (null_text msg)), ArgInt val];
     klog_log_silent st ticks KLOG_LEVEL_INFO tag (Some line)
   }"

section \<open>The ring keeps the last 96 records\<close>


text \<open>The retained records, oldest first.\<close>

definition klog_records :: "klog_state \<Rightarrow> klog_record list" where
  "klog_records st = map (\<lambda>i. klog_record_at st (of_nat i)) [0..<unat (klog_count st)]"



lemma klog_records_length [simp]: "length (klog_records st) = unat (klog_count st)"
  by (simp add: klog_records_def)






section \<open>A log line\<close>



lemma field_str: "field 0 False 0 [] s = s"
  by simp






text \<open>What a bounded destination holds once the text \<open>t\<close> has been rendered into it.\<close>

definition bounded :: "string \<Rightarrow> u32 \<Rightarrow> string \<Rightarrow> string" where
  "bounded buf cap t =
     (if cap = 0 then buf else take (unat cap - 1) t @ NUL # drop (min (length t) (unat cap - 1) + 1) buf)"

lemma bounded_length [simp]: "unat cap \<le> length buf \<Longrightarrow> length (bounded buf cap t) = length buf"
  using unat_gt_0 [of cap] by (auto simp: bounded_def min_def)










section \<open>Properties\<close>









end
