(* ===== verification/Blkdev.thy ===== *)
theory Blkdev
  imports Kprintf
begin

text \<open>
  The block device registry and the MBR partition devices: \<^verbatim>\<open>kernel/drivers/blkdev.c\<close>,
  \<^verbatim>\<open>kernel/drivers/blkdev_part.c\<close> and the RAM disk of \<^verbatim>\<open>kernel/arch/arm64/rootfs.c\<close>.  A
  pointer to an operations table is a value of \<open>blk_ops\<close>: a driver's table, or the table of
  partition slot \<open>n\<close>.  The drivers' sector functions are parameters over a state \<open>'w\<close>, with
  their contract in the locale \<open>sector_devices\<close>.  A name is its text, \<open>None\<close> the null pointer.
\<close>

section \<open>Registry\<close>

datatype blk_ops = DriverOps nat | PartOps u32

record blkdev_info =
  bi_name :: string
  bi_kind :: u32
  bi_sector_size :: u32
  bi_sectors :: u32
  bi_readonly :: u32
  bi_major :: u32
  bi_minor :: u32
  bi_parent_index :: u32
  bi_start_sector :: u32
  bi_partition_number :: u32

record blkdev_entry =
  be_info :: blkdev_info
  be_ops :: "blk_ops option"

type_synonym blk_table = "blkdev_entry list"

definition BLKDEV_NAME_MAX :: nat where "BLKDEV_NAME_MAX = 12"
definition BLKDEV_MAX :: nat where "BLKDEV_MAX = 16"
definition BLKDEV_SECTOR_SIZE :: u32 where "BLKDEV_SECTOR_SIZE = 512"
definition BLKDEV_NO_PARENT :: u32 where "BLKDEV_NO_PARENT = 0xFFFFFFFF"
definition BLKDEV_KIND_DISK :: u32 where "BLKDEV_KIND_DISK = 1"
definition BLKDEV_KIND_PART :: u32 where "BLKDEV_KIND_PART = 2"

definition blkdev_name_is_valid :: "string option \<Rightarrow> bool" where
  "blkdev_name_is_valid name =
     (case name of None \<Rightarrow> False
      | Some s \<Rightarrow> let len = min (length (c_text s)) BLKDEV_NAME_MAX in len \<noteq> 0 \<and> len < BLKDEV_NAME_MAX)"

definition blkdev_empty :: blkdev_entry where
  "blkdev_empty = \<lparr>be_info = \<lparr>bi_name = [], bi_kind = 0, bi_sector_size = 0, bi_sectors = 0, bi_readonly = 0,
     bi_major = 0, bi_minor = 0, bi_parent_index = 0, bi_start_sector = 0, bi_partition_number = 0\<rparr>, be_ops = None\<rparr>"

definition blkdev_reset :: blk_table where
  "blkdev_reset = replicate BLKDEV_MAX blkdev_empty"

definition blkdev_used :: "blk_table \<Rightarrow> nat \<Rightarrow> bool" where
  "blkdev_used t i \<longleftrightarrow> bi_name (be_info (t ! i)) \<noteq> []"

definition blkdev_alloc_slot :: "blk_table \<Rightarrow> nat option" where
  "blkdev_alloc_slot t = find (\<lambda>i. \<not> blkdev_used t i) [0..<BLKDEV_MAX]"

definition blkdev_find_index :: "blk_table \<Rightarrow> string option \<Rightarrow> nat option" where
  "blkdev_find_index t name =
     (case name of None \<Rightarrow> None
      | Some s \<Rightarrow> find (\<lambda>i. blkdev_used t i \<and> bi_name (be_info (t ! i)) = c_text s) [0..<BLKDEV_MAX])"

definition disk_entry :: "string \<Rightarrow> u32 \<Rightarrow> u32 \<Rightarrow> u32 \<Rightarrow> blk_ops option \<Rightarrow> blkdev_entry" where
  "disk_entry name major minor sectors ops = \<lparr>be_info =
     \<lparr>bi_name = name, bi_kind = BLKDEV_KIND_DISK, bi_sector_size = BLKDEV_SECTOR_SIZE, bi_sectors = sectors,
      bi_readonly = 0, bi_major = major, bi_minor = minor, bi_parent_index = BLKDEV_NO_PARENT,
      bi_start_sector = 0, bi_partition_number = 0\<rparr>, be_ops = ops\<rparr>"

definition blkdev_register_disk ::
  "blk_table \<Rightarrow> string option \<Rightarrow> u32 \<Rightarrow> u32 \<Rightarrow> u32 \<Rightarrow> blk_ops option \<Rightarrow> blk_table option" where
  "blkdev_register_disk t name major minor sectors ops =
     (if \<not> blkdev_name_is_valid name \<or> ops = None \<or> sectors = 0 \<or> blkdev_find_index t name \<noteq> None then None
      else case blkdev_alloc_slot t of
        None \<Rightarrow> None
      | Some idx \<Rightarrow> Some (t[idx := disk_entry (c_text (the name)) major minor sectors ops]))"

definition blkdev_part_ops_for_index :: "u32 \<Rightarrow> blk_ops option" where
  "blkdev_part_ops_for_index index = (if index \<ge> of_nat BLKDEV_MAX then None else Some (PartOps index))"

definition part_entry :: "string \<Rightarrow> blkdev_info \<Rightarrow> u32 \<Rightarrow> u32 \<Rightarrow> u32 \<Rightarrow> u32 \<Rightarrow> blk_ops option \<Rightarrow> blkdev_entry" where
  "part_entry name parent parent_index partition_number start_sector sectors ops = \<lparr>be_info =
     \<lparr>bi_name = name, bi_kind = BLKDEV_KIND_PART, bi_sector_size = BLKDEV_SECTOR_SIZE, bi_sectors = sectors,
      bi_readonly = bi_readonly parent, bi_major = bi_major parent, bi_minor = bi_minor parent + partition_number,
      bi_parent_index = parent_index, bi_start_sector = start_sector, bi_partition_number = partition_number\<rparr>,
     be_ops = ops\<rparr>"

definition blkdev_register_part ::
  "blk_table \<Rightarrow> string option \<Rightarrow> u32 \<Rightarrow> u32 \<Rightarrow> u32 \<Rightarrow> u32 \<Rightarrow> blk_table option" where
  "blkdev_register_part t name parent_index partition_number start_sector sectors =
     (if \<not> blkdev_name_is_valid name \<or> sectors = 0 \<or> parent_index \<ge> of_nat BLKDEV_MAX \<or>
         blkdev_find_index t name \<noteq> None then None
      else let parent = be_info (t ! unat parent_index) in
        if bi_name parent = [] \<or> bi_kind parent \<noteq> BLKDEV_KIND_DISK then None
        else if start_sector \<ge> bi_sectors parent \<or> sectors > bi_sectors parent - start_sector then None
        else case blkdev_alloc_slot t of
          None \<Rightarrow> None
        | Some idx \<Rightarrow> (case blkdev_part_ops_for_index (of_nat idx) of
            None \<Rightarrow> None
          | Some ops \<Rightarrow> Some (t[idx :=
              part_entry (c_text (the name)) parent parent_index partition_number start_sector sectors (Some ops)])))"

definition blkdev_register :: "blk_table \<Rightarrow> string option \<Rightarrow> blk_ops option \<Rightarrow> blk_table option" where
  "blkdev_register t name ops = blkdev_register_disk t name 0 0 0xFFFFFFFF ops"

definition blkdev_get :: "blk_table \<Rightarrow> string option \<Rightarrow> blk_ops option" where
  "blkdev_get t name = (case blkdev_find_index t name of Some idx \<Rightarrow> be_ops (t ! idx) | None \<Rightarrow> None)"

definition blkdev_ops_at :: "blk_table \<Rightarrow> u32 \<Rightarrow> blk_ops option" where
  "blkdev_ops_at t index =
     (if index \<ge> of_nat BLKDEV_MAX \<or> \<not> blkdev_used t (unat index) then None else be_ops (t ! unat index))"

definition blkdev_count :: "blk_table \<Rightarrow> nat" where
  "blkdev_count t = length (filter (blkdev_used t) [0..<BLKDEV_MAX])"

definition blkdev_info_for_index :: "blk_table \<Rightarrow> u32 \<Rightarrow> blkdev_info option" where
  "blkdev_info_for_index t index =
     (if index \<ge> of_nat BLKDEV_MAX \<or> \<not> blkdev_used t (unat index) then None
      else Some (be_info (t ! unat index)))"

fun info_at_loop :: "blk_table \<Rightarrow> u32 \<Rightarrow> u32 \<Rightarrow> nat list \<Rightarrow> blkdev_info option" where
  "info_at_loop t index seen [] = None"
| "info_at_loop t index seen (i # is) =
     (if \<not> blkdev_used t i then info_at_loop t index seen is
      else if seen = index then Some (be_info (t ! i))
      else info_at_loop t index (seen + 1) is)"

definition blkdev_info_at :: "blk_table \<Rightarrow> u32 \<Rightarrow> blkdev_info option" where
  "blkdev_info_at t index = info_at_loop t index 0 [0..<BLKDEV_MAX]"

section \<open>Partition devices\<close>

type_synonym sector = "u8 list"
type_synonym 'w read_fn = "'w \<Rightarrow> u32 \<Rightarrow> sector option \<times> 'w"
type_synonym 'w write_fn = "'w \<Rightarrow> u32 \<Rightarrow> sector \<Rightarrow> bool \<times> 'w"

definition le32 :: "u8 list \<Rightarrow> nat \<Rightarrow> u32" where
  "le32 p i = ucast (p ! i) OR push_bit 8 (ucast (p ! (i + 1))) OR push_bit 16 (ucast (p ! (i + 2))) OR
     push_bit 24 (ucast (p ! (i + 3)))"

definition part_translate :: "blk_table \<Rightarrow> u32 \<Rightarrow> u32 \<Rightarrow> (blk_ops \<times> u32) option" where
  "part_translate t part_index lba =
     (case blkdev_info_for_index t part_index of
        None \<Rightarrow> None
      | Some info \<Rightarrow>
          if bi_kind info \<noteq> BLKDEV_KIND_PART \<or> lba \<ge> bi_sectors info then None
          else (case blkdev_ops_at t (bi_parent_index info) of
                  None \<Rightarrow> None
                | Some ops \<Rightarrow> Some (ops, bi_start_sector info + lba)))"

text \<open>
  A call through an operations pointer.  A partition calls through its parent's pointer, which
  could in principle be its own: \<open>None\<close> is a call that never returns.
\<close>

partial_function (option) ops_read_sector ::
  "(nat \<Rightarrow> 'w read_fn) \<Rightarrow> blk_table \<Rightarrow> blk_ops \<Rightarrow> 'w \<Rightarrow> u32 \<Rightarrow> (sector option \<times> 'w) option" where
  "ops_read_sector drv t ops w lba =
     (case ops of
        DriverOps d \<Rightarrow> Some (drv d w lba)
      | PartOps part_index \<Rightarrow>
          (case part_translate t part_index lba of
             None \<Rightarrow> Some (None, w)
           | Some (parent_ops, parent_lba) \<Rightarrow> ops_read_sector drv t parent_ops w parent_lba))"

partial_function (option) ops_write_sector ::
  "(nat \<Rightarrow> 'w write_fn) \<Rightarrow> blk_table \<Rightarrow> blk_ops \<Rightarrow> 'w \<Rightarrow> u32 \<Rightarrow> sector \<Rightarrow> (bool \<times> 'w) option" where
  "ops_write_sector drv t ops w lba buf =
     (case ops of
        DriverOps d \<Rightarrow> Some (drv d w lba buf)
      | PartOps part_index \<Rightarrow>
          (case part_translate t part_index lba of
             None \<Rightarrow> Some (False, w)
           | Some (parent_ops, parent_lba) \<Rightarrow> ops_write_sector drv t parent_ops w parent_lba buf))"

text \<open>One MBR entry: the table after it, and whether it was registered.\<close>

definition scan_mbr_slot :: "blkdev_info \<Rightarrow> u32 \<Rightarrow> sector \<Rightarrow> blk_table \<Rightarrow> nat \<Rightarrow> (blk_table \<times> bool) option" where
  "scan_mbr_slot disk disk_index mbr t slot =
     (let ent = 446 + slot * 16; type = mbr ! (ent + 4); start = le32 mbr (ent + 8); sectors = le32 mbr (ent + 12) in
      if type = 0 \<or> sectors = 0 then Some (t, False)
      else if type = 0x05 \<or> type = 0x0F then Some (t, False)
      else if start \<ge> bi_sectors disk \<or> sectors > bi_sectors disk - start then Some (t, False)
      else case k_snprintf (replicate BLKDEV_NAME_MAX NUL) (of_nat BLKDEV_NAME_MAX) ''%s%u''
                  [ArgStr (Some (bi_name disk)), ArgInt (of_nat slot + 1)] of
        None \<Rightarrow> None
      | Some (name, name_len) \<Rightarrow>
          if sint name_len < 0 \<or> name_len \<ge> of_nat BLKDEV_NAME_MAX then Some (t, False)
          else (case blkdev_register_part t (Some name) disk_index (of_nat slot + 1) start sectors of
                  None \<Rightarrow> Some (t, False)
                | Some t1 \<Rightarrow> Some (t1, True)))"

fun scan_mbr_loop :: "blkdev_info \<Rightarrow> u32 \<Rightarrow> sector \<Rightarrow> blk_table \<Rightarrow> nat \<Rightarrow> nat list \<Rightarrow> (blk_table \<times> nat) option" where
  "scan_mbr_loop disk disk_index mbr t registered [] = Some (t, registered)"
| "scan_mbr_loop disk disk_index mbr t registered (slot # slots) =
     (case scan_mbr_slot disk disk_index mbr t slot of
        None \<Rightarrow> None
      | Some (t1, ok) \<Rightarrow> scan_mbr_loop disk disk_index mbr t1 (if ok then registered + 1 else registered) slots)"

text \<open>The result is the table, the state of the drivers and the count, \<open>None\<close> for the error -1.\<close>

definition blkdev_scan_mbr ::
  "(nat \<Rightarrow> 'w read_fn) \<Rightarrow> blk_table \<Rightarrow> 'w \<Rightarrow> u32 \<Rightarrow> (blk_table \<times> 'w \<times> nat option) option" where
  "blkdev_scan_mbr drv t w disk_index =
     (case blkdev_info_for_index t disk_index of
        None \<Rightarrow> Some (t, w, None)
      | Some disk \<Rightarrow>
          if bi_kind disk \<noteq> BLKDEV_KIND_DISK then Some (t, w, None)
          else (case blkdev_ops_at t disk_index of
            None \<Rightarrow> Some (t, w, None)
          | Some ops \<Rightarrow> do {
              (mbr, w1) \<leftarrow> ops_read_sector drv t ops w 0;
              case mbr of
                None \<Rightarrow> Some (t, w1, None)
              | Some m \<Rightarrow>
                  if m ! 510 \<noteq> 0x55 \<or> m ! 511 \<noteq> 0xAA then Some (t, w1, Some 0)
                  else do {
                    (t1, n) \<leftarrow> scan_mbr_loop disk disk_index m t 0 [0..<4];
                    Some (t1, w1, Some n)
                  }
            }))"

section \<open>The embedded root disk\<close>

text \<open>The image is the list of its bytes; its own state is the state of the driver.\<close>

definition DRUNIX_DISK_SECTORS :: u32 where "DRUNIX_DISK_SECTORS = 262144"
definition ARM64_ROOTFS_PARTITION_START :: u32 where "ARM64_ROOTFS_PARTITION_START = 2048"

definition arm64_rootfs_read_sector :: "(u8 list) read_fn" where
  "arm64_rootfs_read_sector img lba =
     (let sectors = (of_nat (length img) :: u32) div BLKDEV_SECTOR_SIZE in
      if lba < ARM64_ROOTFS_PARTITION_START then (None, img)
      else let lba1 = lba - ARM64_ROOTFS_PARTITION_START in
        if lba1 \<ge> sectors then (None, img)
        else let off = lba1 * BLKDEV_SECTOR_SIZE in (Some (take 512 (drop (unat off) img)), img))"

definition arm64_rootfs_write_sector :: "(u8 list) write_fn" where
  "arm64_rootfs_write_sector img lba buf =
     (let sectors = (of_nat (length img) :: u32) div BLKDEV_SECTOR_SIZE in
      if lba < ARM64_ROOTFS_PARTITION_START then (False, img)
      else let lba1 = lba - ARM64_ROOTFS_PARTITION_START in
        if lba1 \<ge> sectors then (False, img)
        else let off = lba1 * BLKDEV_SECTOR_SIZE in
          (True, take (unat off) img @ take 512 buf @ drop (unat off + 512) img))"

definition rootfs_ops :: blk_ops where "rootfs_ops = DriverOps 0"

text \<open>A disk and its partition; the table keeps what was registered before a failure.\<close>

definition arm64_register_one :: "blk_table \<Rightarrow> string \<Rightarrow> string \<Rightarrow> u32 \<Rightarrow> blk_table \<times> bool" where
  "arm64_register_one t disk part minor =
     (case blkdev_register_disk t (Some disk) 8 minor DRUNIX_DISK_SECTORS (Some rootfs_ops) of
        None \<Rightarrow> (t, False)
      | Some t1 \<Rightarrow>
          (case blkdev_find_index t1 (Some disk) of
             None \<Rightarrow> (t1, False)
           | Some idx \<Rightarrow>
               (case blkdev_register_part t1 (Some part) (of_nat idx) 1 ARM64_ROOTFS_PARTITION_START
                       (DRUNIX_DISK_SECTORS - ARM64_ROOTFS_PARTITION_START) of
                  None \<Rightarrow> (t1, False)
                | Some t2 \<Rightarrow> (t2, True))))"

definition arm64_rootfs_register :: "blk_table \<Rightarrow> blk_table \<times> bool" where
  "arm64_rootfs_register t =
     (case arm64_register_one t ''sda'' ''sda1'' 0 of
        (t1, False) \<Rightarrow> (t1, False)
      | (t1, True) \<Rightarrow> arm64_register_one t1 ''sdb'' ''sdb1'' 16)"

section \<open>The registry invariant\<close>

definition disk_ok :: "blkdev_entry \<Rightarrow> bool" where
  "disk_ok e \<longleftrightarrow> bi_kind (be_info e) = BLKDEV_KIND_DISK \<and> (\<exists>d. be_ops e = Some (DriverOps d))"

definition part_ok :: "blk_table \<Rightarrow> nat \<Rightarrow> blkdev_entry \<Rightarrow> bool" where
  "part_ok t i e \<longleftrightarrow> bi_kind (be_info e) = BLKDEV_KIND_PART \<and> be_ops e = Some (PartOps (of_nat i)) \<and>
     (let p = unat (bi_parent_index (be_info e)) in
      p < 16 \<and> blkdev_used t p \<and> disk_ok (t ! p) \<and>
      unat (bi_start_sector (be_info e)) + unat (bi_sectors (be_info e)) \<le> unat (bi_sectors (be_info (t ! p))))"

definition entry_ok :: "blk_table \<Rightarrow> nat \<Rightarrow> blkdev_entry \<Rightarrow> bool" where
  "entry_ok t i e \<longleftrightarrow> (disk_ok e \<or> part_ok t i e) \<and> bi_sectors (be_info e) \<noteq> 0 \<and>
     length (bi_name (be_info e)) < 12 \<and> NUL \<notin> set (bi_name (be_info e))"

definition blkdev_wf :: "blk_table \<Rightarrow> bool" where
  "blkdev_wf t \<longleftrightarrow> length t = 16 \<and> (\<forall>i < 16. blkdev_used t i \<longrightarrow> entry_ok t i (t ! i)) \<and>
     (\<forall>i < 16. \<forall>j < 16. blkdev_used t i \<and> blkdev_used t j \<and>
        bi_name (be_info (t ! i)) = bi_name (be_info (t ! j)) \<longrightarrow> i = j)"

lemma c_text_no_nul: "NUL \<notin> set (c_text s)"
  by (auto simp: c_text_def dest: set_takeWhileD)

lemma find_upt_Some: "find P [0..<n] = Some i \<Longrightarrow> i < n \<and> P i \<and> (\<forall>j < i. \<not> P j)"
  by (auto simp: find_Some_iff)

lemma find_upt_None: "find P [0..<n] = None \<longleftrightarrow> (\<forall>i < n. \<not> P i)"
  by (auto simp: find_None_iff)

lemma alloc_slot_Some: "blkdev_alloc_slot t = Some idx \<Longrightarrow> idx < 16 \<and> \<not> blkdev_used t idx"
  by (auto simp: blkdev_alloc_slot_def BLKDEV_MAX_def dest: find_upt_Some)

lemma find_index_None:
  "blkdev_find_index t (Some s) = None \<longleftrightarrow>
     (\<forall>i < 16. blkdev_used t i \<longrightarrow> bi_name (be_info (t ! i)) \<noteq> c_text s)"
  by (auto simp: blkdev_find_index_def BLKDEV_MAX_def find_upt_None)

lemma find_index_Some:
  "blkdev_find_index t (Some s) = Some i \<Longrightarrow>
     i < 16 \<and> blkdev_used t i \<and> bi_name (be_info (t ! i)) = c_text s"
  by (auto simp: blkdev_find_index_def BLKDEV_MAX_def dest: find_upt_Some)

lemma find_index_unique:
  assumes "blkdev_wf t" "i < 16" "blkdev_used t i" "bi_name (be_info (t ! i)) = c_text s"
  shows "blkdev_find_index t (Some s) = Some i"
proof (cases "blkdev_find_index t (Some s)")
  case None
  then show ?thesis using assms by (simp add: find_index_None)
next
  case (Some j)
  from find_index_Some [OF this] assms Some show ?thesis unfolding blkdev_wf_def by auto
qed

text \<open>Filling a free slot with a well-formed entry of a new name keeps the invariant.\<close>

lemma blkdev_fill_wf:
  assumes wf: "blkdev_wf t" and idx: "blkdev_alloc_slot t = Some idx" and ok: "entry_ok t idx e"
    and new: "blkdev_find_index t (Some s) = None" and name: "bi_name (be_info e) = c_text s" "c_text s \<noteq> []"
  shows "blkdev_wf (t[idx := e])"
proof -
  from alloc_slot_Some [OF idx] have i: "idx < 16" "\<not> blkdev_used t idx" by auto
  have len: "length t = 16" using wf by (simp add: blkdev_wf_def)
  have nth: "t[idx := e] ! k = (if k = idx then e else t ! k)" for k
    using i len by (cases "k = idx") auto
  have used: "blkdev_used (t[idx := e]) k \<longleftrightarrow> k = idx \<or> blkdev_used t k" for k
    using name by (auto simp: blkdev_used_def nth)
  have keep: "entry_ok t k f \<Longrightarrow> entry_ok (t[idx := e]) k f" for k f
    using i by (auto simp: entry_ok_def part_ok_def Let_def nth used)
  have "entry_ok (t[idx := e]) k (t[idx := e] ! k)" if "k < 16" "blkdev_used (t[idx := e]) k" for k
    using that wf ok keep unfolding nth used blkdev_wf_def by auto
  moreover have "a = b" if "a < 16" "b < 16" "blkdev_used (t[idx := e]) a" "blkdev_used (t[idx := e]) b"
      "bi_name (be_info (t[idx := e] ! a)) = bi_name (be_info (t[idx := e] ! b))" for a b
    using that wf new name unfolding nth used blkdev_wf_def find_index_None by (auto split: if_splits)
  ultimately show ?thesis using len by (simp add: blkdev_wf_def)
qed

lemma name_valid: "blkdev_name_is_valid name \<longleftrightarrow> (\<exists>s. name = Some s \<and> c_text s \<noteq> [] \<and> length (c_text s) < 12)"
  by (cases name) (auto simp: blkdev_name_is_valid_def BLKDEV_NAME_MAX_def Let_def min_def)

lemma blkdev_reset_wf: "blkdev_wf blkdev_reset"
proof -
  have "\<not> blkdev_used blkdev_reset i" if "i < 16" for i
    using that by (simp add: blkdev_used_def blkdev_reset_def blkdev_empty_def BLKDEV_MAX_def)
  then show ?thesis by (simp add: blkdev_wf_def) (simp add: blkdev_reset_def BLKDEV_MAX_def)
qed

lemma register_disk_Some:
  assumes "blkdev_register_disk t name major minor sectors ops = Some t'"
  shows "\<exists>s idx. name = Some s \<and> c_text s \<noteq> [] \<and> length (c_text s) < 12 \<and> sectors \<noteq> 0 \<and>
    blkdev_find_index t (Some s) = None \<and> blkdev_alloc_slot t = Some idx \<and>
    t' = t[idx := disk_entry (c_text s) major minor sectors ops]"
  using assms by (auto simp: blkdev_register_disk_def name_valid split: if_splits option.splits)

lemma register_disk_wf:
  assumes wf: "blkdev_wf t" and r: "blkdev_register_disk t name major minor sectors (Some (DriverOps d)) = Some t'"
  shows "blkdev_wf t'"
proof -
  from register_disk_Some [OF r] obtain s idx where s: "c_text s \<noteq> []" "length (c_text s) < 12" "sectors \<noteq> 0"
    and new: "blkdev_find_index t (Some s) = None" and idx: "blkdev_alloc_slot t = Some idx"
    and t': "t' = t[idx := disk_entry (c_text s) major minor sectors (Some (DriverOps d))]"
    by (elim exE conjE) (rule that)
  show ?thesis unfolding t' using s c_text_no_nul
    by (intro blkdev_fill_wf [OF wf idx _ new]) (auto simp: entry_ok_def disk_ok_def disk_entry_def)
qed

lemma register_part_Some:
  assumes "blkdev_register_part t name parent_index n start sectors = Some t'"
  shows "\<exists>s idx. name = Some s \<and> c_text s \<noteq> [] \<and> length (c_text s) < 12 \<and> sectors \<noteq> 0 \<and>
    blkdev_find_index t (Some s) = None \<and> blkdev_alloc_slot t = Some idx \<and> unat parent_index < 16 \<and>
    blkdev_used t (unat parent_index) \<and> bi_kind (be_info (t ! unat parent_index)) = BLKDEV_KIND_DISK \<and>
    unat start + unat sectors \<le> unat (bi_sectors (be_info (t ! unat parent_index))) \<and>
    t' = t[idx := part_entry (c_text s) (be_info (t ! unat parent_index)) parent_index n start sectors
             (Some (PartOps (of_nat idx)))]"
proof -
  have fit: "unat start + unat sectors \<le> unat total'" if "\<not> total' \<le> start" "\<not> total' - start < sectors" for total' :: u32
    using that by (auto simp: word_less_nat_alt word_le_nat_alt unat_sub_if')
  show ?thesis using assms fit
    by (auto simp: blkdev_register_part_def name_valid Let_def blkdev_part_ops_for_index_def BLKDEV_MAX_def
        blkdev_used_def word_le_nat_alt not_le split: if_splits option.splits)
qed

lemma register_part_wf:
  assumes wf: "blkdev_wf t" and r: "blkdev_register_part t name parent_index n start sectors = Some t'"
  shows "blkdev_wf t'"
proof -
  let ?p = "unat parent_index"
  from register_part_Some [OF r] obtain s idx where s: "c_text s \<noteq> []" "length (c_text s) < 12" "sectors \<noteq> 0"
    and new: "blkdev_find_index t (Some s) = None" and idx: "blkdev_alloc_slot t = Some idx"
    and p: "?p < 16" "blkdev_used t ?p" "bi_kind (be_info (t ! ?p)) = BLKDEV_KIND_DISK"
      "unat start + unat sectors \<le> unat (bi_sectors (be_info (t ! ?p)))"
    and t': "t' = t[idx := part_entry (c_text s) (be_info (t ! ?p)) parent_index n start sectors
             (Some (PartOps (of_nat idx)))]"
    by (elim exE conjE) (rule that)
  have "disk_ok (t ! ?p)" using wf p unfolding blkdev_wf_def entry_ok_def part_ok_def
    by (auto simp: BLKDEV_KIND_DISK_def BLKDEV_KIND_PART_def)
  then show ?thesis unfolding t' using s p c_text_no_nul
    by (intro blkdev_fill_wf [OF wf idx _ new]) (auto simp: entry_ok_def part_ok_def part_entry_def Let_def)
qed

lemma scan_mbr_slot_wf:
  assumes "blkdev_wf t" "scan_mbr_slot disk k mbr t slot = Some (t', b)"
  shows "blkdev_wf t'"
  using assms by (auto simp: scan_mbr_slot_def Let_def split: if_splits option.splits dest: register_part_wf)

lemma scan_mbr_loop_wf:
  "blkdev_wf t \<Longrightarrow> scan_mbr_loop disk k mbr t n slots = Some (t', m) \<Longrightarrow> blkdev_wf t'"
  by (induction slots arbitrary: t n) (auto split: option.splits dest: scan_mbr_slot_wf)

section \<open>Scanning a partition table\<close>

definition mbr_type :: "sector \<Rightarrow> nat \<Rightarrow> u8" where "mbr_type mbr slot = mbr ! (446 + slot * 16 + 4)"
definition mbr_start :: "sector \<Rightarrow> nat \<Rightarrow> u32" where "mbr_start mbr slot = le32 mbr (446 + slot * 16 + 8)"
definition mbr_sectors :: "sector \<Rightarrow> nat \<Rightarrow> u32" where "mbr_sectors mbr slot = le32 mbr (446 + slot * 16 + 12)"

text \<open>A primary partition that lies inside the disk.\<close>

definition mbr_valid :: "blkdev_info \<Rightarrow> sector \<Rightarrow> nat \<Rightarrow> bool" where
  "mbr_valid disk mbr slot \<longleftrightarrow> mbr_type mbr slot \<notin> {0, 0x05, 0x0F} \<and> mbr_sectors mbr slot \<noteq> 0 \<and>
     unat (mbr_start mbr slot) + unat (mbr_sectors mbr slot) \<le> unat (bi_sectors disk)"

definition part_name :: "blkdev_info \<Rightarrow> nat \<Rightarrow> string" where
  "part_name disk slot = bi_name disk @ [''1234'' ! slot]"

lemma part_name_no_nul: "NUL \<notin> set (bi_name disk) \<Longrightarrow> slot < 4 \<Longrightarrow> NUL \<notin> set (part_name disk slot)"
proof -
  assume "slot < 4"
  then have "slot = 0 \<or> slot = 1 \<or> slot = 2 \<or> slot = 3" by linarith
  then show "NUL \<notin> set (bi_name disk) \<Longrightarrow> NUL \<notin> set (part_name disk slot)"
    by (auto simp: part_name_def NUL_def)
qed

lemma number_slot:
  assumes "slot < 4"
  shows "number 10 False (of_nat slot + 1) = [''1234'' ! slot]"
proof -
  have d: "fmt_digits 10 False v = [fmt_digit False v]" if "v div 10 = 0" "v mod 10 = v" "v \<noteq> 0" for v
    using that fmt_digits.simps [of 10 False v] fmt_digits.simps [of 10 False 0] by simp
  have "slot = 0 \<or> slot = 1 \<or> slot = 2 \<or> slot = 3" using assms by linarith
  then show ?thesis by (elim disjE) (simp_all add: number_def d fmt_digit_def)
qed

lemma scan_name:
  assumes "slot < 4" "NUL \<notin> set (bi_name disk)" "length (bi_name disk) \<le> 10"
  shows "\<exists>buf. k_snprintf (replicate 12 NUL) 12 ''%s%u'' [ArgStr (Some (bi_name disk)), ArgInt (of_nat slot + 1)] =
      Some (buf, of_nat (length (bi_name disk) + 1)) \<and> c_text buf = part_name disk slot"
proof -
  have t: "fmt_text ''%s%u'' [ArgStr (Some (bi_name disk)), ArgInt (of_nat slot + 1)] = Some (part_name disk slot)"
    by (simp add: spec_text_conv number_slot [OF assms(1)] part_name_def)
  have len: "length (part_name disk slot) = length (bi_name disk) + 1" by (simp add: part_name_def)
  have "k_vsnprintf (replicate 12 NUL) 12 ''%s%u'' [ArgStr (Some (bi_name disk)), ArgInt (of_nat slot + 1)] =
      Some (part_name disk slot @ NUL # drop (length (part_name disk slot) + 1) (replicate 12 NUL),
        of_nat (length (part_name disk slot)))"
    using k_vsnprintf_text [OF t, of 12 "replicate 12 NUL"] len assms(3) by (simp add: min_def)
  then show ?thesis
    using c_text_append [OF part_name_no_nul [OF assms(2,1)]] len by (simp add: k_snprintf_def)
qed

lemma scan_mbr_slot_invalid: "\<not> mbr_valid disk mbr slot \<Longrightarrow> scan_mbr_slot disk k mbr t slot = Some (t, False)"
proof -
  assume "\<not> mbr_valid disk mbr slot"
  then have "mbr_type mbr slot \<in> {0, 0x05, 0x0F} \<or> mbr_sectors mbr slot = 0 \<or>
      mbr_start mbr slot \<ge> bi_sectors disk \<or> mbr_sectors mbr slot > bi_sectors disk - mbr_start mbr slot"
    by (auto simp: mbr_valid_def word_less_nat_alt word_le_nat_alt unat_sub_if')
  then show ?thesis
    unfolding scan_mbr_slot_def Let_def mbr_type_def mbr_start_def mbr_sectors_def by auto
qed

lemma alloc_slot_free: "blkdev_count t < 16 \<Longrightarrow> \<exists>idx. blkdev_alloc_slot t = Some idx"
proof (rule ccontr)
  assume "blkdev_count t < 16" and "\<nexists>idx. blkdev_alloc_slot t = Some idx"
  then have "\<forall>i < 16. blkdev_used t i" by (auto simp: blkdev_alloc_slot_def BLKDEV_MAX_def find_upt_None)
  then have "filter (blkdev_used t) [0..<16] = [0..<16]" by (intro filter_True) simp
  with \<open>blkdev_count t < 16\<close> show False by (simp add: blkdev_count_def BLKDEV_MAX_def)
qed

lemma blkdev_count_fill:
  assumes "length t = 16" "idx < 16" "\<not> blkdev_used t idx" "bi_name (be_info e) \<noteq> []"
  shows "blkdev_count (t[idx := e]) = blkdev_count t + 1"
proof -
  have "blkdev_used (t[idx := e]) k \<longleftrightarrow> k = idx \<or> blkdev_used t k" if "k < 16" for k
    using assms that by (auto simp: blkdev_used_def nth_list_update)
  then have "{k. k < 16 \<and> blkdev_used (t[idx := e]) k} = insert idx {k. k < 16 \<and> blkdev_used t k}"
    using assms(2) by auto
  moreover have "length (filter P [0..<16]) = card {k. k < 16 \<and> P k}" for P
    using distinct_card [of "filter P [0..<16]"] by (simp add: conj_commute)
  ultimately show ?thesis using assms(3) by (simp add: blkdev_count_def BLKDEV_MAX_def)
qed

text \<open>The effect of registering one partition under a fresh name.\<close>

lemma register_part_fresh:
  assumes wf: "blkdev_wf t" and k: "unat k < 16" "blkdev_used t (unat k)"
    and disk: "be_info (t ! unat k) = disk" "bi_kind disk = BLKDEV_KIND_DISK"
    and s: "c_text s \<noteq> []" "length (c_text s) < 12" and new: "blkdev_find_index t (Some s) = None"
    and free: "blkdev_count t < 16" and fit: "sectors \<noteq> 0" "unat start + unat sectors \<le> unat (bi_sectors disk)"
  shows "\<exists>t' idx. blkdev_register_part t (Some s) k n start sectors = Some t' \<and> blkdev_wf t' \<and>
    blkdev_find_index t' (Some s) = Some idx \<and> be_info (t' ! idx) = be_info (part_entry (c_text s) disk k n start sectors None) \<and>
    blkdev_count t' = blkdev_count t + 1 \<and> (\<forall>i < 16. blkdev_used t i \<longrightarrow> t' ! i = t ! i) \<and>
    (\<forall>i < 16. blkdev_used t' i \<longrightarrow> i = idx \<or> blkdev_used t i)"
proof -
  from alloc_slot_free [OF free] obtain idx where idx: "blkdev_alloc_slot t = Some idx" by blast
  note i = alloc_slot_Some [OF idx]
  have len: "length t = 16" using wf by (simp add: blkdev_wf_def)
  let ?e = "part_entry (c_text s) disk k n start sectors (Some (PartOps (of_nat idx)))"
  have ops: "blkdev_part_ops_for_index (of_nat idx) = Some (PartOps (of_nat idx))"
    using i by (simp add: blkdev_part_ops_for_index_def BLKDEV_MAX_def word_le_nat_alt unat_of_nat)
  have "\<not> bi_sectors disk \<le> start" "\<not> bi_sectors disk - start < sectors" "\<not> (16 \<le> k)"
    using fit k(1) unat_gt_0 [of sectors] by (auto simp: word_less_nat_alt word_le_nat_alt unat_sub_if')
  then have reg: "blkdev_register_part t (Some s) k n start sectors = Some (t[idx := ?e])"
    using k disk s new idx ops fit
    by (simp add: blkdev_register_part_def name_valid BLKDEV_MAX_def blkdev_used_def Let_def)
  from register_part_wf [OF wf reg] have wf': "blkdev_wf (t[idx := ?e])" .
  have at: "t[idx := ?e] ! idx = ?e" using i len by simp
  have n: "bi_name (be_info ?e) = c_text s" by (simp add: part_entry_def)
  have "blkdev_find_index (t[idx := ?e]) (Some s) = Some idx"
    using i s n at by (intro find_index_unique [OF wf']) (auto simp: blkdev_used_def)
  moreover have "blkdev_count (t[idx := ?e]) = blkdev_count t + 1"
    using i len s n by (intro blkdev_count_fill) auto
  moreover have "be_info (t[idx := ?e] ! idx) = be_info (part_entry (c_text s) disk k n start sectors None)"
    unfolding at by (simp add: part_entry_def)
  moreover have "\<forall>j < 16. blkdev_used t j \<longrightarrow> t[idx := ?e] ! j = t ! j" using i by (metis nth_list_update_neq)
  moreover have "\<forall>j < 16. blkdev_used (t[idx := ?e]) j \<longrightarrow> j = idx \<or> blkdev_used t j"
    by (auto simp: blkdev_used_def nth_list_update split: if_splits)
  ultimately show ?thesis using reg wf' by blast
qed

lemma c_text_id: "NUL \<notin> set s \<Longrightarrow> c_text s = s"
  by (auto simp: c_text_def takeWhile_eq_all_conv)

lemma scan_mbr_slot_valid:
  assumes v: "mbr_valid disk mbr slot" "slot < 4" and name: "NUL \<notin> set (bi_name disk)" "length (bi_name disk) \<le> 10"
  shows "\<exists>s. c_text s = part_name disk slot \<and>
    scan_mbr_slot disk k mbr t slot =
      (case blkdev_register_part t (Some s) k (of_nat slot + 1) (mbr_start mbr slot) (mbr_sectors mbr slot) of
         None \<Rightarrow> Some (t, False) | Some t1 \<Rightarrow> Some (t1, True))"
proof -
  from scan_name [OF v(2) name] obtain buf where
    buf: "k_snprintf (replicate 12 NUL) 12 ''%s%u'' [ArgStr (Some (bi_name disk)), ArgInt (of_nat slot + 1)] =
      Some (buf, of_nat (length (bi_name disk) + 1))" and c: "c_text buf = part_name disk slot"
    by blast
  define n :: u32 where "n = of_nat (length (bi_name disk) + 1)"
  have un: "unat n \<le> 11" using name(2) by (simp add: n_def unat_of_nat del: of_nat_add of_nat_Suc)
  then have n1: "\<not> 12 \<le> n" by (simp add: word_le_nat_alt)
  have "sint n = int (length (bi_name disk) + 1)" using name(2)
    by (simp add: n_def signed_of_nat signed_take_bit_int_eq_self del: of_nat_add of_nat_Suc)
  then have n2: "\<not> sint n < 0" by simp
  have ty: "\<not> (mbr_type mbr slot = 0 \<or> mbr_sectors mbr slot = 0)"
    "\<not> (mbr_type mbr slot = 0x05 \<or> mbr_type mbr slot = 0x0F)"
    "\<not> (mbr_start mbr slot \<ge> bi_sectors disk \<or> mbr_sectors mbr slot > bi_sectors disk - mbr_start mbr slot)"
    using v(1) unat_gt_0 [of "mbr_sectors mbr slot"]
    by (auto simp: mbr_valid_def word_less_nat_alt word_le_nat_alt unat_sub_if')
  have "scan_mbr_slot disk k mbr t slot =
      (case blkdev_register_part t (Some buf) k (of_nat slot + 1) (mbr_start mbr slot) (mbr_sectors mbr slot) of
         None \<Rightarrow> Some (t, False) | Some t1 \<Rightarrow> Some (t1, True))"
    using ty n1 n2 buf
    unfolding scan_mbr_slot_def Let_def BLKDEV_NAME_MAX_def mbr_type_def mbr_start_def mbr_sectors_def n_def [symmetric]
    by (simp add: Let_def)
  with c show ?thesis by blast
qed

definition scan_done :: "blk_table \<Rightarrow> blkdev_info \<Rightarrow> u32 \<Rightarrow> sector \<Rightarrow> nat \<Rightarrow> bool" where
  "scan_done t disk k mbr slot \<longleftrightarrow>
     (\<exists>idx. blkdev_find_index t (Some (part_name disk slot)) = Some idx \<and>
        be_info (t ! idx) = be_info (part_entry (part_name disk slot) disk k (of_nat slot + 1)
          (mbr_start mbr slot) (mbr_sectors mbr slot) None))"

lemma scan_done_mono:
  assumes d: "scan_done t disk k mbr slot" and wf: "blkdev_wf t'" and keep: "\<forall>i < 16. blkdev_used t i \<longrightarrow> t' ! i = t ! i"
  shows "scan_done t' disk k mbr slot"
proof -
  from d obtain idx where idx: "blkdev_find_index t (Some (part_name disk slot)) = Some idx"
    "be_info (t ! idx) = be_info (part_entry (part_name disk slot) disk k (of_nat slot + 1)
          (mbr_start mbr slot) (mbr_sectors mbr slot) None)"
    by (auto simp: scan_done_def)
  from find_index_Some [OF idx(1)] keep have "idx < 16" "t' ! idx = t ! idx" "blkdev_used t' idx"
      "bi_name (be_info (t' ! idx)) = c_text (part_name disk slot)"
    by (auto simp: blkdev_used_def)
  with find_index_unique [OF wf] idx(2) show ?thesis by (auto simp: scan_done_def)
qed

lemma scan_mbr_loop_exact:
  assumes "blkdev_wf t" "unat k < 16" "blkdev_used t (unat k)" "be_info (t ! unat k) = disk"
    "bi_kind disk = BLKDEV_KIND_DISK" "length (bi_name disk) \<le> 10" "set slots \<subseteq> {..<4}" "distinct slots"
    "\<forall>slot\<in>set slots. blkdev_find_index t (Some (part_name disk slot)) = None"
    "blkdev_count t + length (filter (mbr_valid disk mbr) slots) \<le> 16"
  shows "\<exists>t'. scan_mbr_loop disk k mbr t n slots = Some (t', n + length (filter (mbr_valid disk mbr) slots)) \<and>
    blkdev_wf t' \<and> (\<forall>i < 16. blkdev_used t i \<longrightarrow> t' ! i = t ! i) \<and>
    (\<forall>slot\<in>set slots. mbr_valid disk mbr slot \<longrightarrow> scan_done t' disk k mbr slot)"
  using assms
proof (induction slots arbitrary: t n)
  case (Cons slot slots)
  have nul: "NUL \<notin> set (bi_name disk)" using Cons.prems unfolding blkdev_wf_def entry_ok_def by auto
  show ?case
  proof (cases "mbr_valid disk mbr slot")
    case False
    with Cons.IH [of t n] Cons.prems scan_mbr_slot_invalid [OF False, of k t] show ?thesis by auto
  next
    case True
    have slot: "slot < 4" using Cons.prems by auto
    from scan_mbr_slot_valid [OF True slot nul, of k t] Cons.prems(6) obtain s where s: "c_text s = part_name disk slot"
      and step: "scan_mbr_slot disk k mbr t slot =
        (case blkdev_register_part t (Some s) k (of_nat slot + 1) (mbr_start mbr slot) (mbr_sectors mbr slot) of
           None \<Rightarrow> Some (t, False) | Some t1 \<Rightarrow> Some (t1, True))" by blast
    note nn = part_name_no_nul [OF nul]
    have sid: "c_text (part_name disk slot) = part_name disk slot" by (rule c_text_id [OF nn [OF slot]])
    have new: "blkdev_find_index t (Some s) = None"
      using Cons.prems(9) sid s by (simp add: find_index_None)
    have fit: "mbr_sectors mbr slot \<noteq> 0"
      "unat (mbr_start mbr slot) + unat (mbr_sectors mbr slot) \<le> unat (bi_sectors disk)"
      using True by (auto simp: mbr_valid_def)
    have ne: "c_text s \<noteq> []" "length (c_text s) < 12" "blkdev_count t < 16"
      using s Cons.prems(6,10) True by (auto simp: part_name_def)
    from register_part_fresh [OF Cons.prems(1-5) ne(1,2) new ne(3) fit, of "of_nat slot + 1"] obtain t1 idx where
      t1: "blkdev_register_part t (Some s) k (of_nat slot + 1) (mbr_start mbr slot) (mbr_sectors mbr slot) = Some t1"
        "blkdev_wf t1" "blkdev_find_index t1 (Some s) = Some idx"
        "be_info (t1 ! idx) = be_info (part_entry (c_text s) disk k (of_nat slot + 1) (mbr_start mbr slot) (mbr_sectors mbr slot) None)"
        "blkdev_count t1 = blkdev_count t + 1" "\<forall>i < 16. blkdev_used t i \<longrightarrow> t1 ! i = t ! i"
        "\<forall>i < 16. blkdev_used t1 i \<longrightarrow> i = idx \<or> blkdev_used t i"
      by blast
    have done1: "scan_done t1 disk k mbr slot"
      using t1(3,4) s sid by (auto simp: scan_done_def blkdev_find_index_def)
    have used1: "blkdev_used t1 i" if "i < 16" "blkdev_used t i" for i using t1(6) that by (simp add: blkdev_used_def)
    have idx: "bi_name (be_info (t1 ! idx)) = part_name disk slot" using find_index_Some [OF t1(3)] s by simp
    have "blkdev_find_index t1 (Some (part_name disk sl)) = None" if "sl \<in> set slots" for sl
    proof -
      have sl: "sl < 4" "sl \<noteq> slot" using that Cons.prems(7,8) by auto
      have id: "c_text (part_name disk sl) = part_name disk sl" by (rule c_text_id [OF nn [OF sl(1)]])
      have "part_name disk sl \<noteq> part_name disk slot" using sl slot unfolding part_name_def
        by (auto simp: nth_eq_iff_index_eq less_Suc_eq numeral_eq_Suc)
      moreover have "\<forall>i < 16. blkdev_used t i \<longrightarrow> bi_name (be_info (t ! i)) \<noteq> part_name disk sl"
        using Cons.prems(9) that id unfolding find_index_None by (metis list.set_intros(2))
      ultimately show ?thesis using t1(6,7) idx id unfolding find_index_None by metis
    qed
    moreover have "blkdev_used t1 (unat k)" "be_info (t1 ! unat k) = disk"
      using used1 t1(6) Cons.prems(2-4) by auto
    moreover have "blkdev_count t1 + length (filter (mbr_valid disk mbr) slots) \<le> 16"
      using Cons.prems(10) True t1(5) by simp
    ultimately obtain t' where t': "scan_mbr_loop disk k mbr t1 (n + 1) slots =
          Some (t', n + 1 + length (filter (mbr_valid disk mbr) slots))" "blkdev_wf t'"
        "\<forall>i < 16. blkdev_used t1 i \<longrightarrow> t' ! i = t1 ! i"
        "\<forall>slot\<in>set slots. mbr_valid disk mbr slot \<longrightarrow> scan_done t' disk k mbr slot"
      using Cons.IH [OF t1(2) Cons.prems(2), of "n + 1"] Cons.prems(5-8) by auto
    have "scan_done t' disk k mbr slot" by (rule scan_done_mono [OF done1 t'(2,3)])
    with t' step t1(1,6) True used1 show ?thesis by (intro exI [of _ t']) auto
  qed
qed auto

section \<open>Calls through a partition\<close>

lemma wf_entry: "blkdev_wf t \<Longrightarrow> i < 16 \<Longrightarrow> blkdev_used t i \<Longrightarrow> entry_ok t i (t ! i)"
  by (simp add: blkdev_wf_def)

lemma info_for_index_of_nat:
  "i < 16 \<Longrightarrow> blkdev_used t i \<Longrightarrow> blkdev_info_for_index t (of_nat i) = Some (be_info (t ! i))"
  by (simp add: blkdev_info_for_index_def BLKDEV_MAX_def word_le_nat_alt unat_of_nat)

text \<open>The driver behind a partition, and the translated sector, which lies inside the parent.\<close>

lemma part_translate_wf:
  assumes wf: "blkdev_wf t" and i: "i < 16" "blkdev_used t i" and part: "bi_kind (be_info (t ! i)) = BLKDEV_KIND_PART"
  defines "info \<equiv> be_info (t ! i)"
  shows "\<exists>d. be_ops (t ! unat (bi_parent_index info)) = Some (DriverOps d) \<and>
    (\<forall>lba. part_translate t (of_nat i) lba =
       (if lba < bi_sectors info then Some (DriverOps d, bi_start_sector info + lba) else None)) \<and>
    (\<forall>lba < bi_sectors info. unat (bi_start_sector info + lba) = unat (bi_start_sector info) + unat lba \<and>
       unat (bi_start_sector info) + unat lba < unat (bi_sectors (be_info (t ! unat (bi_parent_index info)))))"
proof -
  let ?p = "unat (bi_parent_index info)"
  have "part_ok t i (t ! i)" using wf_entry [OF wf i] part
    by (auto simp: entry_ok_def disk_ok_def BLKDEV_KIND_DISK_def BLKDEV_KIND_PART_def)
  then obtain d where p: "?p < 16" "blkdev_used t ?p" "be_ops (t ! ?p) = Some (DriverOps d)"
      "unat (bi_start_sector info) + unat (bi_sectors info) \<le> unat (bi_sectors (be_info (t ! ?p)))"
    by (auto simp: part_ok_def disk_ok_def Let_def info_def)
  then have ops: "blkdev_ops_at t (bi_parent_index info) = Some (DriverOps d)"
    by (simp add: blkdev_ops_at_def BLKDEV_MAX_def word_le_nat_alt)
  have tr: "part_translate t (of_nat i) lba =
      (if lba < bi_sectors info then Some (DriverOps d, bi_start_sector info + lba) else None)" for lba
    using part ops by (cases "lba < bi_sectors info") (simp_all add: part_translate_def info_for_index_of_nat [OF i] info_def [symmetric] linorder_not_le linorder_not_less)
  have "unat (bi_start_sector info + lba) = unat (bi_start_sector info) + unat lba \<and>
       unat (bi_start_sector info) + unat lba < unat (bi_sectors (be_info (t ! ?p)))" if "lba < bi_sectors info" for lba
    using that p(4) unsigned_less [of "bi_sectors (be_info (t ! ?p))", where ?'a=nat] by (simp add: word_less_nat_alt unat_word_ariths)
  with tr p(3) show ?thesis by blast
qed

lemma ops_driver [simp]:
  "ops_read_sector drv t (DriverOps d) w lba = Some (drv d w lba)"
  "ops_write_sector drw t (DriverOps d) w lba buf = Some (drw d w lba buf)"
  by (simp_all add: ops_read_sector.simps ops_write_sector.simps)

lemma ops_part:
  "ops_read_sector drv t (PartOps i) w lba =
     (case part_translate t i lba of None \<Rightarrow> Some (None, w) | Some (ops, l) \<Rightarrow> ops_read_sector drv t ops w l)"
  "ops_write_sector drw t (PartOps i) w lba buf =
     (case part_translate t i lba of None \<Rightarrow> Some (False, w) | Some (ops, l) \<Rightarrow> ops_write_sector drw t ops w l buf)"
  by (simp_all add: ops_read_sector.simps [of drv t "PartOps i"] ops_write_sector.simps [of drw t "PartOps i"])

section \<open>The sector device contract\<close>

text \<open>
  What a client of a device relies on: a read that succeeds returns the contents of the sector
  and changes none, a write that succeeds replaces exactly that sector, and a write that fails
  can have changed only that sector.
\<close>

locale sector_devices =
  fixes rd :: "'w \<Rightarrow> 'd \<Rightarrow> u32 \<Rightarrow> sector option \<times> 'w"
    and wr :: "'w \<Rightarrow> 'd \<Rightarrow> u32 \<Rightarrow> sector \<Rightarrow> bool \<times> 'w"
    and sec :: "'w \<Rightarrow> 'd \<Rightarrow> u32 \<Rightarrow> sector"
    and devs :: "'d set"
    and ok :: "'w \<Rightarrow> bool"
  assumes read_law: "ok w \<Longrightarrow> d \<in> devs \<Longrightarrow> rd w d a = (r, w') \<Longrightarrow>
      ok w' \<and> (\<forall>d'\<in>devs. sec w' d' = sec w d') \<and> (\<forall>s. r = Some s \<longrightarrow> s = sec w d a \<and> length s = 512)"
    and write_law: "ok w \<Longrightarrow> d \<in> devs \<Longrightarrow> length s = 512 \<Longrightarrow> wr w d a s = (b, w') \<Longrightarrow>
      ok w' \<and> (\<forall>d'\<in>devs. \<forall>a'. d' \<noteq> d \<or> a' \<noteq> a \<longrightarrow> sec w' d' a' = sec w d' a') \<and> (b \<longrightarrow> sec w' d a = s)"
begin

lemma write_read:
  assumes "ok w" "d \<in> devs" "length s = 512" "wr w d a s = (True, w1)" "rd w1 d a = (Some s', w2)"
  shows "s' = s"
  using write_law [OF assms(1-4)] read_law [of w1 d a "Some s'" w2] assms(2,5) by auto

end

section \<open>The embedded root disk is a sector device\<close>

definition image_sector :: "u8 list \<Rightarrow> u32 \<Rightarrow> sector" where
  "image_sector img lba = take 512 (drop (512 * unat (lba - 2048)) img)"

definition image_ok :: "u8 list \<Rightarrow> bool" where
  "image_ok img \<longleftrightarrow> length img < 2 ^ 32"

definition image_has :: "u8 list \<Rightarrow> u32 \<Rightarrow> bool" where
  "image_has img lba \<longleftrightarrow> 2048 \<le> lba \<and> lba - 2048 < (of_nat (length img) :: u32) div 512"

lemma rootfs_offset:
  assumes "image_ok img" and "x < (of_nat (length img) :: u32) div 512"
  shows "unat (x * 512) = 512 * unat x" and "512 * unat x + 512 \<le> length img"
proof -
  have "unat x < length img div 512"
    using assms by (simp add: word_less_nat_alt image_ok_def unat_div_distrib unat_of_nat)
  then show b: "512 * unat x + 512 \<le> length img" by auto
  then have "512 * unat x < 2 ^ 32" using assms(1) by (simp add: image_ok_def)
  then show "unat (x * 512) = 512 * unat x" by (simp add: unat_word_ariths mult.commute)
qed

lemma rootfs_read_eq:
  assumes "image_ok img"
  shows "arm64_rootfs_read_sector img lba = (if image_has img lba then Some (image_sector img lba) else None, img)"
proof -
  define x where "x = lba - 2048"
  show ?thesis
    using rootfs_offset(1) [OF assms, of x]
    by (auto simp: arm64_rootfs_read_sector_def image_has_def image_sector_def ARM64_ROOTFS_PARTITION_START_def
        BLKDEV_SECTOR_SIZE_def Let_def linorder_not_le linorder_not_less simp flip: x_def)
qed

lemma rootfs_write_eq:
  assumes "image_ok img" "length s = 512"
  shows "arm64_rootfs_write_sector img lba s =
    (if image_has img lba
     then (True, take (512 * unat (lba - 2048)) img @ s @ drop (512 * unat (lba - 2048) + 512) img)
     else (False, img))"
proof -
  define x where "x = lba - 2048"
  show ?thesis
    using rootfs_offset(1) [OF assms(1), of x] assms(2)
    by (auto simp: arm64_rootfs_write_sector_def image_has_def ARM64_ROOTFS_PARTITION_START_def
        BLKDEV_SECTOR_SIZE_def Let_def linorder_not_le linorder_not_less simp flip: x_def)
qed

lemma image_sector_length: "image_ok img \<Longrightarrow> image_has img lba \<Longrightarrow> length (image_sector img lba) = 512"
  using rootfs_offset(2) [of img "lba - 2048"] by (simp add: image_has_def image_sector_def)

lemma rootfs_write_law:
  assumes "image_ok img" "length s = 512" "arm64_rootfs_write_sector img lba s = (b, img')"
  shows "image_ok img' \<and> (\<forall>a. a \<noteq> lba \<longrightarrow> image_sector img' a = image_sector img a) \<and>
    (b \<longrightarrow> image_sector img' lba = s) \<and> (\<not> b \<longrightarrow> img' = img) \<and> b = image_has img lba \<and> length img' = length img"
proof (cases "image_has img lba")
  case False
  then show ?thesis using assms by (simp add: rootfs_write_eq)
next
  case True
  let ?o = "512 * unat (lba - 2048)"
  from True rootfs_offset(2) [OF assms(1), of "lba - 2048"] have off: "?o + 512 \<le> length img"
    by (simp add: image_has_def)
  from assms True have res: "b" "img' = take ?o img @ s @ drop (?o + 512) img"
    by (auto simp: rootfs_write_eq)
  have "image_sector img' a = image_sector img a" if a: "a \<noteq> lba" for a
  proof -
    have "unat (a - 2048) \<noteq> unat (lba - 2048)" using a by (simp add: word_unat_eq_iff [symmetric])
    then consider "512 * unat (a - 2048) + 512 \<le> ?o" | "?o + 512 \<le> 512 * unat (a - 2048)" by linarith
    then show ?thesis
    proof cases
      case 1
      then show ?thesis using off assms(2) unfolding res image_sector_def by (simp add: take_drop)
    next
      case 2
      then show ?thesis using off assms(2) unfolding res image_sector_def by simp
    qed
  qed
  moreover have "image_sector img' lba = s" using off assms(2) unfolding res image_sector_def by simp
  moreover have "length img' = length img" using off assms unfolding res by simp
  ultimately show ?thesis using res(1) True assms(1) by (auto simp: image_ok_def)
qed

interpretation rootfs: sector_devices "\<lambda>img d lba. arm64_rootfs_read_sector img lba"
  "\<lambda>img d lba s. arm64_rootfs_write_sector img lba s" "\<lambda>img d. image_sector img" "{rootfs_ops}" image_ok
proof
  show "image_ok w' \<and> (\<forall>d'\<in>{rootfs_ops}. image_sector w' = image_sector w) \<and>
      (\<forall>s. r = Some s \<longrightarrow> s = image_sector w a \<and> length s = 512)"
    if "image_ok w" "arm64_rootfs_read_sector w a = (r, w')" for w r w' a
    using that image_sector_length by (auto simp: rootfs_read_eq split: if_splits)
  show "image_ok w' \<and>
      (\<forall>d'\<in>{rootfs_ops}. \<forall>a'. d' \<noteq> d \<or> a' \<noteq> a \<longrightarrow> image_sector w' a' = image_sector w a') \<and>
      (b \<longrightarrow> image_sector w' a = s)"
    if "image_ok w" "d \<in> {rootfs_ops}" "length s = 512" "arm64_rootfs_write_sector w a s = (b, w')" for w d s a b w'
    using rootfs_write_law [OF that(1,3,4)] that(2) by auto
qed

section \<open>Disjoint partitions of sector devices are sector devices\<close>

definition part_driver :: "blk_table \<Rightarrow> nat \<Rightarrow> blk_ops" where
  "part_driver t i = the (be_ops (t ! unat (bi_parent_index (be_info (t ! i)))))"

definition part_sec :: "('w \<Rightarrow> blk_ops \<Rightarrow> u32 \<Rightarrow> sector) \<Rightarrow> blk_table \<Rightarrow> 'w \<Rightarrow> blk_ops \<Rightarrow> u32 \<Rightarrow> sector" where
  "part_sec sec t w ops lba =
     (case ops of
        DriverOps d \<Rightarrow> sec w ops lba
      | PartOps k \<Rightarrow> (let i = unat k; info = be_info (t ! i) in
          if lba < bi_sectors info then sec w (part_driver t i) (bi_start_sector info + lba) else []))"

definition parts_apart :: "blk_table \<Rightarrow> nat \<Rightarrow> nat \<Rightarrow> bool" where
  "parts_apart t i j \<longleftrightarrow> part_driver t i \<noteq> part_driver t j \<or>
     (let a = be_info (t ! i); b = be_info (t ! j) in
      unat (bi_start_sector a) + unat (bi_sectors a) \<le> unat (bi_start_sector b) \<or>
      unat (bi_start_sector b) + unat (bi_sectors b) \<le> unat (bi_start_sector a))"

definition is_part :: "blk_table \<Rightarrow> nat \<Rightarrow> bool" where
  "is_part t i \<longleftrightarrow> i < 16 \<and> blkdev_used t i \<and> bi_kind (be_info (t ! i)) = BLKDEV_KIND_PART"

lemma part_driver_wf: "blkdev_wf t \<Longrightarrow> is_part t i \<Longrightarrow> \<exists>d. part_driver t i = DriverOps d"
  using part_translate_wf [of t i] by (auto simp: is_part_def part_driver_def)

lemma ops_part_wf:
  assumes wf: "blkdev_wf t" and i: "is_part t i" and d: "part_driver t i = DriverOps d"
  shows "ops_read_sector drv t (PartOps (of_nat i)) w lba =
       Some (if lba < bi_sectors (be_info (t ! i)) then drv d w (bi_start_sector (be_info (t ! i)) + lba) else (None, w))"
    and "ops_write_sector drw t (PartOps (of_nat i)) w' lba buf =
       Some (if lba < bi_sectors (be_info (t ! i)) then drw d w' (bi_start_sector (be_info (t ! i)) + lba) buf else (False, w'))"
  using part_translate_wf [OF wf, of i] i d by (auto simp: is_part_def part_driver_def ops_part)

lemma parts_apart_sectors:
  assumes wf: "blkdev_wf t" and i: "is_part t i" and j: "is_part t j" and apart: "i \<noteq> j \<longrightarrow> parts_apart t i j"
    and a: "a < bi_sectors (be_info (t ! i))" and b: "b < bi_sectors (be_info (t ! j))" and ne: "i \<noteq> j \<or> a \<noteq> b"
  shows "part_driver t i \<noteq> part_driver t j \<or>
    bi_start_sector (be_info (t ! i)) + a \<noteq> bi_start_sector (be_info (t ! j)) + b"
proof (cases "i = j")
  case False
  have "unat (bi_start_sector (be_info (t ! i)) + a) = unat (bi_start_sector (be_info (t ! i))) + unat a"
    "unat (bi_start_sector (be_info (t ! j)) + b) = unat (bi_start_sector (be_info (t ! j))) + unat b"
    using part_translate_wf [OF wf, of i] part_translate_wf [OF wf, of j] i j a b by (auto simp: is_part_def)
  then show ?thesis using False apart a b
    by (auto simp: parts_apart_def Let_def word_less_nat_alt dest: arg_cong [where f = unat])
qed (use ne in auto)

lemma partition_devices:
  fixes drv :: "nat \<Rightarrow> 'w read_fn" and drw :: "nat \<Rightarrow> 'w write_fn"
  assumes dev: "sector_devices (\<lambda>w ops lba. the (ops_read_sector drv t ops w lba))
      (\<lambda>w ops lba s. the (ops_write_sector drw t ops w lba s)) sec D ok"
    and wf: "blkdev_wf t" and I: "\<forall>i\<in>I. is_part t i \<and> part_driver t i \<in> D"
    and apart: "\<forall>i\<in>I. \<forall>j\<in>I. i \<noteq> j \<longrightarrow> parts_apart t i j"
  shows "sector_devices (\<lambda>w ops lba. the (ops_read_sector drv t ops w lba))
      (\<lambda>w ops lba s. the (ops_write_sector drw t ops w lba s)) (part_sec sec t) ((\<lambda>i. PartOps (of_nat i)) ` I) ok"
proof
  fix w w' ops a and r :: "sector option"
  assume ok: "ok w" and ops: "ops \<in> (\<lambda>i. PartOps (of_nat i)) ` I"
    and rd: "the (ops_read_sector drv t ops w a) = (r, w')"
  from ops obtain i where i: "i \<in> I" "ops = PartOps (of_nat i)" by blast
  with I have p: "is_part t i" "part_driver t i \<in> D" "unat (of_nat i :: u32) = i"
    by (auto simp: is_part_def unat_of_nat)
  let ?n = "be_info (t ! i)"
  from part_driver_wf [OF wf p(1)] obtain d where d1: "part_driver t i = DriverOps d" by blast
  note d = d1 ops_part_wf(1) [OF wf p(1) d1, of drv w a]
  have same: "\<forall>d'\<in>D. sec w' d' = sec w d' \<Longrightarrow> \<forall>o'\<in>(\<lambda>i. PartOps (of_nat i)) ` I. part_sec sec t w' o' = part_sec sec t w o'"
    using I by (intro ballI ext) (auto simp: part_sec_def Let_def is_part_def unat_of_nat)
  show "ok w' \<and> (\<forall>o'\<in>(\<lambda>i. PartOps (of_nat i)) ` I. part_sec sec t w' o' = part_sec sec t w o') \<and>
    (\<forall>s. r = Some s \<longrightarrow> s = part_sec sec t w ops a \<and> length s = 512)"
  proof (cases "a < bi_sectors ?n")
    case True
    with rd d i have "the (ops_read_sector drv t (DriverOps d) w (bi_start_sector ?n + a)) = (r, w')" by simp
    from sector_devices.read_law [OF dev ok _ this] d(1) p(2)
    have l: "ok w'" "\<forall>d'\<in>D. sec w' d' = sec w d'"
      "\<forall>s. r = Some s \<longrightarrow> s = sec w (DriverOps d) (bi_start_sector ?n + a) \<and> length s = 512" by auto
    have "part_sec sec t w ops a = sec w (DriverOps d) (bi_start_sector ?n + a)"
      using True i p d(1) by (simp add: part_sec_def)
    with l same show ?thesis by simp
  qed (use rd d i ok in auto)
next
  fix w w' ops a b and s :: sector
  assume ok: "ok w" and ops: "ops \<in> (\<lambda>i. PartOps (of_nat i)) ` I" and len: "length s = 512"
    and wr: "the (ops_write_sector drw t ops w a s) = (b, w')"
  from ops obtain i where i: "i \<in> I" "ops = PartOps (of_nat i)" by blast
  with I have p: "is_part t i" "part_driver t i \<in> D" "unat (of_nat i :: u32) = i"
    by (auto simp: is_part_def unat_of_nat)
  let ?n = "be_info (t ! i)"
  from part_driver_wf [OF wf p(1)] obtain d where d1: "part_driver t i = DriverOps d" by blast
  note d = d1 ops_part_wf(2) [OF wf p(1) d1, of drw w a s]
  show "ok w' \<and> (\<forall>o'\<in>(\<lambda>i. PartOps (of_nat i)) ` I. \<forall>a'. o' \<noteq> ops \<or> a' \<noteq> a \<longrightarrow>
      part_sec sec t w' o' a' = part_sec sec t w o' a') \<and> (b \<longrightarrow> part_sec sec t w' ops a = s)"
  proof (cases "a < bi_sectors ?n")
    case True
    with wr d i have "the (ops_write_sector drw t (DriverOps d) w (bi_start_sector ?n + a) s) = (b, w')" by simp
    from sector_devices.write_law [OF dev ok _ len this] d(1) p(2)
    have l: "ok w'" "\<forall>d'\<in>D. \<forall>a'. d' \<noteq> DriverOps d \<or> a' \<noteq> bi_start_sector ?n + a \<longrightarrow> sec w' d' a' = sec w d' a'"
      "b \<longrightarrow> sec w' (DriverOps d) (bi_start_sector ?n + a) = s" by auto
    have "part_sec sec t w' (PartOps (of_nat j)) a' = part_sec sec t w (PartOps (of_nat j)) a'"
      if j: "j \<in> I" and ne: "PartOps (of_nat j) \<noteq> ops \<or> a' \<noteq> a" for j a'
    proof (cases "a' < bi_sectors (be_info (t ! j))")
      case below: True
      have pj: "is_part t j" "part_driver t j \<in> D" "unat (of_nat j :: u32) = j"
        using I j by (auto simp: is_part_def unat_of_nat)
      have "part_driver t j \<noteq> part_driver t i \<or>
          bi_start_sector (be_info (t ! j)) + a' \<noteq> bi_start_sector ?n + a"
        using ne i j apart by (intro parts_apart_sectors [OF wf pj(1) p(1) _ below True]) auto
      with l(2) pj(2) d(1) have "sec w' (part_driver t j) (bi_start_sector (be_info (t ! j)) + a') =
          sec w (part_driver t j) (bi_start_sector (be_info (t ! j)) + a')" by auto
      with pj(3) show ?thesis by (simp add: part_sec_def Let_def)
    qed (use I j in \<open>auto simp: part_sec_def Let_def is_part_def unat_of_nat\<close>)
    moreover have "part_sec sec t w' ops a = sec w' (DriverOps d) (bi_start_sector ?n + a)"
      using True i p d(1) by (simp add: part_sec_def)
    ultimately show ?thesis using l by auto
  qed (use wr d i ok in auto)
qed

section \<open>The boot-time table\<close>

definition boot_table :: blk_table where
  "boot_table = fst (arm64_rootfs_register blkdev_reset)"

lemma boot_table_entries:
  "snd (arm64_rootfs_register blkdev_reset)"
  "is_part boot_table 1" "part_driver boot_table 1 = DriverOps 0"
  "bi_sectors (be_info (boot_table ! 1)) = 260096" "bi_start_sector (be_info (boot_table ! 1)) = 2048"
  by code_simp+

lemma register_one_wf: "blkdev_wf t \<Longrightarrow> blkdev_wf (fst (arm64_register_one t disk part minor))"
  by (auto simp: arm64_register_one_def rootfs_ops_def dest: register_disk_wf register_part_wf split: option.splits)

lemma rootfs_register_wf: "blkdev_wf t \<Longrightarrow> blkdev_wf (fst (arm64_rootfs_register t))"
  using register_one_wf [of t "''sda''" "''sda1''" 0]
  by (auto simp: arm64_rootfs_register_def split: prod.splits bool.splits dest: register_one_wf)

lemma boot_table_wf: "blkdev_wf boot_table"
  unfolding boot_table_def by (rule rootfs_register_wf [OF blkdev_reset_wf])

lemma boot_disk_device:
  "sector_devices (\<lambda>w ops lba. the (ops_read_sector (\<lambda>_. arm64_rootfs_read_sector) t ops w lba))
     (\<lambda>w ops lba s. the (ops_write_sector (\<lambda>_. arm64_rootfs_write_sector) t ops w lba s))
     (\<lambda>img d. image_sector img) {rootfs_ops} image_ok"
proof (unfold_locales, goal_cases)
  case (1 w d a r w')
  then have "arm64_rootfs_read_sector w a = (r, w')" by (simp add: rootfs_ops_def)
  with 1(1) show ?case using rootfs.read_law [of w rootfs_ops a r w'] by simp
next
  case (2 w d s a b w')
  then have "arm64_rootfs_write_sector w a s = (b, w')" by (simp add: rootfs_ops_def)
  with 2 show ?case using rootfs.write_law [of w rootfs_ops s a b w'] by simp
qed

interpretation sda1: sector_devices
  "\<lambda>w ops lba. the (ops_read_sector (\<lambda>_. arm64_rootfs_read_sector) boot_table ops w lba)"
  "\<lambda>w ops lba s. the (ops_write_sector (\<lambda>_. arm64_rootfs_write_sector) boot_table ops w lba s)"
  "part_sec (\<lambda>img d. image_sector img) boot_table" "{PartOps 1}" image_ok
  using partition_devices [OF boot_disk_device boot_table_wf, of "{1}"] boot_table_entries
  by (simp add: rootfs_ops_def)

section \<open>Totality\<close>

lemma snprintf_total: "fmt_text fmt args = Some t \<Longrightarrow> \<exists>r. k_snprintf buf n fmt args = Some r"
  by (simp add: k_snprintf_def k_vsnprintf_def vsnprintf_loop_text Let_def)

lemma scan_mbr_slot_total: "\<exists>r. scan_mbr_slot disk k mbr t slot = Some r"
proof -
  have "fmt_text ''%s%u'' [ArgStr (Some (bi_name disk)), ArgInt (of_nat slot + 1)] =
      Some (bi_name disk @ number 10 False (of_nat slot + 1))"
    by (simp add: spec_text_conv)
  from snprintf_total [OF this] obtain b l where
    "k_snprintf (replicate BLKDEV_NAME_MAX NUL) (of_nat BLKDEV_NAME_MAX) ''%s%u''
       [ArgStr (Some (bi_name disk)), ArgInt (of_nat slot + 1)] = Some (b, l)" by (metis surj_pair)
  then show ?thesis unfolding scan_mbr_slot_def Let_def by (auto split: option.split)
qed

lemma scan_mbr_loop_total: "\<exists>r. scan_mbr_loop disk k mbr t n slots = Some r"
proof (induction slots arbitrary: t n)
  case (Cons slot slots)
  from scan_mbr_slot_total [of disk k mbr t slot] obtain t1 b where "scan_mbr_slot disk k mbr t slot = Some (t1, b)"
    by (metis surj_pair)
  with Cons.IH show ?case by simp
qed simp

lemma disk_ops:
  assumes wf: "blkdev_wf t" and info: "blkdev_info_for_index t k = Some disk" and kind: "bi_kind disk = BLKDEV_KIND_DISK"
  shows "unat k < 16" "blkdev_used t (unat k)" "be_info (t ! unat k) = disk" "\<exists>d. blkdev_ops_at t k = Some (DriverOps d)"
proof -
  show k: "unat k < 16" "blkdev_used t (unat k)" "be_info (t ! unat k) = disk"
    using info by (auto simp: blkdev_info_for_index_def BLKDEV_MAX_def word_le_nat_alt split: if_splits)
  have "disk_ok (t ! unat k)" using wf_entry [OF wf k(1,2)] k(3) kind
    by (auto simp: entry_ok_def part_ok_def BLKDEV_KIND_DISK_def BLKDEV_KIND_PART_def)
  then show "\<exists>d. blkdev_ops_at t k = Some (DriverOps d)"
    using k info by (auto simp: disk_ok_def blkdev_ops_at_def blkdev_info_for_index_def split: if_splits)
qed

lemma blkdev_scan_mbr_wf:
  assumes wf: "blkdev_wf t"
  shows "\<exists>t' w' r. blkdev_scan_mbr drv t w k = Some (t', w', r) \<and> blkdev_wf t'"
proof (cases "\<exists>disk. blkdev_info_for_index t k = Some disk \<and> bi_kind disk = BLKDEV_KIND_DISK")
  case False
  then have "blkdev_scan_mbr drv t w k = Some (t, w, None)"
    by (auto simp: blkdev_scan_mbr_def split: option.splits)
  with wf show ?thesis by blast
next
  case True
  then obtain disk where disk: "blkdev_info_for_index t k = Some disk" "bi_kind disk = BLKDEV_KIND_DISK" by blast
  from disk_ops(4) [OF wf disk] obtain d where d: "blkdev_ops_at t k = Some (DriverOps d)" by blast
  obtain m w1 where m: "drv d w 0 = (m, w1)" by force
  show ?thesis
  proof (cases m)
    case (Some mbr)
    obtain t1 n where l: "scan_mbr_loop disk k mbr t 0 [0..<4] = Some (t1, n)"
      using scan_mbr_loop_total by (metis surj_pair)
    with scan_mbr_loop_wf [OF wf l] wf disk d m Some show ?thesis
      by (simp add: blkdev_scan_mbr_def del: upt_rec_numeral)
  qed (use wf disk d m in \<open>simp add: blkdev_scan_mbr_def\<close>)
qed

section \<open>Properties\<close>

text \<open>The calls that change the registry.\<close>

datatype blk_call =
    RegisterDisk "string option" u32 u32 u32 nat
  | RegisterPart "string option" u32 u32 u32 u32
  | ScanMbr u32
  | RegisterRootfs

fun blk_step :: "(nat \<Rightarrow> 'w read_fn) \<Rightarrow> blk_call \<Rightarrow> blk_table \<times> 'w \<Rightarrow> (blk_table \<times> 'w) option" where
  "blk_step drv (RegisterDisk name major minor sectors d) (t, w) =
     Some (case blkdev_register_disk t name major minor sectors (Some (DriverOps d)) of None \<Rightarrow> t | Some t1 \<Rightarrow> t1, w)"
| "blk_step drv (RegisterPart name parent n start sectors) (t, w) =
     Some (case blkdev_register_part t name parent n start sectors of None \<Rightarrow> t | Some t1 \<Rightarrow> t1, w)"
| "blk_step drv (ScanMbr k) (t, w) = map_option (\<lambda>(t1, w1, _). (t1, w1)) (blkdev_scan_mbr drv t w k)"
| "blk_step drv RegisterRootfs (t, w) = Some (fst (arm64_rootfs_register t), w)"

fun blk_run :: "(nat \<Rightarrow> 'w read_fn) \<Rightarrow> blk_call list \<Rightarrow> blk_table \<times> 'w \<Rightarrow> (blk_table \<times> 'w) option" where
  "blk_run drv [] s = Some s"
| "blk_run drv (c # cs) s = (case blk_step drv c s of None \<Rightarrow> None | Some s1 \<Rightarrow> blk_run drv cs s1)"

lemma blk_step_wf: "blkdev_wf t \<Longrightarrow> \<exists>t' w'. blk_step drv c (t, w) = Some (t', w') \<and> blkdev_wf t'"
proof (cases c)
  case (ScanMbr k)
  assume "blkdev_wf t"
  from blkdev_scan_mbr_wf [OF this, of drv w k] ScanMbr show ?thesis by auto
qed (auto split: option.splits intro: register_disk_wf register_part_wf rootfs_register_wf)

text \<open>
  C25: the device registry stays well formed: any sequence of disk and partition registrations
  and partition table scans on a fresh registry, over drivers that return anything, comes to an
  end in a table where names are unique, every disk has a driver, and every partition has its own
  operations, a registered parent disk and a sector range inside it.
\<close>

theorem registry_invariant:
  "\<exists>t w'. blk_run drv calls (blkdev_reset, w) = Some (t, w') \<and> blkdev_wf t"
proof -
  have "blkdev_wf t \<Longrightarrow> \<exists>t' w'. blk_run drv calls (t, w) = Some (t', w') \<and> blkdev_wf t'" for t w
  proof (induction calls arbitrary: t w)
    case (Cons c cs)
    from blk_step_wf [OF Cons.prems, of drv c w] obtain t1 w1 where "blk_step drv c (t, w) = Some (t1, w1)" "blkdev_wf t1"
      by blast
    with Cons.IH show ?case by simp
  qed simp
  with blkdev_reset_wf show ?thesis by blast
qed

text \<open>
  C26: a partition confines its accesses: in a well-formed registry a sector inside the
  partition is read and written on its disk at the translated sector, which does not wrap and lies
  inside the disk, and a sector past its end is refused without calling the driver.
\<close>

theorem partition_confined:
  assumes "blkdev_wf t" and "is_part t i"
  shows "\<exists>d. part_driver t i = DriverOps d \<and>
    (let info = be_info (t ! i); parent = be_info (t ! unat (bi_parent_index info)); at = bi_start_sector info + lba in
     if lba < bi_sectors info
     then unat at = unat (bi_start_sector info) + unat lba \<and> unat at < unat (bi_sectors parent) \<and>
       ops_read_sector drv t (PartOps (of_nat i)) w lba = Some (drv d w at) \<and>
       ops_write_sector drw t (PartOps (of_nat i)) w lba buf = Some (drw d w at buf)
     else ops_read_sector drv t (PartOps (of_nat i)) w lba = Some (None, w) \<and>
       ops_write_sector drw t (PartOps (of_nat i)) w lba buf = Some (False, w))"
proof -
  from part_driver_wf [OF assms] obtain d where d: "part_driver t i = DriverOps d" by blast
  have b: "lba < bi_sectors (be_info (t ! i)) \<Longrightarrow>
      unat (bi_start_sector (be_info (t ! i)) + lba) = unat (bi_start_sector (be_info (t ! i))) + unat lba \<and>
      unat (bi_start_sector (be_info (t ! i))) + unat lba <
        unat (bi_sectors (be_info (t ! unat (bi_parent_index (be_info (t ! i))))))"
    using part_translate_wf [OF assms(1), of i] assms(2) by (auto simp: is_part_def)
  show ?thesis using d b ops_part_wf(1) [OF assms d, of drv w lba] ops_part_wf(2) [OF assms d, of drw w lba buf]
    by (auto simp: Let_def)
qed

theorem partition_confined_witness:
  "ops_read_sector (\<lambda>_. arm64_rootfs_read_sector) boot_table (PartOps 1) (replicate 512 7) 0 =
     Some (Some (replicate 512 7), replicate 512 7) \<and>
   ops_read_sector (\<lambda>_. arm64_rootfs_read_sector) boot_table (PartOps 1) (replicate 512 7) 260096 =
     Some (None, replicate 512 7)"
proof -
  let ?r = "\<lambda>_ :: nat. arm64_rootfs_read_sector" and ?w = "\<lambda>_ :: nat. arm64_rootfs_write_sector"
  let ?img = "replicate 512 (7 :: u8)"
  note p = partition_confined [OF boot_table_wf boot_table_entries(2), where w = ?img and drv = ?r and drw = ?w and buf = ?img,
      unfolded Let_def boot_table_entries]
  have img: "arm64_rootfs_read_sector ?img 2048 = (Some ?img, ?img)"
    by (simp add: rootfs_read_eq image_ok_def image_has_def image_sector_def)
  show ?thesis using p [where lba = 0] p [where lba = 260096] img by auto
qed

text \<open>
  C27: scanning a partition table registers exactly its primary partitions: on a readable
  disk with a boot signature, with room in the registry and no name taken, the scan reports the number
  of valid entries, every valid entry is then found under the disk's name and its number with the
  start and length of the entry, and no earlier device changes.
\<close>

theorem scan_mbr_exact:
  assumes "blkdev_wf t" "blkdev_info_for_index t k = Some disk" "bi_kind disk = BLKDEV_KIND_DISK"
    "blkdev_ops_at t k = Some (DriverOps d)" "drv d w 0 = (Some mbr, w1)" "mbr ! 510 = 0x55" "mbr ! 511 = 0xAA"
    "length (bi_name disk) \<le> 10" "\<forall>slot < 4. blkdev_find_index t (Some (part_name disk slot)) = None"
    "blkdev_count t + length (filter (mbr_valid disk mbr) [0..<4]) \<le> 16"
  shows "\<exists>t'. blkdev_scan_mbr drv t w k = Some (t', w1, Some (length (filter (mbr_valid disk mbr) [0..<4]))) \<and>
    blkdev_wf t' \<and> (\<forall>i < 16. blkdev_used t i \<longrightarrow> t' ! i = t ! i) \<and>
    (\<forall>slot < 4. mbr_valid disk mbr slot \<longrightarrow>
       (\<exists>idx. blkdev_find_index t' (Some (part_name disk slot)) = Some idx \<and>
          bi_start_sector (be_info (t' ! idx)) = mbr_start mbr slot \<and> bi_sectors (be_info (t' ! idx)) = mbr_sectors mbr slot \<and>
          bi_kind (be_info (t' ! idx)) = BLKDEV_KIND_PART \<and> bi_parent_index (be_info (t' ! idx)) = k))"
proof -
  note disk = disk_ops [OF assms(1-3)]
  have sub: "set [0..<4] \<subseteq> {..<4 :: nat}" by auto
  obtain t' where t': "scan_mbr_loop disk k mbr t 0 [0..<4] = Some (t', 0 + length (filter (mbr_valid disk mbr) [0..<4]))"
      "blkdev_wf t'" "\<forall>i < 16. blkdev_used t i \<longrightarrow> t' ! i = t ! i"
      "\<forall>slot\<in>set [0..<4]. mbr_valid disk mbr slot \<longrightarrow> scan_done t' disk k mbr slot"
    using scan_mbr_loop_exact [OF assms(1) disk(1-3) assms(3,8) sub, of mbr 0] assms(9,10)
    by (auto simp del: upt_rec_numeral)
  have "blkdev_scan_mbr drv t w k = Some (t', w1, Some (length (filter (mbr_valid disk mbr) [0..<4])))"
    using assms(2-7) t'(1) by (simp add: blkdev_scan_mbr_def del: upt_rec_numeral)
  moreover have "\<exists>idx. blkdev_find_index t' (Some (part_name disk slot)) = Some idx \<and>
      bi_start_sector (be_info (t' ! idx)) = mbr_start mbr slot \<and> bi_sectors (be_info (t' ! idx)) = mbr_sectors mbr slot \<and>
      bi_kind (be_info (t' ! idx)) = BLKDEV_KIND_PART \<and> bi_parent_index (be_info (t' ! idx)) = k"
    if "slot < 4" "mbr_valid disk mbr slot" for slot
    using t'(4) that by (auto simp: scan_done_def part_entry_def simp del: upt_rec_numeral)
  ultimately show ?thesis using t'(2,3) by blast
qed

text \<open>A disk whose driver returns a table with one Linux partition of 100 sectors at sector 8.\<close>

definition ex_mbr :: sector where
  "ex_mbr = (replicate 512 0)[450 := 0x83, 454 := 8, 458 := 100, 510 := 0x55, 511 := 0xAA]"

definition ex_disk_table :: blk_table where
  "ex_disk_table = the (blkdev_register_disk blkdev_reset (Some ''sda'') 8 0 1000 (Some (DriverOps 0)))"

lemma ex_disk_table:
  "blkdev_register_disk blkdev_reset (Some ''sda'') 8 0 1000 (Some (DriverOps 0)) = Some ex_disk_table"
  "blkdev_info_for_index ex_disk_table 0 = Some (be_info (ex_disk_table ! 0))"
  "bi_kind (be_info (ex_disk_table ! 0)) = BLKDEV_KIND_DISK"
  "blkdev_ops_at ex_disk_table 0 = Some (DriverOps 0)"
  "bi_name (be_info (ex_disk_table ! 0)) = ''sda''"
  "list_all (\<lambda>slot. blkdev_find_index ex_disk_table (Some (part_name (be_info (ex_disk_table ! 0)) slot)) = None) [0..<4]"
  "blkdev_count ex_disk_table = 1"
  "bi_sectors (be_info (ex_disk_table ! 0)) = 1000"
  by code_simp+

lemma ex_mbr_valid:
  "mbr_valid (be_info (ex_disk_table ! 0)) ex_mbr 0" "mbr_start ex_mbr 0 = 8" "mbr_sectors ex_mbr 0 = 100"
  by (simp_all add: mbr_valid_def ex_disk_table mbr_type_def mbr_start_def mbr_sectors_def le32_def ex_mbr_def nth_list_update)

theorem scan_mbr_exact_witness:
  "\<exists>t' n idx. blkdev_scan_mbr (\<lambda>_ w _. (Some ex_mbr, w)) ex_disk_table () 0 = Some (t', (), Some n) \<and>
     blkdev_find_index t' (Some ''sda1'') = Some idx \<and> bi_start_sector (be_info (t' ! idx)) = 8 \<and>
     bi_sectors (be_info (t' ! idx)) = 100"
proof -
  have wf: "blkdev_wf ex_disk_table" by (rule register_disk_wf [OF blkdev_reset_wf ex_disk_table(1)])
  have sig: "ex_mbr ! 510 = 0x55" "ex_mbr ! 511 = 0xAA" by (simp_all add: ex_mbr_def)
  have free: "\<forall>slot < 4. blkdev_find_index ex_disk_table (Some (part_name (be_info (ex_disk_table ! 0)) slot)) = None"
    using ex_disk_table(6) by (simp add: list_all_iff del: upt_rec_numeral)
  have "length (filter P [0..<4]) \<le> 4" for P :: "nat \<Rightarrow> bool"
    using length_filter_le [of P "[0..<4]"] by (simp del: upt_rec_numeral)
  then have room: "blkdev_count ex_disk_table + length (filter P [0..<4]) \<le> 16" for P :: "nat \<Rightarrow> bool"
    unfolding ex_disk_table(7) by (rule order_trans [OF add_left_mono]) simp
  have name: "part_name (be_info (ex_disk_table ! 0)) 0 = ''sda1''" by (simp add: part_name_def ex_disk_table(5))
  show ?thesis
    using scan_mbr_exact [OF wf ex_disk_table(2-4), where drv = "\<lambda>_ w _. (Some ex_mbr, w)" and w = "()" and mbr = ex_mbr,
        OF _ sig _ free room] ex_mbr_valid name ex_disk_table(5)
    by fastforce
qed

end
