(* ===== verification/Bcache.thy ===== *)
theory Bcache
  imports Blkdev
begin

text \<open>
  The block cache: \<^verbatim>\<open>kernel/blk/bcache.c\<close>.  The slots are a list of records, a pointer to a slot is
  its index, and the LRU list is threaded through the \<open>prev\<close> and \<open>next\<close> indices as in the code.
  A device is a value of \<open>'d\<close> whose sector functions are parameters over the state \<open>'w\<close> of the
  devices; \<open>hw\<close> says whether its table has a write function.  The victim search is a loop that
  may not end, so the operations that call it return \<open>None\<close> when they do not return.
\<close>

section \<open>Model\<close>

record 'd bcache_slot =
  bs_dev :: "'d option"
  bs_lba :: u32
  bs_valid :: bool
  bs_dirty :: bool
  bs_prev :: "nat option"
  bs_next :: "nat option"
  bs_data :: "u8 list"

record bcache_stats =
  st_hits :: u32
  st_misses :: u32
  st_writebacks :: u32
  st_write_through :: u32
  st_evictions :: u32

record 'd bcache =
  bc_slots :: "'d bcache_slot list"
  bc_head :: "nat option"
  bc_tail :: "nat option"
  bc_stats :: bcache_stats

definition BCACHE_SLOTS :: nat where "BCACHE_SLOTS = 64"
definition BCACHE_BLOCK_SIZE :: nat where "BCACHE_BLOCK_SIZE = 4096"
definition BCACHE_SECS_PER_BLK :: nat where "BCACHE_SECS_PER_BLK = 8"

definition upd_slot :: "nat \<Rightarrow> ('d bcache_slot \<Rightarrow> 'd bcache_slot) \<Rightarrow> 'd bcache \<Rightarrow> 'd bcache" where
  "upd_slot i f bc = bc\<lparr>bc_slots := (bc_slots bc)[i := f (bc_slots bc ! i)]\<rparr>"

definition upd_stats :: "(bcache_stats \<Rightarrow> bcache_stats) \<Rightarrow> 'd bcache \<Rightarrow> 'd bcache" where
  "upd_stats f bc = bc\<lparr>bc_stats := f (bc_stats bc)\<rparr>"

definition lru_detach :: "'d bcache \<Rightarrow> nat \<Rightarrow> 'd bcache" where
  "lru_detach bc s =
     (let p = bs_prev (bc_slots bc ! s); n = bs_next (bc_slots bc ! s);
          bc1 = (case p of Some i \<Rightarrow> upd_slot i (\<lambda>x. x\<lparr>bs_next := n\<rparr>) bc | None \<Rightarrow> bc\<lparr>bc_head := n\<rparr>);
          bc2 = (case n of Some i \<Rightarrow> upd_slot i (\<lambda>x. x\<lparr>bs_prev := p\<rparr>) bc1 | None \<Rightarrow> bc1\<lparr>bc_tail := p\<rparr>)
      in upd_slot s (\<lambda>x. x\<lparr>bs_prev := None, bs_next := None\<rparr>) bc2)"

definition lru_push_front :: "'d bcache \<Rightarrow> nat \<Rightarrow> 'd bcache" where
  "lru_push_front bc s =
     (let h = bc_head bc;
          bc1 = upd_slot s (\<lambda>x. x\<lparr>bs_prev := None, bs_next := h\<rparr>) bc;
          bc2 = (case h of Some i \<Rightarrow> upd_slot i (\<lambda>x. x\<lparr>bs_prev := Some s\<rparr>) bc1 | None \<Rightarrow> bc1);
          bc3 = bc2\<lparr>bc_head := Some s\<rparr>
      in if bc_tail bc3 = None then bc3\<lparr>bc_tail := Some s\<rparr> else bc3)"

definition lru_push_back :: "'d bcache \<Rightarrow> nat \<Rightarrow> 'd bcache" where
  "lru_push_back bc s =
     (let t = bc_tail bc;
          bc1 = upd_slot s (\<lambda>x. x\<lparr>bs_prev := t, bs_next := None\<rparr>) bc;
          bc2 = (case t of Some i \<Rightarrow> upd_slot i (\<lambda>x. x\<lparr>bs_next := Some s\<rparr>) bc1 | None \<Rightarrow> bc1);
          bc3 = bc2\<lparr>bc_tail := Some s\<rparr>
      in if bc_head bc3 = None then bc3\<lparr>bc_head := Some s\<rparr> else bc3)"

definition lru_touch :: "'d bcache \<Rightarrow> nat \<Rightarrow> 'd bcache" where
  "lru_touch bc s = (if bc_head bc = Some s then bc else lru_push_front (lru_detach bc s) s)"

definition lru_demote :: "'d bcache \<Rightarrow> nat \<Rightarrow> 'd bcache" where
  "lru_demote bc s = (if bc_tail bc = Some s then bc else lru_push_back (lru_detach bc s) s)"

definition slot_is :: "'d \<Rightarrow> u32 \<Rightarrow> 'd bcache_slot \<Rightarrow> bool" where
  "slot_is dev lba s \<longleftrightarrow> bs_valid s \<and> bs_dev s = Some dev \<and> bs_lba s = lba"

definition find_slot :: "'d bcache \<Rightarrow> 'd \<Rightarrow> u32 \<Rightarrow> nat option" where
  "find_slot bc dev lba = find (\<lambda>i. slot_is dev lba (bc_slots bc ! i)) [0..<BCACHE_SLOTS]"

type_synonym ('w, 'd) dev_read = "'w \<Rightarrow> 'd \<Rightarrow> u32 \<Rightarrow> sector option \<times> 'w"
type_synonym ('w, 'd) dev_write = "'w \<Rightarrow> 'd \<Rightarrow> u32 \<Rightarrow> sector \<Rightarrow> bool \<times> 'w"

fun disk_read_loop :: "('w, 'd) dev_read \<Rightarrow> 'w \<Rightarrow> 'd \<Rightarrow> u32 \<Rightarrow> u8 list \<Rightarrow> nat list \<Rightarrow> bool \<times> u8 list \<times> 'w" where
  "disk_read_loop rd w dev lba buf [] = (True, buf, w)"
| "disk_read_loop rd w dev lba buf (i # is) =
     (case rd w dev (lba + of_nat i) of
        (None, w1) \<Rightarrow> (False, buf, w1)
      | (Some s, w1) \<Rightarrow> disk_read_loop rd w1 dev lba (take (512 * i) buf @ s @ drop (512 * i + 512) buf) is)"

definition disk_read_block :: "('w, 'd) dev_read \<Rightarrow> 'w \<Rightarrow> 'd \<Rightarrow> u32 \<Rightarrow> u8 list \<Rightarrow> bool \<times> u8 list \<times> 'w" where
  "disk_read_block rd w dev lba buf = disk_read_loop rd w dev lba buf [0..<BCACHE_SECS_PER_BLK]"

fun disk_write_loop :: "('w, 'd) dev_write \<Rightarrow> 'w \<Rightarrow> 'd \<Rightarrow> u32 \<Rightarrow> u8 list \<Rightarrow> nat list \<Rightarrow> bool \<times> 'w" where
  "disk_write_loop wr w dev lba buf [] = (True, w)"
| "disk_write_loop wr w dev lba buf (i # is) =
     (case wr w dev (lba + of_nat i) (take 512 (drop (512 * i) buf)) of
        (False, w1) \<Rightarrow> (False, w1)
      | (True, w1) \<Rightarrow> disk_write_loop wr w1 dev lba buf is)"

definition disk_write_block ::
  "('d \<Rightarrow> bool) \<Rightarrow> ('w, 'd) dev_write \<Rightarrow> 'w \<Rightarrow> 'd \<Rightarrow> u32 \<Rightarrow> u8 list \<Rightarrow> bool \<times> 'w" where
  "disk_write_block hw wr w dev lba buf =
     (if \<not> hw dev then (False, w) else disk_write_loop wr w dev lba buf [0..<BCACHE_SECS_PER_BLK])"

definition slot_writeback ::
  "('d \<Rightarrow> bool) \<Rightarrow> ('w, 'd) dev_write \<Rightarrow> 'd bcache \<Rightarrow> 'w \<Rightarrow> nat \<Rightarrow> bool \<times> 'd bcache \<times> 'w" where
  "slot_writeback hw wr bc w s =
     (let sl = bc_slots bc ! s in
      if \<not> bs_valid sl \<or> \<not> bs_dirty sl then (True, bc, w)
      else case disk_write_block hw wr w (the (bs_dev sl)) (bs_lba sl) (bs_data sl) of
        (False, w1) \<Rightarrow> (False, bc, w1)
      | (True, w1) \<Rightarrow>
          (True, upd_stats (\<lambda>st. st\<lparr>st_writebacks := st_writebacks st + 1\<rparr>) (upd_slot s (\<lambda>x. x\<lparr>bs_dirty := False\<rparr>) bc), w1))"

text \<open>The walk from the tail for a victim.\<close>

partial_function (option) find_victim ::
  "('d \<Rightarrow> bool) \<Rightarrow> ('w, 'd) dev_write \<Rightarrow> 'd bcache \<Rightarrow> 'w \<Rightarrow> nat option \<Rightarrow> (nat option \<times> 'd bcache \<times> 'w) option" where
  "find_victim hw wr bc w c =
     (case c of
        None \<Rightarrow> Some (None, bc, w)
      | Some i \<Rightarrow>
          (let prev = bs_prev (bc_slots bc ! i) in
           if \<not> bs_valid (bc_slots bc ! i) \<or> \<not> bs_dirty (bc_slots bc ! i) then Some (Some i, bc, w)
           else case slot_writeback hw wr bc w i of (ok, bc1, w1) \<Rightarrow>
             if ok then Some (Some i, bc1, w1) else find_victim hw wr (lru_touch bc1 i) w1 prev))"

definition acquire_slot ::
  "('d \<Rightarrow> bool) \<Rightarrow> ('w, 'd) dev_write \<Rightarrow> 'd bcache \<Rightarrow> 'w \<Rightarrow> 'd \<Rightarrow> u32 \<Rightarrow> (nat option \<times> 'd bcache \<times> 'w) option" where
  "acquire_slot hw wr bc w dev lba =
     (case find_slot bc dev lba of
        Some s \<Rightarrow> Some (Some s, lru_touch bc s, w)
      | None \<Rightarrow>
          (case find_victim hw wr bc w (bc_tail bc) of
             None \<Rightarrow> None
           | Some (None, bc1, w1) \<Rightarrow> Some (None, bc1, w1)
           | Some (Some victim, bc1, w1) \<Rightarrow>
               (let bc2 = (if bs_valid (bc_slots bc1 ! victim)
                           then upd_stats (\<lambda>st. st\<lparr>st_evictions := st_evictions st + 1\<rparr>) bc1 else bc1);
                    bc3 = upd_slot victim (\<lambda>x. x\<lparr>bs_dev := Some dev, bs_lba := lba, bs_valid := False, bs_dirty := False\<rparr>) bc2
                in Some (Some victim, lru_touch bc3 victim, w1))))"

definition empty_slot :: "'d bcache_slot \<Rightarrow> 'd bcache_slot" where
  "empty_slot s = s\<lparr>bs_dev := None, bs_lba := 0, bs_valid := False, bs_dirty := False, bs_prev := None, bs_next := None\<rparr>"

definition zero_stats :: bcache_stats where
  "zero_stats = \<lparr>st_hits = 0, st_misses = 0, st_writebacks = 0, st_write_through = 0, st_evictions = 0\<rparr>"

definition bcache_init :: "'d bcache \<Rightarrow> 'd bcache" where
  "bcache_init bc =
     fold (\<lambda>i bc. lru_push_front (upd_slot i empty_slot bc) i) [0..<BCACHE_SLOTS]
       (bc\<lparr>bc_head := None, bc_tail := None, bc_stats := zero_stats\<rparr>)"

text \<open>A read gives the block, or \<open>None\<close> for the error -1; the devices may have changed either way.\<close>

definition bcache_read ::
  "('d \<Rightarrow> bool) \<Rightarrow> ('w, 'd) dev_read \<Rightarrow> ('w, 'd) dev_write \<Rightarrow> 'd bcache \<Rightarrow> 'w \<Rightarrow> 'd option \<Rightarrow> u32 \<Rightarrow>
   (u8 list option \<times> 'd bcache \<times> 'w) option" where
  "bcache_read hw rd wr bc w odev lba =
     (case odev of
        None \<Rightarrow> Some (None, bc, w)
      | Some dev \<Rightarrow>
          (case find_slot bc dev lba of
             Some s \<Rightarrow> Some (Some (bs_data (bc_slots bc ! s)),
                          upd_stats (\<lambda>st. st\<lparr>st_hits := st_hits st + 1\<rparr>) (lru_touch bc s), w)
           | None \<Rightarrow>
               (case acquire_slot hw wr bc w dev lba of
                  None \<Rightarrow> None
                | Some (None, bc1, w1) \<Rightarrow> Some (None, bc1, w1)
                | Some (Some s, bc1, w1) \<Rightarrow>
                    (case disk_read_block rd w1 dev lba (bs_data (bc_slots bc1 ! s)) of
                       (False, data, w2) \<Rightarrow>
                         (let bc2 = upd_slot s (\<lambda>x. x\<lparr>bs_data := data, bs_dev := None, bs_valid := False, bs_dirty := False\<rparr>) bc1
                          in Some (None, lru_demote bc2 s, w2))
                     | (True, data, w2) \<Rightarrow>
                         (let bc2 = upd_slot s (\<lambda>x. x\<lparr>bs_data := data, bs_valid := True, bs_dirty := False\<rparr>) bc1
                          in Some (Some data, upd_stats (\<lambda>st. st\<lparr>st_misses := st_misses st + 1\<rparr>) bc2, w2))))))"

definition bcache_write ::
  "('d \<Rightarrow> bool) \<Rightarrow> ('w, 'd) dev_write \<Rightarrow> 'd bcache \<Rightarrow> 'w \<Rightarrow> 'd option \<Rightarrow> u32 \<Rightarrow> u8 list \<Rightarrow> (bool \<times> 'd bcache \<times> 'w) option" where
  "bcache_write hw wr bc w odev lba buf =
     (case odev of
        None \<Rightarrow> Some (False, bc, w)
      | Some dev \<Rightarrow>
          (case acquire_slot hw wr bc w dev lba of
             None \<Rightarrow> None
           | Some (None, bc1, w1) \<Rightarrow> Some (False, bc1, w1)
           | Some (Some s, bc1, w1) \<Rightarrow>
               Some (True, upd_slot s (\<lambda>x. x\<lparr>bs_data := buf, bs_valid := True, bs_dirty := True\<rparr>) bc1, w1)))"

definition bcache_write_through ::
  "('d \<Rightarrow> bool) \<Rightarrow> ('w, 'd) dev_write \<Rightarrow> 'd bcache \<Rightarrow> 'w \<Rightarrow> 'd option \<Rightarrow> u32 \<Rightarrow> u8 list \<Rightarrow> bool \<times> 'd bcache \<times> 'w" where
  "bcache_write_through hw wr bc w odev lba buf =
     (case odev of
        None \<Rightarrow> (False, bc, w)
      | Some dev \<Rightarrow>
          (case disk_write_block hw wr w dev lba buf of
             (False, w1) \<Rightarrow> (False, bc, w1)
           | (True, w1) \<Rightarrow>
               (let bc1 = upd_stats (\<lambda>st. st\<lparr>st_write_through := st_write_through st + 1\<rparr>) bc in
                case find_slot bc1 dev lba of
                  Some s \<Rightarrow> (True, lru_touch (upd_slot s (\<lambda>x. x\<lparr>bs_data := buf, bs_dirty := False\<rparr>) bc1) s, w1)
                | None \<Rightarrow> (True, bc1, w1))))"

fun sync_loop ::
  "('d \<Rightarrow> bool) \<Rightarrow> ('w, 'd) dev_write \<Rightarrow> 'd option \<Rightarrow> bool \<Rightarrow> 'd bcache \<Rightarrow> 'w \<Rightarrow> nat list \<Rightarrow> bool \<times> 'd bcache \<times> 'w" where
  "sync_loop hw wr odev rc bc w [] = (rc, bc, w)"
| "sync_loop hw wr odev rc bc w (i # is) =
     (let s = bc_slots bc ! i in
      if \<not> bs_valid s \<or> \<not> bs_dirty s then sync_loop hw wr odev rc bc w is
      else if odev \<noteq> None \<and> bs_dev s \<noteq> odev then sync_loop hw wr odev rc bc w is
      else case slot_writeback hw wr bc w i of
        (True, bc1, w1) \<Rightarrow> sync_loop hw wr odev rc bc1 w1 is
      | (False, bc1, w1) \<Rightarrow> sync_loop hw wr odev False bc1 w1 is)"

definition bcache_sync ::
  "('d \<Rightarrow> bool) \<Rightarrow> ('w, 'd) dev_write \<Rightarrow> 'd bcache \<Rightarrow> 'w \<Rightarrow> 'd option \<Rightarrow> bool \<times> 'd bcache \<times> 'w" where
  "bcache_sync hw wr bc w odev = sync_loop hw wr odev True bc w [0..<BCACHE_SLOTS]"

definition bcache_invalidate :: "'d bcache \<Rightarrow> 'd \<Rightarrow> u32 \<Rightarrow> 'd bcache" where
  "bcache_invalidate bc dev lba =
     (case find_slot bc dev lba of
        None \<Rightarrow> bc
      | Some s \<Rightarrow> lru_demote (upd_slot s (\<lambda>x. x\<lparr>bs_valid := False, bs_dirty := False, bs_dev := None\<rparr>) bc) s)"

definition bcache_get_stats :: "'d bcache \<Rightarrow> bcache_stats" where
  "bcache_get_stats bc = bc_stats bc"

definition bcache_reset_stats :: "'d bcache \<Rightarrow> 'd bcache" where
  "bcache_reset_stats bc = upd_stats (\<lambda>_. zero_stats) bc"

section \<open>The LRU list\<close>

definition prevs :: "'d bcache \<Rightarrow> nat \<Rightarrow> nat option" where "prevs bc i = bs_prev (bc_slots bc ! i)"
definition nexts :: "'d bcache \<Rightarrow> nat \<Rightarrow> nat option" where "nexts bc i = bs_next (bc_slots bc ! i)"

text \<open>The links along \<open>xs\<close>, from the predecessor \<open>p\<close> to the successor \<open>n\<close>.\<close>

fun chain :: "(nat \<Rightarrow> nat option) \<Rightarrow> (nat \<Rightarrow> nat option) \<Rightarrow> nat option \<Rightarrow> nat list \<Rightarrow> nat option \<Rightarrow> bool" where
  "chain P N p [] n \<longleftrightarrow> True"
| "chain P N p (x # xs) n \<longleftrightarrow> P x = p \<and> N x = first_of xs n \<and> chain P N (Some x) xs n"

lemma chain_append [simp]:
  "chain P N p (xs @ ys) n \<longleftrightarrow> chain P N p xs (first_of ys n) \<and> chain P N (last_of xs p) ys n"
  by (induction xs arbitrary: p) auto

lemma chain_cong: "\<forall>x\<in>set xs. P x = P' x \<and> N x = N' x \<Longrightarrow> chain P N p xs n = chain P' N' p xs n"
  by (induction xs arbitrary: p) auto

lemma chain_P_upd [simp]: "i \<notin> set xs \<Longrightarrow> chain (P(i := v)) N p xs n = chain P N p xs n"
  by (rule chain_cong) auto

lemma chain_N_upd [simp]: "i \<notin> set xs \<Longrightarrow> chain P (N(i := v)) p xs n = chain P N p xs n"
  by (rule chain_cong) auto

lemma chain_set_last: "distinct xs \<Longrightarrow> xs \<noteq> [] \<Longrightarrow> chain P N p xs n \<Longrightarrow> chain P (N(last xs := n')) p xs n'"
proof (induction xs arbitrary: p)
  case (Cons x xs)
  show ?case
  proof (cases "xs = []")
    case False
    then have "x \<noteq> last xs" "first_of xs n = first_of xs n'" using Cons.prems(1) by (auto simp: first_of_def split: list.split)
    with False Cons show ?thesis by simp
  qed (use Cons.prems in simp)
qed simp

lemma chain_set_first: "distinct xs \<Longrightarrow> xs \<noteq> [] \<Longrightarrow> chain P N p xs n \<Longrightarrow> chain (P(hd xs := p')) N p' xs n"
  by (cases xs) auto

definition lru :: "'d bcache \<Rightarrow> nat list \<Rightarrow> bool" where
  "lru bc xs \<longleftrightarrow> length (bc_slots bc) = BCACHE_SLOTS \<and> distinct xs \<and> set xs \<subseteq> {..<BCACHE_SLOTS} \<and>
     chain (prevs bc) (nexts bc) None xs None \<and> bc_head bc = first_of xs None \<and> bc_tail bc = last_of xs None"

text \<open>What a slot holds, apart from its links.\<close>

definition core :: "'d bcache_slot \<Rightarrow> 'd bcache_slot" where
  "core s = s\<lparr>bs_prev := None, bs_next := None\<rparr>"

definition cores :: "'d bcache \<Rightarrow> 'd bcache_slot list" where
  "cores bc = map core (bc_slots bc)"

lemma upd_slot_simps [simp]:
  "bc_head (upd_slot i f bc) = bc_head bc" "bc_tail (upd_slot i f bc) = bc_tail bc"
  "bc_stats (upd_slot i f bc) = bc_stats bc" "length (bc_slots (upd_slot i f bc)) = length (bc_slots bc)"
  by (simp_all add: upd_slot_def)

lemma upd_slot_nth:
  "i < length (bc_slots bc) \<Longrightarrow> bc_slots (upd_slot i f bc) ! k = (if k = i then f (bc_slots bc ! i) else bc_slots bc ! k)"
  by (cases "k = i") (simp_all add: upd_slot_def)

lemma links_upd:
  assumes "i < length (bc_slots bc)"
  shows "prevs (upd_slot i f bc) = (prevs bc)(i := bs_prev (f (bc_slots bc ! i)))"
    and "nexts (upd_slot i f bc) = (nexts bc)(i := bs_next (f (bc_slots bc ! i)))"
  using assms by (auto simp: prevs_def nexts_def upd_slot_nth)

lemma links_other [simp]:
  "prevs (bc\<lparr>bc_head := h\<rparr>) = prevs bc" "nexts (bc\<lparr>bc_head := h\<rparr>) = nexts bc"
  "prevs (bc\<lparr>bc_tail := h\<rparr>) = prevs bc" "nexts (bc\<lparr>bc_tail := h\<rparr>) = nexts bc"
  "prevs (upd_stats g bc) = prevs bc" "nexts (upd_stats g bc) = nexts bc"
  by (auto simp: prevs_def nexts_def upd_stats_def)

lemma cores_other [simp]:
  "cores (bc\<lparr>bc_head := h\<rparr>) = cores bc" "cores (bc\<lparr>bc_tail := h\<rparr>) = cores bc" "cores (upd_stats g bc) = cores bc"
  by (simp_all add: cores_def upd_stats_def)

lemma cores_upd: "cores (upd_slot i f bc) = (cores bc)[i := core (f (bc_slots bc ! i))]"
  by (simp add: cores_def upd_slot_def map_update)

lemma cores_upd_same: "(\<And>s. core (f s) = core s) \<Longrightarrow> cores (upd_slot i f bc) = cores bc"
  unfolding cores_upd by (cases "i < length (bc_slots bc)") (simp_all add: cores_def list_update_same_conv list_update_beyond)

lemma cores_links [simp]:
  "cores (upd_slot i (\<lambda>x. x\<lparr>bs_next := a\<rparr>) bc) = cores bc"
  "cores (upd_slot i (\<lambda>x. x\<lparr>bs_prev := a\<rparr>) bc) = cores bc"
  "cores (upd_slot i (\<lambda>x. x\<lparr>bs_prev := a, bs_next := b\<rparr>) bc) = cores bc"
  by (rule cores_upd_same; simp add: core_def)+

lemma lru_ops_cores [simp]:
  "cores (lru_detach bc s) = cores bc" "cores (lru_push_front bc s) = cores bc" "cores (lru_push_back bc s) = cores bc"
  "cores (lru_touch bc s) = cores bc" "cores (lru_demote bc s) = cores bc"
  by (auto simp: lru_detach_def lru_push_front_def lru_push_back_def lru_touch_def lru_demote_def Let_def split: option.splits)

lemma lru_length: "lru bc xs \<Longrightarrow> length (bc_slots bc) = 64"
  by (simp add: lru_def BCACHE_SLOTS_def)

lemma lru_split:
  assumes "lru bc (as @ s # bs)"
  shows "bs_prev (bc_slots bc ! s) = last_of as None" "bs_next (bc_slots bc ! s) = first_of bs None"
  using assms by (auto simp: lru_def prevs_def nexts_def)

lemma lru_detach_lru:
  assumes l: "lru bc (as @ s # bs)"
  shows "lru (lru_detach bc s) (as @ bs)"
proof -
  note sp = lru_split [OF l]
  have len: "length (bc_slots bc) = 64" and d: "distinct (as @ s # bs)" and sub: "set (as @ s # bs) \<subseteq> {..<64}"
    using l by (auto simp: lru_def BCACHE_SLOTS_def)
  define bc1 where "bc1 = (case last_of as None of Some i \<Rightarrow> upd_slot i (\<lambda>x. x\<lparr>bs_next := first_of bs None\<rparr>) bc
      | None \<Rightarrow> bc\<lparr>bc_head := first_of bs None\<rparr>)"
  define bc2 where "bc2 = (case first_of bs None of Some i \<Rightarrow> upd_slot i (\<lambda>x. x\<lparr>bs_prev := last_of as None\<rparr>) bc1
      | None \<Rightarrow> bc1\<lparr>bc_tail := last_of as None\<rparr>)"
  have det: "lru_detach bc s = upd_slot s (\<lambda>x. x\<lparr>bs_prev := None, bs_next := None\<rparr>) bc2"
    unfolding lru_detach_def sp Let_def bc2_def bc1_def ..
  have c0: "chain (prevs bc) (nexts bc) None as (Some s)" "chain (prevs bc) (nexts bc) (Some s) bs None"
    using l by (auto simp: lru_def)
  have len1: "length (bc_slots bc1) = 64" by (simp add: bc1_def len split: option.split)
  have len2: "length (bc_slots bc2) = 64" by (simp add: bc2_def len1 split: option.split)
  have c1: "chain (prevs bc1) (nexts bc1) None as (first_of bs None)" "chain (prevs bc1) (nexts bc1) (Some s) bs None"
    "bc_head bc1 = first_of (as @ bs) None" "bc_tail bc1 = bc_tail bc"
  proof -
    show "chain (prevs bc1) (nexts bc1) None as (first_of bs None)"
    proof (cases "as = []")
      case False
      then have "last as \<in> set (as @ s # bs)" by simp
      with sub have "last as < 64" by blast
      with False c0(1) d show ?thesis
        by (simp add: bc1_def last_of_def links_upd len) (simp add: prevs_def [symmetric] fun_upd_idem chain_set_last)
    qed simp
    show "chain (prevs bc1) (nexts bc1) (Some s) bs None"
    proof (cases "as = []")
      case False
      then have "last as \<in> set (as @ s # bs)" by simp
      moreover have "set as \<inter> set bs = {}" using d by simp
      with last_in_set [OF False] have "last as \<notin> set bs" by blast
      ultimately have "last as < 64" "last as \<notin> set bs" using sub by blast+
      with False c0(2) show ?thesis by (simp add: bc1_def last_of_def links_upd len)
    qed (use c0(2) in \<open>simp add: bc1_def\<close>)
    show "bc_head bc1 = first_of (as @ bs) None"
      using l by (cases as) (auto simp: bc1_def last_of_def lru_def)
    show "bc_tail bc1 = bc_tail bc" by (simp add: bc1_def split: option.split)
  qed
  have c2: "chain (prevs bc2) (nexts bc2) None as (first_of bs None)" "chain (prevs bc2) (nexts bc2) (last_of as None) bs None"
    "bc_head bc2 = first_of (as @ bs) None" "bc_tail bc2 = last_of (as @ bs) None"
  proof -
    show "chain (prevs bc2) (nexts bc2) None as (first_of bs None)"
    proof (cases bs)
      case (Cons b bs')
      then have "b < 64" "b \<notin> set as" using sub d by auto
      with Cons c1(1) show ?thesis by (simp add: bc2_def links_upd len1)
    qed (use c1(1) in \<open>simp add: bc2_def\<close>)
    show "chain (prevs bc2) (nexts bc2) (last_of as None) bs None"
    proof (cases bs)
      case (Cons b bs')
      then have "b < 64" "b \<notin> set bs'" using sub d by auto
      with Cons c1(2) show ?thesis by (simp add: bc2_def links_upd len1) (simp add: nexts_def)
    qed simp
    show "bc_head bc2 = first_of (as @ bs) None" using c1(3) by (simp add: bc2_def split: option.split)
    show "bc_tail bc2 = last_of (as @ bs) None"
      using l c1(4) by (cases bs) (auto simp: bc2_def lru_def last_of_def)
  qed
  have "s < 64" "s \<notin> set as" "s \<notin> set bs" using d sub by auto
  with c2 d sub len2 show ?thesis unfolding det
    by (simp add: lru_def BCACHE_SLOTS_def links_upd)
qed

lemma lru_push_front_lru:
  assumes l: "lru bc xs" and s: "s \<notin> set xs" "s < 64"
  shows "lru (lru_push_front bc s) (s # xs)"
proof (cases xs)
  case Nil
  with l s show ?thesis by (simp add: lru_push_front_def lru_def BCACHE_SLOTS_def Let_def links_upd)
next
  case (Cons x xs')
  then have x: "x < 64" "x \<noteq> s" "x \<notin> set xs'" using l s by (auto simp: lru_def BCACHE_SLOTS_def)
  have h: "bc_head bc = Some x" "bc_tail bc = last_of xs None" "bc_tail bc \<noteq> None"
    using l Cons by (auto simp: lru_def last_of_def)
  have len: "length (bc_slots bc) = 64" by (rule lru_length [OF l])
  define bc1 where "bc1 = upd_slot s (\<lambda>y. y\<lparr>bs_prev := None, bs_next := Some x\<rparr>) bc"
  define bc2 where "bc2 = upd_slot x (\<lambda>y. y\<lparr>bs_prev := Some s\<rparr>) bc1"
  have p: "lru_push_front bc s = bc2\<lparr>bc_head := Some s\<rparr>"
    using h by (simp add: lru_push_front_def Let_def bc2_def bc1_def)
  have len1: "length (bc_slots bc1) = 64" by (simp add: bc1_def len)
  have P: "prevs bc2 = ((prevs bc)(s := None))(x := Some s)"
    by (simp add: bc2_def links_upd(1) len1 x) (simp add: bc1_def links_upd(1) len s)
  have "nexts bc2 = nexts bc1"
    by (simp add: bc2_def links_upd(2) len1 x) (simp add: fun_upd_idem_iff nexts_def)
  then have N: "nexts bc2 = (nexts bc)(s := Some x)"
    by (simp add: bc1_def links_upd(2) len s)
  have "chain (prevs bc) (nexts bc) None (x # xs') None" using l Cons by (simp add: lru_def)
  then have "chain (prevs bc2) (nexts bc2) None (s # x # xs') None"
    using x s Cons unfolding P N by auto
  then show ?thesis using l s Cons h unfolding p
    by (auto simp: lru_def BCACHE_SLOTS_def bc2_def bc1_def)
qed

lemma lru_push_back_lru:
  assumes l: "lru bc xs" and s: "s \<notin> set xs" "s < 64"
  shows "lru (lru_push_back bc s) (xs @ [s])"
proof (cases xs rule: rev_cases)
  case Nil
  with l s show ?thesis by (simp add: lru_push_back_def lru_def BCACHE_SLOTS_def Let_def links_upd)
next
  case (snoc ys x)
  then have x: "x < 64" "x \<noteq> s" "x \<notin> set ys" using l s by (auto simp: lru_def BCACHE_SLOTS_def)
  have h: "bc_tail bc = Some x" "bc_head bc = first_of xs None" "bc_head bc \<noteq> None"
    using l snoc by (auto simp: lru_def first_of_def split: list.splits)
  have len: "length (bc_slots bc) = 64" by (rule lru_length [OF l])
  define bc1 where "bc1 = upd_slot s (\<lambda>y. y\<lparr>bs_prev := Some x, bs_next := None\<rparr>) bc"
  define bc2 where "bc2 = upd_slot x (\<lambda>y. y\<lparr>bs_next := Some s\<rparr>) bc1"
  have p: "lru_push_back bc s = bc2\<lparr>bc_tail := Some s\<rparr>"
    using h by (simp add: lru_push_back_def Let_def bc2_def bc1_def)
  have len1: "length (bc_slots bc1) = 64" by (simp add: bc1_def len)
  have N: "nexts bc2 = ((nexts bc)(s := None))(x := Some s)"
    by (simp add: bc2_def links_upd(2) len1 x) (simp add: bc1_def links_upd(2) len s)
  have "prevs bc2 = prevs bc1"
    by (simp add: bc2_def links_upd(1) len1 x) (simp add: fun_upd_idem_iff prevs_def)
  then have P: "prevs bc2 = (prevs bc)(s := Some x)"
    by (simp add: bc1_def links_upd(1) len s)
  have "chain (prevs bc) (nexts bc) None (ys @ [x]) None" using l snoc by (simp add: lru_def)
  then have "chain (prevs bc2) (nexts bc2) None (ys @ [x, s]) None"
    using x s snoc unfolding P N by (auto simp: fun_upd_twist)
  then show ?thesis using l s snoc h unfolding p
    by (auto simp: lru_def BCACHE_SLOTS_def bc2_def bc1_def)
qed

lemma lru_touch_lru:
  assumes l: "lru bc (as @ s # bs)"
  shows "lru (lru_touch bc s) (s # as @ bs)"
proof (cases as)
  case Nil
  with l show ?thesis by (simp add: lru_touch_def) (simp add: lru_def)
next
  case (Cons a as')
  have "bc_head bc \<noteq> Some s" using l Cons by (auto simp: lru_def)
  then have "lru_touch bc s = lru_push_front (lru_detach bc s) s" by (simp add: lru_touch_def)
  with lru_push_front_lru [OF lru_detach_lru [OF l], of s] l show ?thesis
    by (auto simp: lru_def BCACHE_SLOTS_def)
qed

lemma lru_demote_lru:
  assumes l: "lru bc (as @ s # bs)"
  shows "lru (lru_demote bc s) (as @ bs @ [s])"
proof (cases bs rule: rev_cases)
  case Nil
  with l show ?thesis by (simp add: lru_demote_def) (simp add: lru_def)
next
  case (snoc bs' b)
  have "bc_tail bc \<noteq> Some s" using l snoc by (auto simp: lru_def)
  then have "lru_demote bc s = lru_push_back (lru_detach bc s) s" by (simp add: lru_demote_def)
  with lru_push_back_lru [OF lru_detach_lru [OF l], of s] l show ?thesis
    by (auto simp: lru_def BCACHE_SLOTS_def)
qed

text \<open>Changing what a slot holds leaves the list alone.\<close>

lemma lru_upd:
  assumes "lru bc xs" and "\<And>s. bs_prev (f s) = bs_prev s \<and> bs_next (f s) = bs_next s"
  shows "lru (upd_slot i f bc) xs"
proof (cases "i < 64")
  case True
  have "prevs (upd_slot i f bc) = prevs bc" "nexts (upd_slot i f bc) = nexts bc"
    using assms(2) True lru_length [OF assms(1)]
    by (simp_all add: links_upd fun_upd_idem_iff) (simp_all add: prevs_def nexts_def)
  with assms(1) show ?thesis by (simp add: lru_def)
next
  case False
  then have "upd_slot i f bc = bc" using lru_length [OF assms(1)] by (simp add: upd_slot_def list_update_beyond)
  with assms(1) show ?thesis by simp
qed

lemma lru_stats [simp]: "lru (upd_stats g bc) xs = lru bc xs"
  by (simp add: lru_def) (simp add: upd_stats_def)

text \<open>The whole list: every slot is on it.\<close>

definition lru_full :: "'d bcache \<Rightarrow> bool" where
  "lru_full bc \<longleftrightarrow> (\<exists>xs. lru bc xs \<and> set xs = {..<64})"

lemma lru_full_split: "lru_full bc \<Longrightarrow> s < 64 \<Longrightarrow> \<exists>as bs. lru bc (as @ s # bs) \<and> set (as @ s # bs) = {..<64}"
  unfolding lru_full_def by (metis lessThan_iff split_list)

lemma lru_full_touch: "lru_full bc \<Longrightarrow> s < 64 \<Longrightarrow> lru_full (lru_touch bc s)"
proof -
  assume "lru_full bc" "s < 64"
  then obtain as bs where l: "lru bc (as @ s # bs)" "set (as @ s # bs) = {..<64}" using lru_full_split by blast
  then have "set (s # as @ bs) = {..<64}" by auto
  with lru_touch_lru [OF l(1)] show ?thesis unfolding lru_full_def by blast
qed

lemma lru_full_demote: "lru_full bc \<Longrightarrow> s < 64 \<Longrightarrow> lru_full (lru_demote bc s)"
proof -
  assume "lru_full bc" "s < 64"
  then obtain as bs where l: "lru bc (as @ s # bs)" "set (as @ s # bs) = {..<64}" using lru_full_split by blast
  then have "set (as @ bs @ [s]) = {..<64}" by auto
  with lru_demote_lru [OF l(1)] show ?thesis unfolding lru_full_def by blast
qed

lemma lru_full_upd:
  "lru_full bc \<Longrightarrow> (\<And>s. bs_prev (f s) = bs_prev s \<and> bs_next (f s) = bs_next s) \<Longrightarrow> lru_full (upd_slot i f bc)"
  unfolding lru_full_def using lru_upd by blast

lemma lru_full_stats [simp]: "lru_full (upd_stats g bc) = lru_full bc"
  by (simp add: lru_full_def)

lemma lru_full_length: "lru_full bc \<Longrightarrow> length (bc_slots bc) = 64"
  unfolding lru_full_def using lru_length by blast

section \<open>Blocks of a sector device\<close>

definition block_sectors :: "u32 \<Rightarrow> u32 set" where
  "block_sectors a = (\<lambda>i. a + of_nat i) ` {..<8}"

lemma block_offset_inj: "i < 8 \<Longrightarrow> j < 8 \<Longrightarrow> (of_nat i :: u32) = of_nat j \<Longrightarrow> i = j"
  by (auto dest: arg_cong [where f = unat] simp: unat_of_nat)

context sector_devices
begin

definition dblock :: "'w \<Rightarrow> 'd \<Rightarrow> u32 \<Rightarrow> u8 list" where
  "dblock w d a = concat (map (\<lambda>i. sec w d (a + of_nat i)) [0..<8])"

lemma dblock_cong: "(\<And>x. x \<in> block_sectors a \<Longrightarrow> sec w' d x = sec w d x) \<Longrightarrow> dblock w' d a = dblock w d a"
  unfolding dblock_def by (intro arg_cong [where f = concat] map_cong) (auto simp: block_sectors_def)

lemma concat_chunks:
  "length buf = 512 * n \<Longrightarrow> concat (map (\<lambda>i. take 512 (drop (512 * i) buf)) [0..<n]) = buf"
proof (induction n arbitrary: buf)
  case (Suc n)
  have "map (\<lambda>i. take 512 (drop (512 * i) buf)) [0..<Suc n] =
      take 512 buf # map (\<lambda>i. take 512 (drop (512 * i) (drop 512 buf))) [0..<n]"
    by (simp add: upt_conv_Cons map_Suc_upt [symmetric] add.commute del: upt_Suc map_Suc_upt)
  with Suc.IH [of "drop 512 buf"] Suc.prems show ?case by (simp del: upt_Suc)
qed simp

lemma disk_write_loop_law:
  assumes "ok w" "d \<in> devs" "length buf = 4096" "set is \<subseteq> {..<8}" "distinct is"
    "disk_write_loop wr w d a buf is = (b, w')"
  shows "ok w' \<and> (\<forall>d'\<in>devs. \<forall>x. d' \<noteq> d \<or> x \<notin> (\<lambda>i. a + of_nat i) ` set is \<longrightarrow> sec w' d' x = sec w d' x) \<and>
    (b \<longrightarrow> (\<forall>i\<in>set is. sec w' d (a + of_nat i) = take 512 (drop (512 * i) buf)))"
  using assms
proof (induction "is" arbitrary: w)
  case (Cons i "is")
  obtain b1 w1 where w1: "wr w d (a + of_nat i) (take 512 (drop (512 * i) buf)) = (b1, w1)" by force
  have i: "i < 8" using Cons.prems(4) by simp
  then have len: "length (take 512 (drop (512 * i) buf)) = 512" using Cons.prems(3) by simp
  note law = write_law [OF Cons.prems(1,2) len w1]
  show ?case
  proof (cases b1)
    case False
    with Cons.prems(6) w1 law show ?thesis by auto
  next
    case True
    from True Cons.prems(6) w1 have r: "disk_write_loop wr w1 d a buf is = (b, w')" by simp
    have ih: "ok w'" "\<forall>d'\<in>devs. \<forall>x. d' \<noteq> d \<or> x \<notin> (\<lambda>i. a + of_nat i) ` set is \<longrightarrow> sec w' d' x = sec w1 d' x"
      "b \<longrightarrow> (\<forall>i\<in>set is. sec w' d (a + of_nat i) = take 512 (drop (512 * i) buf))"
      using Cons.IH [OF _ Cons.prems(2,3) _ _ r] Cons.prems law by auto
    have "a + of_nat i \<notin> (\<lambda>i. a + of_nat i) ` set is"
      using Cons.prems(4,5) i by (auto simp: subset_iff dest: block_offset_inj)
    with ih law True Cons.prems(2) show ?thesis by auto
  qed
qed simp

lemma disk_write_block_law:
  assumes "ok w" "d \<in> devs" "length buf = 4096" "disk_write_block hw wr w d a buf = (b, w')"
  shows "ok w'" "\<And>d' x. d' \<in> devs \<Longrightarrow> d' \<noteq> d \<or> x \<notin> block_sectors a \<Longrightarrow> sec w' d' x = sec w d' x"
    "b \<Longrightarrow> dblock w' d a = buf"
proof -
  have "ok w' \<and> (\<forall>d'\<in>devs. \<forall>x. d' \<noteq> d \<or> x \<notin> block_sectors a \<longrightarrow> sec w' d' x = sec w d' x) \<and>
    (b \<longrightarrow> dblock w' d a = buf)"
  proof (cases "hw d")
    case True
    with assms(4) have l: "disk_write_loop wr w d a buf [0..<8] = (b, w')"
      by (simp add: disk_write_block_def BCACHE_SECS_PER_BLK_def del: upt_rec_numeral)
    have s: "set [0..<8] = {..<8 :: nat}" by auto
    note law = disk_write_loop_law [OF assms(1-3) _ _ l, unfolded s]
    moreover have "dblock w' d a = concat (map (\<lambda>i. take 512 (drop (512 * i) buf)) [0..<8])" if b
      unfolding dblock_def using law that by (intro arg_cong [where f = concat] map_cong) auto
    ultimately show ?thesis using concat_chunks [of buf 8] assms(3) by (auto simp: block_sectors_def)
  qed (use assms in \<open>auto simp: disk_write_block_def\<close>)
  then show "ok w'" "\<And>d' x. d' \<in> devs \<Longrightarrow> d' \<noteq> d \<or> x \<notin> block_sectors a \<Longrightarrow> sec w' d' x = sec w d' x"
    "b \<Longrightarrow> dblock w' d a = buf" by auto
qed

lemma disk_read_loop_law:
  assumes "ok w" "d \<in> devs" "n \<le> 8" "length buf = 4096"
    "take (512 * n) buf = concat (map (\<lambda>i. sec w d (a + of_nat i)) [0..<n])"
    "disk_read_loop rd w d a buf [n..<8] = (b, data, w')"
  shows "ok w' \<and> (\<forall>d'\<in>devs. sec w' d' = sec w d') \<and> length data = 4096 \<and> (b \<longrightarrow> data = dblock w d a)"
  using assms
proof (induction "8 - n" arbitrary: n w buf)
  case 0
  then show ?case by (auto simp: dblock_def simp del: upt_rec_numeral)
next
  case (Suc k)
  then have n: "n < 8" "[n..<8] = n # [Suc n..<8]" by (auto simp: upt_conv_Cons)
  obtain r w1 where w1: "rd w d (a + of_nat n) = (r, w1)" by force
  note law = read_law [OF Suc.prems(1,2) w1]
  show ?case
  proof (cases r)
    case None
    with Suc.prems(4,6) w1 law n show ?thesis by auto
  next
    case (Some s)
    let ?buf = "take (512 * n) buf @ s @ drop (512 * n + 512) buf"
    have s: "s = sec w d (a + of_nat n)" "length s = 512" using law Some by auto
    have r: "disk_read_loop rd w1 d a ?buf [Suc n..<8] = (b, data, w')"
      using Suc.prems(6) w1 Some unfolding n(2) by simp
    have len: "length ?buf = 4096" using Suc.prems(4) n(1) s by simp
    have same: "sec w1 d = sec w d" using law Suc.prems(2) by auto
    have "length (take (512 * n) buf) = 512 * n" using Suc.prems(4) n(1) by simp
    then have "take (512 * Suc n) ?buf = take (512 * n) buf @ s" using s by (simp add: take_Cons')
    then have t: "take (512 * Suc n) ?buf = concat (map (\<lambda>i. sec w1 d (a + of_nat i)) [0..<Suc n])"
      using Suc.prems(5) s same by simp
    have "k = 8 - Suc n" "Suc n \<le> 8" using Suc.hyps(2) n(1) by auto
    from Suc.hyps(1) [OF this(1) _ Suc.prems(2) this(2) len t r] law same show ?thesis
      by (auto simp: dblock_def)
  qed
qed

lemma disk_read_block_law:
  assumes "ok w" "d \<in> devs" "length buf = 4096" "disk_read_block rd w d a buf = (b, data, w')"
  shows "ok w' \<and> (\<forall>d'\<in>devs. sec w' d' = sec w d') \<and> length data = 4096 \<and> (b \<longrightarrow> data = dblock w d a)"
  using disk_read_loop_law [of w d 0 buf a b data w'] assms
  by (simp add: disk_read_block_def BCACHE_SECS_PER_BLK_def del: upt_rec_numeral)

end

section \<open>The cache and the devices as one block store\<close>

text \<open>\<open>K\<close> are the blocks the clients use: different blocks of a device do not share sectors.\<close>

locale block_cache = sector_devices rd wr sec devs ok
  for rd :: "'w \<Rightarrow> 'd \<Rightarrow> u32 \<Rightarrow> sector option \<times> 'w" and wr and sec and devs and ok +
  fixes K :: "('d \<times> u32) set"
  assumes K_devs: "(d, a) \<in> K \<Longrightarrow> d \<in> devs"
    and K_apart: "(d, a) \<in> K \<Longrightarrow> (d, b) \<in> K \<Longrightarrow> a \<noteq> b \<Longrightarrow> block_sectors a \<inter> block_sectors b = {}"
begin

definition slot_ok :: "'w \<Rightarrow> 'd bcache_slot \<Rightarrow> bool" where
  "slot_ok w s \<longleftrightarrow> length (bs_data s) = 4096 \<and>
     (bs_valid s \<longrightarrow> (\<exists>d. bs_dev s = Some d \<and> (d, bs_lba s) \<in> K \<and>
        (\<not> bs_dirty s \<longrightarrow> bs_data s = dblock w d (bs_lba s))))"

definition one_copy :: "'d bcache_slot list \<Rightarrow> bool" where
  "one_copy cs \<longleftrightarrow> (\<forall>i < 64. \<forall>j < 64. \<forall>d a. slot_is d a (cs ! i) \<and> slot_is d a (cs ! j) \<longrightarrow> i = j)"

definition coherent :: "'w \<Rightarrow> 'd bcache_slot list \<Rightarrow> bool" where
  "coherent w cs \<longleftrightarrow> length cs = 64 \<and> (\<forall>i < 64. slot_ok w (cs ! i)) \<and> one_copy cs"

definition view :: "'w \<Rightarrow> 'd bcache_slot list \<Rightarrow> 'd \<Rightarrow> u32 \<Rightarrow> u8 list" where
  "view w cs d a =
     (case find (\<lambda>i. slot_is d a (cs ! i)) [0..<64] of Some i \<Rightarrow> bs_data (cs ! i) | None \<Rightarrow> dblock w d a)"

lemma view_hit: "one_copy cs \<Longrightarrow> i < 64 \<Longrightarrow> slot_is d a (cs ! i) \<Longrightarrow> view w cs d a = bs_data (cs ! i)"
proof -
  assume one: "one_copy cs" and i: "i < 64" "slot_is d a (cs ! i)"
  show ?thesis
  proof (cases "find (\<lambda>i. slot_is d a (cs ! i)) [0..<64]")
    case None
    with i show ?thesis by (simp add: find_upt_None)
  next
    case (Some j)
    from find_upt_Some [OF this] i one have "j = i" unfolding one_copy_def by blast
    with Some show ?thesis by (simp add: view_def)
  qed
qed

lemma view_miss: "(\<And>i. i < 64 \<Longrightarrow> \<not> slot_is d a (cs ! i)) \<Longrightarrow> view w cs d a = dblock w d a"
  using find_upt_None [of "\<lambda>i. slot_is d a (cs ! i)" 64] by (simp add: view_def)

text \<open>The devices changed only inside one block.\<close>

lemma dblock_other_block:
  assumes K: "(d', a') \<in> K" "(d, a) \<in> K" "(d', a') \<noteq> (d, a)"
    and same: "\<And>d' x. d' \<in> devs \<Longrightarrow> d' \<noteq> d \<or> x \<notin> block_sectors a \<Longrightarrow> sec w' d' x = sec w d' x"
  shows "dblock w' d' a' = dblock w d' a'"
proof (rule dblock_cong)
  fix x assume "x \<in> block_sectors a'"
  then show "sec w' d' x = sec w d' x"
    using K K_devs [OF K(1)] K_apart [of d a' a] by (intro same) auto
qed

lemma view_other_block:
  assumes one: "one_copy cs" and K: "(d', a') \<in> K" "(d, a) \<in> K"
    and cached: "(d', a') = (d, a) \<longrightarrow> (\<exists>i < 64. slot_is d a (cs ! i))"
    and same: "\<And>d' x. d' \<in> devs \<Longrightarrow> d' \<noteq> d \<or> x \<notin> block_sectors a \<Longrightarrow> sec w' d' x = sec w d' x"
  shows "view w' cs d' a' = view w cs d' a'"
proof (cases "\<exists>j < 64. slot_is d' a' (cs ! j)")
  case True
  then show ?thesis using view_hit [OF one] by metis
next
  case False
  then have "(d', a') \<noteq> (d, a)" using cached by auto
  from dblock_other_block [OF K this same] False show ?thesis by (simp add: view_miss)
qed

lemma slot_ok_dirty_other:
  assumes co: "coherent w cs" and i: "\<And>i. i < 64 \<Longrightarrow> slot_is d a (cs ! i) \<Longrightarrow> bs_dirty (cs ! i)" and K: "(d, a) \<in> K"
    and same: "\<And>d' x. d' \<in> devs \<Longrightarrow> d' \<noteq> d \<or> x \<notin> block_sectors a \<Longrightarrow> sec w' d' x = sec w d' x"
  shows "coherent w' cs"
proof -
  have "slot_ok w' (cs ! j)" if j: "j < 64" for j
  proof (cases "bs_valid (cs ! j) \<and> \<not> bs_dirty (cs ! j)")
    case True
    with co j obtain d' where d': "bs_dev (cs ! j) = Some d'" "(d', bs_lba (cs ! j)) \<in> K"
        "bs_data (cs ! j) = dblock w d' (bs_lba (cs ! j))" "length (bs_data (cs ! j)) = 4096"
      unfolding coherent_def slot_ok_def by blast
    have "(d', bs_lba (cs ! j)) \<noteq> (d, a)"
      using i [OF j] True d'(1) by (auto simp: slot_is_def)
    from dblock_other_block [OF d'(2) K this same] d' show ?thesis by (auto simp: slot_ok_def)
  next
    case False
    with co j show ?thesis unfolding coherent_def slot_ok_def by blast
  qed
  with co show ?thesis by (simp add: coherent_def)
qed

text \<open>A slot whose contents the device also has can be dropped.\<close>

lemma drop_slot:
  assumes co: "coherent w cs" and i: "i < 64" "\<not> (bs_valid (cs ! i) \<and> bs_dirty (cs ! i))"
    and s: "\<not> bs_valid s" "length (bs_data s) = 4096"
  shows "coherent w (cs[i := s])" and "view w (cs[i := s]) d a = view w cs d a"
proof -
  have len: "length cs = 64" and one: "one_copy cs" using co by (auto simp: coherent_def)
  have nth: "cs[i := s] ! j = (if j = i then s else cs ! j)" for j using i len by (cases "j = i") auto
  have hit: "slot_is d a (cs[i := s] ! j) \<longleftrightarrow> j \<noteq> i \<and> slot_is d a (cs ! j)" for d a j
    using s by (auto simp: nth slot_is_def)
  have one': "one_copy (cs[i := s])" using one unfolding one_copy_def hit by blast
  moreover have "slot_ok w (cs[i := s] ! j)" if "j < 64" for j
    using co that s unfolding nth coherent_def by (auto simp: slot_ok_def)
  ultimately show "coherent w (cs[i := s])" using len by (simp add: coherent_def)
  show "view w (cs[i := s]) d a = view w cs d a"
  proof (cases "\<exists>j < 64. slot_is d a (cs ! j)")
    case True
    then obtain j where j: "j < 64" "slot_is d a (cs ! j)" by blast
    show ?thesis
    proof (cases "j = i")
      case True
      then have "view w cs d a = dblock w d a"
        using j i co view_hit [OF one j, of w] unfolding coherent_def slot_ok_def by (auto simp: slot_is_def)
      moreover have "view w (cs[i := s]) d a = dblock w d a"
        using True j one by (intro view_miss) (auto simp: hit one_copy_def)
      ultimately show ?thesis by simp
    qed (use j view_hit [OF one j, of w] view_hit [OF one' j(1), of d a w] in \<open>simp add: hit nth\<close>)
  next
    case False
    then show ?thesis by (simp add: view_miss hit)
  qed
qed

text \<open>Filling the slot of a block gives the block that content.\<close>

lemma fill_slot:
  assumes co: "coherent w cs" and i: "i < 64" and K: "(d, a) \<in> K"
    and only: "\<And>j. j < 64 \<Longrightarrow> slot_is d a (cs ! j) \<Longrightarrow> j = i"
    and free: "bs_valid (cs ! i) \<Longrightarrow> slot_is d a (cs ! i)"
    and s: "slot_is d a s" "length (bs_data s) = 4096" "\<not> bs_dirty s \<Longrightarrow> bs_data s = dblock w d a"
  shows "coherent w (cs[i := s])"
    and "view w (cs[i := s]) d' a' = (if (d', a') = (d, a) then bs_data s else view w cs d' a')"
proof -
  have len: "length cs = 64" and one: "one_copy cs" using co by (auto simp: coherent_def)
  have nth: "cs[i := s] ! j = (if j = i then s else cs ! j)" for j using i len by (cases "j = i") auto
  have hit: "slot_is d' a' (cs[i := s] ! j) \<longleftrightarrow> (if (d', a') = (d, a) then j = i else slot_is d' a' (cs ! j))"
    if "j < 64" for d' a' j
  proof (cases "j = i")
    case True
    have "slot_is d' a' s \<longleftrightarrow> (d', a') = (d, a)" using s(1) by (auto simp: slot_is_def)
    moreover have "slot_is d' a' (cs ! i) \<Longrightarrow> (d', a') = (d, a)" using free by (auto simp: slot_is_def)
    ultimately show ?thesis unfolding True nth by (simp only: simp_thms if_True) (metis (full_types))
  next
    case False
    with only [OF that] have "\<not> slot_is d a (cs ! j)" by blast
    with False show ?thesis unfolding nth by simp
  qed
  have "x = y" if "x < 64" "y < 64" "slot_is d' a' (cs[i := s] ! x)" "slot_is d' a' (cs[i := s] ! y)" for x y d' a'
  proof (cases "(d', a') = (d, a)")
    case True
    then show ?thesis using that hit [OF that(1), of d' a'] hit [OF that(2), of d' a'] by simp
  next
    case False
    then have "slot_is d' a' (cs ! x)" "slot_is d' a' (cs ! y)"
      using that hit [OF that(1), of d' a'] hit [OF that(2), of d' a'] by auto
    then show ?thesis using one that(1,2) unfolding one_copy_def by blast
  qed
  then have one': "one_copy (cs[i := s])" unfolding one_copy_def by blast
  have "slot_ok w (cs[i := s] ! j)" if "j < 64" for j
    using co that s K unfolding nth coherent_def by (auto simp: slot_ok_def slot_is_def)
  with one' show "coherent w (cs[i := s])" using len by (simp add: coherent_def)
  show "view w (cs[i := s]) d' a' = (if (d', a') = (d, a) then bs_data s else view w cs d' a')"
  proof (cases "(d', a') = (d, a)")
    case True
    then show ?thesis using view_hit [OF one' i, of d a w] hit [OF i, of d a] by (simp add: nth)
  next
    case False
    show ?thesis
    proof (cases "\<exists>j < 64. slot_is d' a' (cs ! j)")
      case True
      then obtain j where j: "j < 64" "slot_is d' a' (cs ! j)" by blast
      then have "j \<noteq> i" using False free by (auto simp: slot_is_def)
      then have "view w (cs[i := s]) d' a' = view w cs d' a'"
        using j False view_hit [OF one j, of w] view_hit [OF one' j(1), of d' a' w] hit [OF j(1), of d' a']
        by (auto simp: nth)
      with False show ?thesis by (simp only: if_False)
    next
      case none: False
      then have "view w (cs[i := s]) d' a' = view w cs d' a'" using False hit by (auto simp: view_miss)
      with False show ?thesis by (simp only: if_False)
    qed
  qed
qed

end

section \<open>The operations on the block store\<close>

lemma core_simps [simp]:
  "bs_dev (core s) = bs_dev s" "bs_lba (core s) = bs_lba s" "bs_valid (core s) = bs_valid s"
  "bs_dirty (core s) = bs_dirty s" "bs_data (core s) = bs_data s" "slot_is d a (core s) = slot_is d a s"
  by (simp_all add: core_def slot_is_def)

lemma core_dirty: "core (s\<lparr>bs_dirty := b\<rparr>) = (core s)\<lparr>bs_dirty := b\<rparr>"
  by (cases s) (simp add: core_def)

lemma cores_nth: "i < length (bc_slots bc) \<Longrightarrow> cores bc ! i = core (bc_slots bc ! i)"
  by (simp add: cores_def)

lemma cores_length [simp]: "length (cores bc) = length (bc_slots bc)"
  by (simp add: cores_def)

lemma find_slot_Some:
  "find_slot bc d a = Some i \<Longrightarrow> length (bc_slots bc) = 64 \<Longrightarrow> i < 64 \<and> slot_is d a (cores bc ! i)"
  by (auto simp: find_slot_def BCACHE_SLOTS_def cores_nth dest: find_upt_Some)

lemma find_slot_None:
  "find_slot bc d a = None \<Longrightarrow> length (bc_slots bc) = 64 \<Longrightarrow> i < 64 \<Longrightarrow> \<not> slot_is d a (cores bc ! i)"
  by (simp add: find_slot_def BCACHE_SLOTS_def cores_nth find_upt_None)

lemma lru_full_prev: "lru_full bc \<Longrightarrow> i < 64 \<Longrightarrow> bs_prev (bc_slots bc ! i) = Some p \<Longrightarrow> p < 64"
proof -
  assume "lru_full bc" "i < 64" and p: "bs_prev (bc_slots bc ! i) = Some p"
  then obtain as bs where l: "lru bc (as @ i # bs)" "set (as @ i # bs) = {..<64}" using lru_full_split by blast
  from lru_split(1) [OF l(1)] p have "as \<noteq> []" "p = last as" by (auto simp: last_of_def split: if_splits)
  then have "p \<in> set (as @ i # bs)" by simp
  with l(2) show ?thesis by simp
qed

context block_cache
begin

definition bc_inv :: "'d bcache \<Rightarrow> 'w \<Rightarrow> bool" where
  "bc_inv bc w \<longleftrightarrow> lru_full bc \<and> ok w \<and> coherent w (cores bc)"

definition block_at :: "'d bcache \<Rightarrow> 'w \<Rightarrow> 'd \<Rightarrow> u32 \<Rightarrow> u8 list" where
  "block_at bc w d a = view w (cores bc) d a"

definition same_blocks :: "'d bcache \<Rightarrow> 'w \<Rightarrow> 'd bcache \<Rightarrow> 'w \<Rightarrow> bool" where
  "same_blocks bc w bc' w' \<longleftrightarrow> (\<forall>(d, a)\<in>K. block_at bc' w' d a = block_at bc w d a)"

lemma same_blocks_refl [simp]: "same_blocks bc w bc w"
  by (simp add: same_blocks_def)

lemma same_blocks_trans: "same_blocks a u b v \<Longrightarrow> same_blocks b v c w \<Longrightarrow> same_blocks a u c w"
  unfolding same_blocks_def by fastforce

lemma same_blocks_cores: "cores bc' = cores bc \<Longrightarrow> same_blocks bc w bc' w"
  by (simp add: same_blocks_def block_at_def)

lemma bc_inv_len: "bc_inv bc w \<Longrightarrow> length (bc_slots bc) = 64"
  by (simp add: bc_inv_def lru_full_length)

lemma bc_inv_slot:
  assumes "bc_inv bc w" "i < 64" "bs_valid (bc_slots bc ! i)"
  shows "\<exists>d. slot_is d (bs_lba (bc_slots bc ! i)) (bc_slots bc ! i) \<and> (d, bs_lba (bc_slots bc ! i)) \<in> K \<and> d \<in> devs"
proof -
  have "slot_ok w (cores bc ! i)" using assms(1,2) by (simp add: bc_inv_def coherent_def)
  with assms show ?thesis using K_devs by (auto simp: slot_ok_def slot_is_def cores_nth bc_inv_len)
qed

lemma bc_inv_data: "bc_inv bc w \<Longrightarrow> i < 64 \<Longrightarrow> length (bs_data (bc_slots bc ! i)) = 4096"
proof -
  assume inv: "bc_inv bc w" and i: "i < 64"
  then have "slot_ok w (cores bc ! i)" by (simp add: bc_inv_def coherent_def)
  with bc_inv_len [OF inv] i show ?thesis by (simp add: slot_ok_def cores_nth)
qed

text \<open>Only the list changes.\<close>

lemma bc_inv_touch: "bc_inv bc w \<Longrightarrow> i < 64 \<Longrightarrow> bc_inv (lru_touch bc i) w"
  by (simp add: bc_inv_def lru_full_touch)

lemma bc_inv_demote: "bc_inv bc w \<Longrightarrow> i < 64 \<Longrightarrow> bc_inv (lru_demote bc i) w"
  by (simp add: bc_inv_def lru_full_demote)

lemma bc_inv_stats [simp]: "bc_inv (upd_stats g bc) w = bc_inv bc w"
  by (simp add: bc_inv_def)

lemma block_at_cores: "cores bc' = cores bc \<Longrightarrow> block_at bc' w = block_at bc w"
  by (simp add: block_at_def fun_eq_iff)

lemma slot_writeback_law:
  assumes inv: "bc_inv bc w" and i: "i < 64" and vd: "bs_valid (bc_slots bc ! i)" "bs_dirty (bc_slots bc ! i)"
    and wb: "slot_writeback hw wr bc w i = (b, bc', w')"
  shows "bc_inv bc' w'" "same_blocks bc w bc' w'" "\<not> b \<Longrightarrow> bc' = bc"
    "b \<Longrightarrow> cores bc' = (cores bc)[i := (cores bc ! i)\<lparr>bs_dirty := False\<rparr>]"
    "b \<Longrightarrow> \<exists>d a. slot_is d a (bc_slots bc ! i) \<and> dblock w' d a = bs_data (bc_slots bc ! i)"
    "\<And>d' x d a. slot_is d a (bc_slots bc ! i) \<Longrightarrow> d' \<in> devs \<Longrightarrow> d' \<noteq> d \<or> x \<notin> block_sectors a \<Longrightarrow> sec w' d' x = sec w d' x"
proof -
  let ?s = "bc_slots bc ! i" and ?cs = "cores bc"
  have len: "length (bc_slots bc) = 64" by (rule bc_inv_len [OF inv])
  have c: "?cs ! i = core ?s" using i len by (simp add: cores_nth)
  from bc_inv_slot [OF inv i vd(1)] obtain d where d: "slot_is d (bs_lba ?s) ?s" "(d, bs_lba ?s) \<in> K" "d \<in> devs" by blast
  then have dev: "bs_dev ?s = Some d" by (simp add: slot_is_def)
  have okw: "ok w" and co: "coherent w ?cs" and lf: "lru_full bc" using inv by (auto simp: bc_inv_def)
  obtain b1 w1 where dw: "disk_write_block hw wr w d (bs_lba ?s) (bs_data ?s) = (b1, w1)" by force
  with wb vd dev have r: "b = b1" "w' = w1"
    by (auto simp: slot_writeback_def Let_def split: bool.splits)
  note law = disk_write_block_law [OF okw d(3) bc_inv_data [OF inv i] dw, folded r]
  have hit: "slot_is d (bs_lba ?s) (?cs ! i)" "bs_dirty (?cs ! i)" using d(1) vd by (simp_all add: c)
  have one: "one_copy ?cs" using co by (simp add: coherent_def)
  have "bs_dirty (?cs ! j)" if "j < 64" "slot_is d (bs_lba ?s) (?cs ! j)" for j
    using one i hit that unfolding one_copy_def by blast
  then have co': "coherent w' ?cs" by (rule slot_ok_dirty_other [OF co _ d(2) law(2)])
  have vw: "view w' ?cs d' a' = view w ?cs d' a'" if "(d', a') \<in> K" for d' a'
    by (rule view_other_block [OF one that d(2) _ law(2)]) (use i hit(1) in blast)
  show "bc' = bc" if "\<not> b" using wb vd dev dw r that by (auto simp: slot_writeback_def Let_def)
  show cs: "cores bc' = ?cs[i := (?cs ! i)\<lparr>bs_dirty := False\<rparr>]" if b
  proof -
    have "cores bc' = cores (upd_slot i (\<lambda>x. x\<lparr>bs_dirty := False\<rparr>) bc)"
      using wb vd dev dw r that by (auto simp: slot_writeback_def Let_def)
    then show ?thesis by (simp add: cores_upd c core_dirty)
  qed
  have lf': "lru_full bc'"
    using wb vd dev dw r lf by (auto simp: slot_writeback_def Let_def intro!: lru_full_upd split: bool.splits)
  show "\<exists>d a. slot_is d a ?s \<and> dblock w' d a = bs_data ?s" if b using d(1) law(3) that by blast
  show "sec w' d' x = sec w d' x" if "slot_is d2 a2 ?s" "d' \<in> devs" "d' \<noteq> d2 \<or> x \<notin> block_sectors a2" for d' x d2 a2
    using that d(1) law(2) [of d' x] by (auto simp: slot_is_def)
  let ?t = "(?cs ! i)\<lparr>bs_dirty := False\<rparr>"
  have t: "slot_is d (bs_lba ?s) ?t" "length (bs_data ?t) = 4096" "bs_data ?t = bs_data ?s"
    using hit(1) bc_inv_data [OF inv i] by (simp_all add: slot_is_def c)
  have only: "j = i" if "j < 64" "slot_is d (bs_lba ?s) (?cs ! j)" for j
    using co i hit(1) that unfolding coherent_def one_copy_def by blast
  have fl: "coherent w' (?cs[i := ?t])"
     "view w' (?cs[i := ?t]) d' a' = (if (d', a') = (d, bs_lba ?s) then bs_data ?t else view w' ?cs d' a')" if b for d' a'
    using fill_slot [OF co' i d(2) only _ t(1,2)] hit(1) law(3) [OF that] t(3) by simp_all
  have hv: "view w' ?cs d (bs_lba ?s) = bs_data ?s"
    using view_hit [of ?cs i d "bs_lba ?s" w'] co i hit(1) c by (simp add: coherent_def)
  show "bc_inv bc' w'"
  proof (cases b)
    case True
    with lf' law(1) fl cs show ?thesis by (simp add: bc_inv_def)
  qed (use lf' law(1) co' \<open>\<not> b \<Longrightarrow> bc' = bc\<close> in \<open>simp add: bc_inv_def\<close>)
  show "same_blocks bc w bc' w'"
  proof (cases b)
    case True
    have "view w' (?cs[i := ?t]) d' a' = view w ?cs d' a'" if "(d', a') \<in> K" for d' a'
      using fl(2) [OF True, of d' a'] vw [OF that] hv t(3) by (auto split: if_splits)
    with True cs show ?thesis by (auto simp: same_blocks_def block_at_def)
  qed (use vw \<open>\<not> b \<Longrightarrow> bc' = bc\<close> in \<open>auto simp: same_blocks_def block_at_def\<close>)
qed

definition same_keys :: "'d bcache \<Rightarrow> 'd bcache \<Rightarrow> bool" where
  "same_keys bc bc' \<longleftrightarrow> (\<forall>i < 64. \<forall>d a. slot_is d a (cores bc' ! i) = slot_is d a (cores bc ! i))"

definition victim_ok :: "'d bcache \<Rightarrow> nat option \<Rightarrow> bool" where
  "victim_ok bc v \<longleftrightarrow> (\<forall>k. v = Some k \<longrightarrow> k < 64 \<and> \<not> (bs_valid (cores bc ! k) \<and> bs_dirty (cores bc ! k)))"

lemma slot_writeback_keys:
  assumes "bc_inv bc w" "i < 64" "bs_valid (bc_slots bc ! i)" "bs_dirty (bc_slots bc ! i)"
    "slot_writeback hw wr bc w i = (b, bc', w')"
  shows "same_keys bc bc'"
proof (cases b)
  case True
  have len: "length (cores bc) = 64" using bc_inv_len [OF assms(1)] by simp
  have "slot_is d a (cores bc' ! j) = slot_is d a (cores bc ! j)" for j d a
    unfolding slot_writeback_law(4) [OF assms True] using len assms(2) by (cases "j = i") (simp_all add: slot_is_def)
  then show ?thesis by (simp add: same_keys_def)
qed (use slot_writeback_law(3) [OF assms] in \<open>simp add: same_keys_def\<close>)

lemma find_victim_law:
  assumes "find_victim hw wr bc w c = Some r" "bc_inv bc w" "\<forall>i. c = Some i \<longrightarrow> i < 64"
  shows "case r of (v, bc', w') \<Rightarrow> bc_inv bc' w' \<and> same_blocks bc w bc' w' \<and> same_keys bc bc' \<and> victim_ok bc' v"
proof -
  define P where "P wr' bc w c r \<longleftrightarrow> (wr' = wr \<longrightarrow> bc_inv bc w \<longrightarrow> (\<forall>i. c = Some i \<longrightarrow> i < 64) \<longrightarrow>
      (case r of (v, bc', w') \<Rightarrow> bc_inv bc' w' \<and> same_blocks bc w bc' w' \<and> same_keys bc bc' \<and> victim_ok bc' v))"
    for wr' bc w r and c :: "nat option"
  have "P wr bc w c r"
  proof (rule find_victim.raw_induct [where P = "\<lambda>hw wr' bc w c r. P wr' bc w c r", OF _ assms(1)], goal_cases)
    case (1 fv hw' wr' bc w c r)
    show ?case unfolding P_def
    proof (intro impI)
      assume wr': "wr' = wr" and inv: "bc_inv bc w" and c: "\<forall>i. c = Some i \<longrightarrow> i < 64"
      show "case r of (v, bc', w') \<Rightarrow> bc_inv bc' w' \<and> same_blocks bc w bc' w' \<and> same_keys bc bc' \<and> victim_ok bc' v"
      proof (cases c)
        case None
        with 1(2) inv show ?thesis by (auto simp: victim_ok_def same_keys_def)
      next
        case (Some i)
        then have i: "i < 64" using c by simp
        have nth: "cores bc ! i = core (bc_slots bc ! i)" using i bc_inv_len [OF inv] by (simp add: cores_nth)
        show ?thesis
        proof (cases "bs_valid (bc_slots bc ! i) \<and> bs_dirty (bc_slots bc ! i)")
          case False
          with 1(2) Some inv i nth show ?thesis by (auto simp: victim_ok_def same_keys_def Let_def)
        next
          case True
          obtain b bc1 w1 where wb: "slot_writeback hw' wr bc w i = (b, bc1, w1)" by (metis surj_pair)
          note law = slot_writeback_law [OF inv i _ _ wb]
          have keys: "same_keys bc bc1" using slot_writeback_keys [OF inv i _ _ wb] True by blast
          show ?thesis
          proof (cases b)
            case b: True
            have "victim_ok bc1 (Some i)"
              using law(4) True b i bc_inv_len [OF inv] by (simp add: victim_ok_def)
            moreover have "r = (Some i, bc1, w1)" using 1(2) Some True b wb wr' by (simp add: Let_def)
            ultimately show ?thesis using law(1,2) True keys by simp
          next
            case b: False
            let ?p = "bs_prev (bc_slots bc ! i)"
            have bc1: "bc1 = bc" using law(3) True b by blast
            have "fv hw' wr' (lru_touch bc1 i) w1 ?p = Some r"
              using 1(2) Some True b wb wr' by (simp add: Let_def)
            from 1(1) [OF this] have "P wr' (lru_touch bc1 i) w1 ?p r" .
            moreover have "bc_inv bc1 w1" using law(1) True by blast
            then have "bc_inv (lru_touch bc1 i) w1" using i by (rule bc_inv_touch)
            moreover have "\<forall>j. ?p = Some j \<longrightarrow> j < 64" using inv i lru_full_prev by (auto simp: bc_inv_def)
            ultimately have "case r of (v, bc', w') \<Rightarrow> bc_inv bc' w' \<and> same_blocks (lru_touch bc1 i) w1 bc' w' \<and>
                same_keys (lru_touch bc1 i) bc' \<and> victim_ok bc' v" using wr' by (simp add: P_def)
            moreover have "same_blocks bc w (lru_touch bc1 i) w1"
              using law(2) True same_blocks_cores [of "lru_touch bc1 i" bc1 w1] same_blocks_trans by auto
            ultimately show ?thesis using same_blocks_trans keys by (auto simp: same_keys_def)
          qed
        qed
      qed
    qed
  qed
  with assms(2,3) show ?thesis by (simp add: P_def)
qed

lemma drop_inv:
  assumes inv: "bc_inv bc w" and i: "i < 64" and clean: "\<not> (bs_valid (cores bc ! i) \<and> bs_dirty (cores bc ! i))"
    and f: "\<And>s. bs_prev (f s) = bs_prev s \<and> bs_next (f s) = bs_next s" "\<And>s. \<not> bs_valid (f s)"
      "length (bs_data (f (bc_slots bc ! i))) = 4096"
  shows "bc_inv (upd_slot i f bc) w" and "same_blocks bc w (upd_slot i f bc) w"
proof -
  have co: "coherent w (cores bc)" and lf: "lru_full bc" using inv by (auto simp: bc_inv_def)
  note dr = drop_slot [OF co i clean, of "core (f (bc_slots bc ! i))"]
  have "lru_full (upd_slot i f bc)" by (rule lru_full_upd [OF lf f(1)])
  then show "bc_inv (upd_slot i f bc) w" using dr(1) inv f by (simp add: bc_inv_def cores_upd)
  show "same_blocks bc w (upd_slot i f bc) w" using dr(2) f by (simp add: same_blocks_def block_at_def cores_upd)
qed

text \<open>The slot that \<open>acquire_slot\<close> returns: the one that holds the block, or one that holds nothing.\<close>

definition acquired :: "'d bcache \<Rightarrow> 'd \<Rightarrow> u32 \<Rightarrow> nat \<Rightarrow> bool" where
  "acquired bc d a i \<longleftrightarrow> i < 64 \<and> bs_dev (bc_slots bc ! i) = Some d \<and> bs_lba (bc_slots bc ! i) = a \<and>
     (\<forall>j < 64. slot_is d a (cores bc ! j) \<longrightarrow> j = i)"

lemma acquired_key:
  "acquired bc d a i \<Longrightarrow> i < 64 \<and> bs_dev (bc_slots bc ! i) = Some d \<and> bs_lba (bc_slots bc ! i) = a"
  unfolding acquired_def by blast

lemma acquire_slot_law:
  assumes inv: "bc_inv bc w" and acq: "acquire_slot hw wr bc w d a = Some (s, bc', w')"
  shows "bc_inv bc' w' \<and> same_blocks bc w bc' w' \<and> (\<forall>i. s = Some i \<longrightarrow> acquired bc' d a i \<and>
      (find_slot bc d a = None \<longrightarrow> (\<forall>j < 64. \<not> slot_is d a (cores bc' ! j))))"
proof (cases "find_slot bc d a")
  case (Some i)
  with acq have r: "s = Some i" "bc' = lru_touch bc i" "w' = w" by (auto simp: acquire_slot_def)
  have len: "length (bc_slots bc) = 64" by (rule bc_inv_len [OF inv])
  from find_slot_Some [OF Some len] have i: "i < 64" "slot_is d a (cores bc ! i)" by auto
  have inv': "bc_inv bc' w'" unfolding r by (rule bc_inv_touch [OF inv i(1)])
  have nth: "core (bc_slots bc' ! i) = cores bc ! i"
    using i bc_inv_len [OF inv'] r(2) cores_nth [of i bc'] by simp
  have "bs_dev (bc_slots bc' ! i) = Some d" "bs_lba (bc_slots bc' ! i) = a"
    using i(2) arg_cong [OF nth, of bs_dev] arg_cong [OF nth, of bs_lba] by (auto simp: slot_is_def)
  moreover have "\<forall>j < 64. slot_is d a (cores bc' ! j) \<longrightarrow> j = i"
  proof -
    have "one_copy (cores bc)" using inv by (simp add: bc_inv_def coherent_def)
    then show ?thesis using i r(2) unfolding one_copy_def by simp blast
  qed
  ultimately have "acquired bc' d a i" using i(1) by (simp add: acquired_def)
  with inv' r same_blocks_cores [of bc' bc w] Some show ?thesis by simp
next
  case None
  with acq obtain v bc1 w1 where fv: "find_victim hw wr bc w (bc_tail bc) = Some (v, bc1, w1)"
    by (auto simp: acquire_slot_def split: option.splits prod.splits)
  have lf: "lru_full bc" using inv by (simp add: bc_inv_def)
  then obtain xs where xs: "lru bc xs" "set xs = {..<64}" by (auto simp: lru_full_def)
  have "\<forall>i. bc_tail bc = Some i \<longrightarrow> i < 64"
  proof (intro allI impI)
    fix i assume "bc_tail bc = Some i"
    then have "xs \<noteq> []" "i = last xs" using xs(1) by (auto simp: lru_def last_of_def split: if_splits)
    then have "i \<in> set xs" by simp
    then show "i < 64" using xs(2) by simp
  qed
  from find_victim_law [OF fv inv this] have fl: "bc_inv bc1 w1" "same_blocks bc w bc1 w1" "same_keys bc bc1" "victim_ok bc1 v"
    by auto
  show ?thesis
  proof (cases v)
    case None
    with \<open>find_slot bc d a = None\<close> acq fv fl show ?thesis by (auto simp: acquire_slot_def)
  next
    case (Some i)
    let ?f = "\<lambda>x. x\<lparr>bs_dev := Some d, bs_lba := a, bs_valid := False, bs_dirty := False\<rparr>"
    define bc2 where "bc2 = (if bs_valid (bc_slots bc1 ! i)
        then upd_stats (\<lambda>st. st\<lparr>st_evictions := st_evictions st + 1\<rparr>) bc1 else bc1)"
    define bc3 where "bc3 = upd_slot i ?f bc2"
    have r: "s = Some i" "bc' = lru_touch bc3 i" "w' = w1"
      using \<open>find_slot bc d a = None\<close> acq fv Some by (auto simp: acquire_slot_def Let_def bc3_def bc2_def)
    have i: "i < 64" "\<not> (bs_valid (cores bc1 ! i) \<and> bs_dirty (cores bc1 ! i))"
      using fl(4) Some by (auto simp: victim_ok_def)
    have len1: "length (bc_slots bc1) = 64" by (rule bc_inv_len [OF fl(1)])
    have sl2: "bc_slots bc2 = bc_slots bc1" "cores bc2 = cores bc1" by (simp_all add: bc2_def upd_stats_def cores_def)
    have cs3: "cores bc3 = (cores bc1)[i := core (?f (bc_slots bc1 ! i))]"
      unfolding bc3_def cores_upd sl2 ..
    have inv2: "bc_inv bc2 w1" using fl(1) by (simp add: bc2_def)
    have inv3: "bc_inv bc3 w1" and same3: "same_blocks bc1 w1 bc3 w1"
      using drop_inv [OF inv2 i(1), of ?f] i(2) bc_inv_data [OF inv2 i(1)]
        same_blocks_trans [OF same_blocks_cores [OF sl2(2), of w1], of bc3 w1]
      unfolding bc3_def sl2 by simp_all
    have inv': "bc_inv bc' w'" unfolding r by (rule bc_inv_touch [OF inv3 i(1)])
    have cs': "cores bc' = cores bc3" by (simp add: r)
    have nth: "core (bc_slots bc' ! i) = core (?f (bc_slots bc1 ! i))"
      using i(1) bc_inv_len [OF inv'] cores_nth [of i bc'] len1 by (simp add: cs' cs3)
    have dl: "bs_dev (bc_slots bc' ! i) = Some d" "bs_lba (bc_slots bc' ! i) = a"
      using arg_cong [OF nth, of bs_dev] arg_cong [OF nth, of bs_lba] by simp_all
    have fresh: "\<not> slot_is d a (cores bc' ! j)" if "j < 64" for j
    proof (cases "j = i")
      case True
      then show ?thesis using len1 i(1) by (simp add: cs' cs3 slot_is_def core_def)
    next
      case False
      have "\<not> slot_is d a (cores bc ! j)"
        by (rule find_slot_None [OF \<open>find_slot bc d a = None\<close> bc_inv_len [OF inv] that])
      then show ?thesis using fl(3) that False by (simp add: cs' cs3 same_keys_def)
    qed
    have "acquired bc' d a i" using i(1) dl fresh by (simp add: acquired_def)
    moreover have "same_blocks bc w bc' w'"
      using same_blocks_trans [OF same_blocks_trans [OF fl(2) same3] same_blocks_cores [OF cs']] r by simp
    ultimately show ?thesis using inv' r fresh by simp
  qed
qed

text \<open>Filling the acquired slot stores the block.\<close>

lemma fill_acquired:
  assumes inv: "bc_inv bc w" and acq: "acquired bc d a i" and K: "(d, a) \<in> K" and len: "length data = 4096"
    and clean: "\<not> dirty \<Longrightarrow> data = dblock w d a"
  defines "bc' \<equiv> upd_slot i (\<lambda>x. x\<lparr>bs_data := data, bs_valid := True, bs_dirty := dirty\<rparr>) bc"
  shows "bc_inv bc' w" and "block_at bc' w d' a' = (if (d', a') = (d, a) then data else block_at bc w d' a')"
proof -
  let ?t = "core ((bc_slots bc ! i)\<lparr>bs_data := data, bs_valid := True, bs_dirty := dirty\<rparr>)"
  have i: "i < 64" "bs_dev (bc_slots bc ! i) = Some d" "bs_lba (bc_slots bc ! i) = a"
    "\<And>j. j < 64 \<Longrightarrow> slot_is d a (cores bc ! j) \<Longrightarrow> j = i" using acq by (auto simp: acquired_def)
  have cs: "cores bc' = (cores bc)[i := ?t]" unfolding bc'_def cores_upd ..
  have co: "coherent w (cores bc)" using inv by (simp add: bc_inv_def)
  have nth: "cores bc ! i = core (bc_slots bc ! i)" using i(1) bc_inv_len [OF inv] by (simp add: cores_nth)
  have t: "slot_is d a ?t" "length (bs_data ?t) = 4096" "\<not> bs_dirty ?t \<Longrightarrow> bs_data ?t = dblock w d a" "bs_data ?t = data"
    using i(2,3) len clean by (auto simp: slot_is_def)
  have free: "bs_valid (cores bc ! i) \<Longrightarrow> slot_is d a (cores bc ! i)" using i(2,3) by (simp add: nth slot_is_def)
  have f1: "coherent w ((cores bc)[i := ?t])"
    by (rule fill_slot(1) [OF co i(1) K _ _ t(1,2)]) (use i(4) free t(3) in blast)+
  have f2: "view w ((cores bc)[i := ?t]) d' a' = (if (d', a') = (d, a) then bs_data ?t else view w (cores bc) d' a')"
    by (rule fill_slot(2) [OF co i(1) K _ _ t(1,2)]) (use i(4) free t(3) in blast)+
  have "lru_full bc'" unfolding bc'_def using inv by (intro lru_full_upd) (auto simp: bc_inv_def)
  with f1 inv cs show "bc_inv bc' w" by (simp add: bc_inv_def)
  show "block_at bc' w d' a' = (if (d', a') = (d, a) then data else block_at bc w d' a')"
    unfolding block_at_def cs f2 t(4) ..
qed

lemma read_block_inv:
  assumes inv: "bc_inv bc w" and K: "(d, a) \<in> K" and i: "i < 64"
    and rb: "disk_read_block rd w d a (bs_data (bc_slots bc ! i)) = (b, data, w')"
  shows "bc_inv bc w' \<and> same_blocks bc w bc w' \<and> length data = 4096 \<and> (b \<longrightarrow> data = dblock w' d a)"
proof -
  have "ok w" using inv by (simp add: bc_inv_def)
  from disk_read_block_law [OF this K_devs [OF K] bc_inv_data [OF inv i] rb]
  have rl: "ok w'" "\<forall>d'\<in>devs. sec w' d' = sec w d'" "length data = 4096" "b \<longrightarrow> data = dblock w d a" by auto
  have db: "dblock w' d' a' = dblock w d' a'" if "d' \<in> devs" for d' a' using rl(2) that by (simp add: dblock_def)
  have "slot_ok w' t" if "slot_ok w t" for t using that db K_devs by (auto simp: slot_ok_def)
  then have "bc_inv bc w'" using inv rl(1) by (simp add: bc_inv_def coherent_def)
  moreover have "same_blocks bc w bc w'"
    using db K_devs by (auto simp: same_blocks_def block_at_def view_def split: option.split)
  ultimately show ?thesis using rl(3,4) db K_devs [OF K] by simp
qed

text \<open>Reading, writing, writing through, flushing and invalidating a block.\<close>

lemma bcache_read_law:
  assumes inv: "bc_inv bc w" and K: "(d, a) \<in> K" and r: "bcache_read hw rd wr bc w (Some d) a = Some (res, bc', w')"
  shows "bc_inv bc' w' \<and> same_blocks bc w bc' w' \<and> (\<forall>data. res = Some data \<longrightarrow> data = block_at bc w d a)"
proof (cases "find_slot bc d a")
  case (Some i)
  have len: "length (bc_slots bc) = 64" by (rule bc_inv_len [OF inv])
  from find_slot_Some [OF Some len] have i: "i < 64" "slot_is d a (cores bc ! i)" by auto
  from Some r have eq: "res = Some (bs_data (bc_slots bc ! i))" "w' = w"
      "bc' = upd_stats (\<lambda>st. st\<lparr>st_hits := st_hits st + 1\<rparr>) (lru_touch bc i)"
    by (auto simp: bcache_read_def)
  have "block_at bc w d a = bs_data (bc_slots bc ! i)"
    using view_hit [of "cores bc" i d a w] i inv len by (simp add: block_at_def bc_inv_def coherent_def cores_nth)
  moreover have "cores bc' = cores bc" by (simp add: eq)
  ultimately show ?thesis using bc_inv_touch [OF inv i(1)] eq same_blocks_cores by simp
next
  case None
  with r obtain s bc1 w1 where acq: "acquire_slot hw wr bc w d a = Some (s, bc1, w1)"
    by (auto simp: bcache_read_def split: option.splits prod.splits)
  from acquire_slot_law [OF inv acq] None have l: "bc_inv bc1 w1" "same_blocks bc w bc1 w1"
      "\<forall>i. s = Some i \<longrightarrow> acquired bc1 d a i \<and> (\<forall>j < 64. \<not> slot_is d a (cores bc1 ! j))"
    by auto
  show ?thesis
  proof (cases s)
    case None
    with \<open>find_slot bc d a = None\<close> r acq l show ?thesis by (auto simp: bcache_read_def)
  next
    case (Some i)
    with l(3) have ac: "acquired bc1 d a i" and fresh: "\<forall>j < 64. \<not> slot_is d a (cores bc1 ! j)" by auto
    then have i: "i < 64" using acquired_key by blast
    have "bs_valid (cores bc1 ! i) \<Longrightarrow> slot_is d a (cores bc1 ! i)"
      using acquired_key [OF ac] bc_inv_len [OF l(1)] by (simp add: slot_is_def cores_nth)
    with fresh i have nv: "\<not> bs_valid (cores bc1 ! i)" by blast
    obtain b data w2 where rb: "disk_read_block rd w1 d a (bs_data (bc_slots bc1 ! i)) = (b, data, w2)" by (metis surj_pair)
    from read_block_inv [OF l(1) K i rb] have rl: "bc_inv bc1 w2" "same_blocks bc1 w1 bc1 w2" "length data = 4096"
      "b \<longrightarrow> data = dblock w2 d a" by auto
    have bw: "same_blocks bc w bc1 w2" by (rule same_blocks_trans [OF l(2) rl(2)])
    show ?thesis
    proof (cases b)
      case True
      let ?f = "\<lambda>x. x\<lparr>bs_data := data, bs_valid := True, bs_dirty := False\<rparr>"
      from True r acq Some rb \<open>find_slot bc d a = None\<close>
      have eq: "res = Some data" "w' = w2" "bc' = upd_stats (\<lambda>st. st\<lparr>st_misses := st_misses st + 1\<rparr>) (upd_slot i ?f bc1)"
        by (auto simp: bcache_read_def Let_def)
      have clean: "data = dblock w2 d a" using rl(4) True by simp
      note f = fill_acquired [OF rl(1) ac K rl(3), of False]
      have at: "block_at bc1 w2 d a = data" using fresh clean by (simp add: block_at_def view_miss)
      then have "block_at bc w d a = data" using bw K by (auto simp: same_blocks_def)
      moreover have "same_blocks bc1 w2 bc' w2"
        unfolding same_blocks_def eq block_at_cores [OF cores_other(3)] f(2) [OF clean] using at by auto
      ultimately show ?thesis using f(1) [OF clean] eq same_blocks_trans [OF bw] by simp
    next
      case False
      let ?f = "\<lambda>x. x\<lparr>bs_data := data, bs_dev := None, bs_valid := False, bs_dirty := False\<rparr>"
      from False r acq Some rb \<open>find_slot bc d a = None\<close>
      have eq: "res = None" "w' = w2" "bc' = lru_demote (upd_slot i ?f bc1) i"
        by (auto simp: bcache_read_def Let_def)
      have iv: "bc_inv (upd_slot i ?f bc1) w2" and sm: "same_blocks bc1 w2 (upd_slot i ?f bc1) w2"
        using drop_inv [OF rl(1) i, of ?f] nv rl(3) by auto
      have iv': "bc_inv bc' w2" unfolding eq by (rule bc_inv_demote [OF iv i])
      have "same_blocks (upd_slot i ?f bc1) w2 bc' w2" unfolding eq by (rule same_blocks_cores) simp
      from same_blocks_trans [OF bw same_blocks_trans [OF sm this]] iv' eq show ?thesis by simp
    qed
  qed
qed

lemma bcache_write_law:
  assumes inv: "bc_inv bc w" and K: "(d, a) \<in> K" and len: "length buf = 4096"
    and r: "bcache_write hw wr bc w (Some d) a buf = Some (res, bc', w')"
  shows "bc_inv bc' w' \<and> (\<not> res \<longrightarrow> same_blocks bc w bc' w') \<and>
    (res \<longrightarrow> (\<forall>(d', a')\<in>K. block_at bc' w' d' a' = (if (d', a') = (d, a) then buf else block_at bc w d' a')))"
proof -
  from r obtain s bc1 where acq: "acquire_slot hw wr bc w d a = Some (s, bc1, w')"
    by (auto simp: bcache_write_def split: option.splits prod.splits)
  from acquire_slot_law [OF inv acq] have l: "bc_inv bc1 w'" "same_blocks bc w bc1 w'"
      "\<And>i. s = Some i \<Longrightarrow> acquired bc1 d a i"
    by auto
  show ?thesis
  proof (cases s)
    case None
    with r acq l(1,2) show ?thesis by (auto simp: bcache_write_def)
  next
    case (Some i)
    let ?f = "\<lambda>x. x\<lparr>bs_data := buf, bs_valid := True, bs_dirty := True\<rparr>"
    from r acq Some have eq: "res" "bc' = upd_slot i ?f bc1" by (auto simp: bcache_write_def)
    note f = fill_acquired [OF l(1) l(3) [OF Some] K len, of True]
    have "block_at bc' w' d' a' = (if (d', a') = (d, a) then buf else block_at bc w d' a')" if "(d', a') \<in> K" for d' a'
      unfolding eq using f(2) [of d' a'] l(2) that by (auto simp: same_blocks_def)
    with f(1) eq show ?thesis by auto
  qed
qed

lemma bcache_write_through_law:
  assumes inv: "bc_inv bc w" and K: "(d, a) \<in> K" and len: "length buf = 4096"
    and r: "bcache_write_through hw wr bc w (Some d) a buf = (True, bc', w')"
  shows "bc_inv bc' w' \<and> dblock w' d a = buf \<and>
    (\<forall>(d', a')\<in>K. block_at bc' w' d' a' = (if (d', a') = (d, a) then buf else block_at bc w d' a'))"
proof -
  define bc1 where "bc1 = upd_stats (\<lambda>st. st\<lparr>st_write_through := st_write_through st + 1\<rparr>) bc"
  let ?cs = "cores bc"
  have okw: "ok w" and co: "coherent w ?cs" and lf: "lru_full bc" using inv by (auto simp: bc_inv_def)
  have one: "one_copy ?cs" using co by (simp add: coherent_def)
  have bc1: "bc_slots bc1 = bc_slots bc" "cores bc1 = ?cs" "lru_full bc1" "find_slot bc1 d a = find_slot bc d a"
    using lf by (simp_all add: bc1_def) (simp_all add: upd_stats_def find_slot_def)
  have slen: "length (bc_slots bc) = 64" by (rule bc_inv_len [OF inv])
  from r have dw: "disk_write_block hw wr w d a buf = (True, w')"
    by (auto simp: bcache_write_through_def Let_def split: prod.splits bool.splits option.splits)
  note law = disk_write_block_law [OF okw K_devs [OF K] len dw]
  show ?thesis
  proof (cases "find_slot bc d a")
    case None
    with r dw have bc': "bc' = bc1" by (simp add: bcache_write_through_def bc1_def [symmetric] bc1(4))
    have no: "\<not> slot_is d a (?cs ! j)" if "j < 64" for j by (rule find_slot_None [OF None slen that])
    have "coherent w' ?cs" by (rule slot_ok_dirty_other [OF co _ K law(2)]) (use no in blast)
    then have "bc_inv bc' w'" using bc1 law(1) by (simp add: bc_inv_def bc')
    moreover have "view w' ?cs d' a' = (if (d', a') = (d, a) then buf else view w ?cs d' a')" if "(d', a') \<in> K" for d' a'
    proof (cases "(d', a') = (d, a)")
      case True
      then show ?thesis using view_miss [of d a ?cs w'] no law(3) by simp
    next
      case False
      then have "view w' ?cs d' a' = view w ?cs d' a'" by (intro view_other_block [OF one that K _ law(2)]) blast+
      with False show ?thesis by (simp only: if_False)
    qed
    ultimately show ?thesis using law(3) bc1(2) by (auto simp: block_at_def bc')
  next
    case (Some i)
    from find_slot_Some [OF Some slen] have i: "i < 64" "slot_is d a (?cs ! i)" by auto
    have key: "bs_dev (bc_slots bc ! i) = Some d" "bs_lba (bc_slots bc ! i) = a" "bs_valid (bc_slots bc ! i)"
      using i slen by (auto simp: slot_is_def cores_nth)
    let ?f = "\<lambda>b x. x\<lparr>bs_data := buf, bs_valid := True, bs_dirty := b\<rparr>"
    have same: "upd_slot i (\<lambda>x. x\<lparr>bs_data := buf, bs_dirty := False\<rparr>) bc1 = upd_slot i (?f False) bc1"
      using key(3) bc1(1) by (cases "bc_slots bc ! i") (simp add: upd_slot_def)
    have bc': "bc' = lru_touch (upd_slot i (?f False) bc1) i"
      using r dw Some unfolding bcache_write_through_def by (simp add: bc1_def [symmetric] bc1(4) same)
    have inv1: "bc_inv bc1 w" using inv by (simp add: bc1_def)
    have "acquired bc1 d a i" using key i one unfolding acquired_def bc1 one_copy_def by blast
    note f1 = fill_acquired [OF inv1 this K len, of True, simplified]
    define bc2 where "bc2 = upd_slot i (?f True) bc1"
    have iv2: "bc_inv bc2 w" and bl2: "\<And>d' a'. block_at bc2 w d' a' = (if (d', a') = (d, a) then buf else block_at bc1 w d' a')"
      using f1 by (simp_all add: bc2_def)
    have len2: "length (bc_slots bc2) = 64" by (rule bc_inv_len [OF iv2])
    have n2: "bc_slots bc2 ! i = ?f True (bc_slots bc ! i)"
      using i(1) slen bc1(1) by (simp add: bc2_def upd_slot_nth)
    have h2: "slot_is d a (cores bc2 ! i)" "bs_dirty (cores bc2 ! i)"
      using key i(1) len2 by (simp_all add: cores_nth n2 slot_is_def)
    have co2: "coherent w (cores bc2)" "one_copy (cores bc2)" using iv2 by (auto simp: bc_inv_def coherent_def)
    have d2: "bs_dirty (cores bc2 ! j)" if "j < 64" "slot_is d a (cores bc2 ! j)" for j
      using co2(2) i(1) h2 that unfolding one_copy_def by blast
    have iv2': "bc_inv bc2 w'"
      using iv2 law(1) slot_ok_dirty_other [OF co2(1) d2 K law(2)] by (simp add: bc_inv_def)
    have bl2': "block_at bc2 w' d' a' = block_at bc2 w d' a'" if "(d', a') \<in> K" for d' a'
      unfolding block_at_def by (rule view_other_block [OF co2(2) that K _ law(2)]) (use i(1) h2(1) in blast)
    have "acquired bc2 d a i" using key i(1) h2(1) co2(2) unfolding acquired_def one_copy_def n2 by auto
    note f3 = fill_acquired [OF iv2' this K len, of False]
    have db: "buf = dblock w' d a" using law(3) by simp
    have eq3: "upd_slot i (?f False) bc2 = upd_slot i (?f False) bc1"
      using i(1) slen bc1(1) by (simp add: bc2_def upd_slot_def)
    have iv3: "bc_inv (upd_slot i (?f False) bc1) w'" using f3(1) [OF db] unfolding eq3 .
    have "bc_inv bc' w'" unfolding bc' by (rule bc_inv_touch [OF iv3 i(1)])
    moreover have "block_at bc' w' = block_at (upd_slot i (?f False) bc1) w'" unfolding bc' by (rule block_at_cores) simp
    then have "block_at bc' w' d' a' = (if (d', a') = (d, a) then buf else block_at bc w d' a')" if "(d', a') \<in> K" for d' a'
      using f3(2) [OF db, of d' a'] bl2' [OF that] bl2 [of d' a'] block_at_cores [OF bc1(2), of w] unfolding eq3 by auto
    ultimately show ?thesis using law(3) by auto
  qed
qed

definition pending :: "'d option \<Rightarrow> 'd bcache \<Rightarrow> nat \<Rightarrow> bool" where
  "pending odev bc i \<longleftrightarrow> (let s = cores bc ! i in bs_valid s \<and> bs_dirty s \<and> (odev = None \<or> bs_dev s = odev))"

lemma sync_loop_law:
  "bc_inv bc w \<Longrightarrow> set is \<subseteq> {..<64} \<Longrightarrow> sync_loop hw wr odev rc bc w is = (rc', bc', w') \<Longrightarrow>
   bc_inv bc' w' \<and> same_blocks bc w bc' w' \<and> (\<forall>j < 64. pending odev bc' j \<longrightarrow> pending odev bc j) \<and>
   (rc' \<longrightarrow> rc \<and> (\<forall>j\<in>set is. \<not> pending odev bc' j))"
proof (induction "is" arbitrary: rc bc w)
  case (Cons i "is")
  have i: "i < 64" using Cons.prems(2) by simp
  have nth: "cores bc ! i = core (bc_slots bc ! i)" using i bc_inv_len [OF Cons.prems(1)] by (simp add: cores_nth)
  show ?case
  proof (cases "pending odev bc i")
    case False
    then have r: "sync_loop hw wr odev rc bc w is = (rc', bc', w')"
      using Cons.prems(3) by (auto simp: pending_def nth Let_def split: if_splits)
    from Cons.IH [OF Cons.prems(1) _ r] Cons.prems(2) False i show ?thesis by auto
  next
    case True
    then have vd: "bs_valid (bc_slots bc ! i)" "bs_dirty (bc_slots bc ! i)" "odev = None \<or> bs_dev (bc_slots bc ! i) = odev"
      by (auto simp: pending_def nth Let_def)
    obtain b bc1 w1 where wb: "slot_writeback hw wr bc w i = (b, bc1, w1)" by (metis surj_pair)
    note law = slot_writeback_law [OF Cons.prems(1) i vd(1,2) wb]
    have r: "sync_loop hw wr odev (if b then rc else False) bc1 w1 is = (rc', bc', w')"
      using Cons.prems(3) vd wb by (cases b) (auto simp: Let_def)
    have p1: "pending odev bc1 j \<Longrightarrow> pending odev bc j" "b \<Longrightarrow> \<not> pending odev bc1 i" if "j < 64" for j
      using law(3,4) i bc_inv_len [OF Cons.prems(1)]
      by (cases b; cases "j = i"; simp add: pending_def Let_def)+
    from Cons.IH [OF law(1) _ r] Cons.prems(2)
    have ih: "bc_inv bc' w'" "same_blocks bc1 w1 bc' w'" "\<forall>j < 64. pending odev bc' j \<longrightarrow> pending odev bc1 j"
      "rc' \<longrightarrow> (if b then rc else False) \<and> (\<forall>j\<in>set is. \<not> pending odev bc' j)" by auto
    from ih(4) have "rc' \<longrightarrow> b \<and> rc" by (auto split: if_splits)
    with ih same_blocks_trans [OF law(2) ih(2)] p1 i show ?thesis by (auto split: if_splits)
  qed
qed auto

lemma bcache_sync_law:
  assumes inv: "bc_inv bc w" and s: "bcache_sync hw wr bc w odev = (rc, bc', w')"
  shows "bc_inv bc' w' \<and> same_blocks bc w bc' w' \<and>
    (rc \<longrightarrow> (\<forall>(d, a)\<in>K. odev = None \<or> odev = Some d \<longrightarrow> dblock w' d a = block_at bc w d a))"
proof -
  have "set [0..<64] \<subseteq> {..<64 :: nat}" by auto
  from sync_loop_law [OF inv this s [unfolded bcache_sync_def BCACHE_SLOTS_def]]
  have l: "bc_inv bc' w'" "same_blocks bc w bc' w'" "rc \<Longrightarrow> j < 64 \<Longrightarrow> \<not> pending odev bc' j" for j by auto
  have "dblock w' d a = block_at bc w d a" if rc and K: "(d, a) \<in> K" and dev: "odev = None \<or> odev = Some d" for d a
  proof -
    have co: "coherent w' (cores bc')" using l(1) by (simp add: bc_inv_def)
    have "dblock w' d a = block_at bc' w' d a"
    proof (cases "\<exists>j < 64. slot_is d a (cores bc' ! j)")
      case True
      then obtain j where j: "j < 64" "slot_is d a (cores bc' ! j)" by blast
      with l(3) [OF \<open>rc\<close> j(1)] dev have "\<not> bs_dirty (cores bc' ! j)" by (auto simp: pending_def slot_is_def Let_def)
      then have "bs_data (cores bc' ! j) = dblock w' d a"
        using co j by (auto simp: coherent_def slot_ok_def slot_is_def)
      moreover have "block_at bc' w' d a = bs_data (cores bc' ! j)"
        using co j by (simp add: block_at_def view_hit coherent_def)
      ultimately show ?thesis by simp
    next
      case False
      then show ?thesis by (simp add: block_at_def view_miss)
    qed
    with l(2) K show ?thesis by (auto simp: same_blocks_def)
  qed
  with l(1,2) show ?thesis by auto
qed

lemma bcache_invalidate_law:
  assumes inv: "bc_inv bc w" and K: "(d, a) \<in> K"
  shows "bc_inv (bcache_invalidate bc d a) w \<and>
    (\<forall>(d', a')\<in>K. block_at (bcache_invalidate bc d a) w d' a' =
       (if (d', a') = (d, a) then dblock w d a else block_at bc w d' a'))"
proof -
  have slen: "length (bc_slots bc) = 64" by (rule bc_inv_len [OF inv])
  have co: "coherent w (cores bc)" "one_copy (cores bc)" "ok w" "lru_full bc" using inv by (auto simp: bc_inv_def coherent_def)
  show ?thesis
  proof (cases "find_slot bc d a")
    case None
    have "block_at bc w d a = dblock w d a"
      unfolding block_at_def by (rule view_miss) (rule find_slot_None [OF None slen])
    with None inv show ?thesis by (auto simp: bcache_invalidate_def)
  next
    case (Some i)
    from find_slot_Some [OF Some slen] have i: "i < 64" "slot_is d a (cores bc ! i)" by auto
    let ?f = "\<lambda>x. x\<lparr>bs_valid := False, bs_dirty := False, bs_dev := None\<rparr>"
    let ?t = "core (?f (bc_slots bc ! i))"
    have eq: "bcache_invalidate bc d a = lru_demote (upd_slot i ?f bc) i" using Some by (simp add: bcache_invalidate_def)
    have cs: "cores (bcache_invalidate bc d a) = (cores bc)[i := ?t]" unfolding eq by (simp add: cores_upd)
    have nth: "(cores bc)[i := ?t] ! j = (if j = i then ?t else cores bc ! j)" for j
      using i(1) slen by (cases "j = i") auto
    have hit: "slot_is d' a' ((cores bc)[i := ?t] ! j) \<longleftrightarrow> j \<noteq> i \<and> slot_is d' a' (cores bc ! j)" for d' a' j
      unfolding nth by (simp add: slot_is_def)
    have one: "one_copy ((cores bc)[i := ?t])" using co(2) unfolding one_copy_def hit by blast
    have "slot_ok w ((cores bc)[i := ?t] ! j)" if "j < 64" for j
      using co(1) that bc_inv_data [OF inv i(1)] unfolding nth coherent_def by (auto simp: slot_ok_def)
    then have "coherent w ((cores bc)[i := ?t])" using one slen by (simp add: coherent_def)
    moreover have "lru_full (bcache_invalidate bc d a)"
      unfolding eq using i(1) co(4) by (intro lru_full_demote lru_full_upd) auto
    ultimately have "bc_inv (bcache_invalidate bc d a) w" using co(3) by (simp add: bc_inv_def cs)
    moreover have "view w ((cores bc)[i := ?t]) d' a' = (if (d', a') = (d, a) then dblock w d a else view w (cores bc) d' a')" for d' a'
    proof (cases "(d', a') = (d, a)")
      case True
      have "\<not> slot_is d a ((cores bc)[i := ?t] ! j)" if "j < 64" for j
        using co(2) i that unfolding hit one_copy_def by blast
      then show ?thesis using True by (simp add: view_miss)
    next
      case False
      have "view w ((cores bc)[i := ?t]) d' a' = view w (cores bc) d' a'"
      proof (cases "\<exists>j < 64. slot_is d' a' (cores bc ! j)")
        case True
        then obtain j where j: "j < 64" "slot_is d' a' (cores bc ! j)" by blast
        then have "j \<noteq> i" using False i(2) by (auto simp: slot_is_def)
        then show ?thesis using view_hit [OF co(2) j, of w] view_hit [OF one j(1), of d' a' w] j hit nth by simp
      next
        case miss: False
        then show ?thesis by (simp add: view_miss hit)
      qed
      with False show ?thesis by (simp only: if_False)
    qed
    ultimately show ?thesis by (auto simp: block_at_def cs)
  qed
qed

end

end
