(* ===== verification/Bcache_Run.thy ===== *)
theory Bcache_Run
  imports Bcache
begin

text \<open>
  Runs of the block cache: when the victim search of kernel/blk/bcache.c ends and when it does not,
  the cache on the root file system's partition, and the cache as a store of blocks.
\<close>

section \<open>When the victim search ends\<close>

definition busy :: "'d bcache \<Rightarrow> nat \<Rightarrow> bool" where
  "busy bc i \<longleftrightarrow> bs_valid (cores bc ! i) \<and> bs_dirty (cores bc ! i)"

lemma busy_slot: "lru bc xs \<Longrightarrow> i < 64 \<Longrightarrow> busy bc i \<longleftrightarrow> bs_valid (bc_slots bc ! i) \<and> bs_dirty (bc_slots bc ! i)"
  using lru_length [of bc xs] by (simp add: busy_def cores_nth)

lemma slot_writeback_fail: "slot_writeback hw wr bc w i = (False, bc', w') \<Longrightarrow> bc' = bc"
  by (auto simp: slot_writeback_def Let_def split: if_splits prod.splits bool.splits)

lemma find_victim_step:
  assumes "lru bc xs" "i < 64" "busy bc i" "slot_writeback hw wr bc w i = (b, bc1, w1)"
  shows "find_victim hw wr bc w (Some i) =
    (if b then Some (Some i, bc1, w1) else find_victim hw wr (lru_touch bc i) w1 (bs_prev (bc_slots bc ! i)))"
  using assms(3,4) busy_slot [OF assms(1,2)] slot_writeback_fail [of hw wr bc w i bc1 w1]
  by (subst find_victim.simps) (simp add: Let_def)

text \<open>The walk passes the busy slots after a slot that is not busy and stops there at the latest.\<close>

lemma find_victim_ends:
  assumes "lru bc (ys @ i # zs)" "\<not> busy bc i"
  shows "\<exists>k bc' w'. find_victim hw wr bc w (last_of (i # zs) None) = Some (Some k, bc', w')"
  using assms
proof (induction zs arbitrary: bc w ys rule: rev_induct)
  case Nil
  then have "i < 64" by (auto simp: lru_def BCACHE_SLOTS_def)
  with busy_slot [OF Nil(1)] Nil(2) show ?case by (simp add: find_victim.simps [of hw wr bc w "Some i"] Let_def)
next
  case (snoc z zs)
  have l: "lru bc ((ys @ i # zs) @ z # [])" using snoc.prems(1) by simp
  have z: "z < 64" using l by (auto simp: lru_def BCACHE_SLOTS_def)
  show ?case
  proof (cases "busy bc z")
    case False
    with busy_slot [OF l z] show ?thesis by (simp add: find_victim.simps [of hw wr bc w "Some z"] Let_def)
  next
    case True
    obtain b bc1 w1 where wb: "slot_writeback hw wr bc w z = (b, bc1, w1)" by (metis surj_pair)
    note st = find_victim_step [OF l z True wb]
    show ?thesis
    proof (cases b)
      case False
      have p: "bs_prev (bc_slots bc ! z) = last_of (i # zs) None"
        using lru_split(1) [OF l] by (simp add: last_of_def)
      have "lru (lru_touch bc z) ((z # ys) @ i # zs)" using lru_touch_lru [OF l] by simp
      moreover have "\<not> busy (lru_touch bc z) i" using snoc.prems(2) by (simp add: busy_def)
      ultimately show ?thesis using snoc.IH [of "lru_touch bc z" "z # ys" w1] False st p by simp
    qed (use st in simp)
  qed
qed

lemma two_at_end:
  assumes "2 \<le> length xs" obtains ys y z where "xs = (ys @ [y]) @ z # []"
proof (cases xs rule: rev_cases)
  case (snoc us z)
  with assms that show thesis by (cases us rule: rev_cases) auto
qed (use assms in simp)

text \<open>With every slot busy and every write failing, each touched slot leaves a new busy tail.\<close>

lemma find_victim_diverges:
  fixes hw :: "'d \<Rightarrow> bool" and wr :: "('w, 'd) dev_write" and bc :: "'d bcache"
  assumes fail: "\<And>w d a buf. \<not> fst (disk_write_block hw wr w d a buf)"
    and "lru bc xs" "2 \<le> length xs" "\<forall>i\<in>set xs. busy bc i"
  shows "find_victim hw wr bc w (last_of xs None) = None"
proof (rule ccontr)
  assume "find_victim hw wr bc w (last_of xs None) \<noteq> None"
  then obtain r where r: "find_victim hw wr bc w (last_of xs None) = Some r" by blast
  define P where "P hw' wr' bc c \<longleftrightarrow> \<not> (hw' = hw \<and> wr' = wr \<and>
      (\<exists>xs. lru bc xs \<and> 2 \<le> length xs \<and> (\<forall>i\<in>set xs. busy bc i) \<and> c = last_of xs None))"
    for hw' :: "'d \<Rightarrow> bool" and wr' :: "('w, 'd) dev_write" and bc :: "'d bcache" and c :: "nat option"
  have "P hw wr bc (last_of xs None)"
  proof (rule find_victim.raw_induct [where P = "\<lambda>hw wr bc w c r. P hw wr bc c", OF _ r], goal_cases)
    case (1 fv hw' wr' bc w c r)
    show ?case unfolding P_def
    proof (intro notI, elim conjE exE)
      fix xs
      assume hw: "hw' = hw" "wr' = wr" and l: "lru bc xs" "2 \<le> length xs" "\<forall>i\<in>set xs. busy bc i" "c = last_of xs None"
      then obtain ys y z where xs: "xs = (ys @ [y]) @ z # []" by (rule_tac two_at_end) blast+
      note lz = l(1) [unfolded xs]
      have z: "z < 64" "busy bc z" "c = Some z" using l xs by (auto simp: lru_def BCACHE_SLOTS_def)
      obtain b bc1 w1 where wb: "slot_writeback hw wr bc w z = (b, bc1, w1)" by (metis surj_pair)
      have nb: "\<not> b" using wb fail z(2) busy_slot [OF lz z(1)]
        by (auto simp: slot_writeback_def Let_def split: prod.splits bool.splits) (metis fst_conv)+
      then have "bc1 = bc" using wb slot_writeback_fail by (cases b) auto
      with 1(2) z nb wb busy_slot [OF lz z(1)] hw
      have step: "fv hw' wr' (lru_touch bc z) w1 (bs_prev (bc_slots bc ! z)) = Some r" by (simp add: Let_def)
      have "lru (lru_touch bc z) (z # ys @ [y])" using lru_touch_lru [OF lz] by simp
      moreover have "bs_prev (bc_slots bc ! z) = last_of (z # ys @ [y]) None" using lru_split(1) [OF lz] by simp
      moreover have "\<forall>i\<in>set (z # ys @ [y]). busy (lru_touch bc z) i" using l(3) xs by (simp add: busy_def)
      moreover have "2 \<le> length (z # ys @ [y])" by simp
      ultimately have "\<not> P hw wr (lru_touch bc z) (bs_prev (bc_slots bc ! z))" unfolding P_def by blast
      with 1(1) [OF step] hw show False by simp
    qed
  qed
  then show False using assms(2-4) by (auto simp: P_def)
qed

section \<open>The empty cache\<close>

lemma lru_upd_other: "lru bc xs \<Longrightarrow> i \<notin> set xs \<Longrightarrow> i < length (bc_slots bc) \<Longrightarrow> lru (upd_slot i f bc) xs"
  by (simp add: lru_def links_upd)

lemma bcache_init_prefix:
  assumes "length (bc_slots bc) = 64" "n \<le> 64"
    and b: "b = fold (\<lambda>i bc. lru_push_front (upd_slot i empty_slot bc) i) [0..<n]
       (bc\<lparr>bc_head := None, bc_tail := None, bc_stats := zero_stats\<rparr>)"
  shows "lru b (rev [0..<n]) \<and> (\<forall>i < n. \<not> bs_valid (cores b ! i)) \<and>
    (\<forall>i < 64. bs_data (cores b ! i) = bs_data (bc_slots bc ! i))"
  using assms(2) b
proof (induction n arbitrary: b)
  case 0
  then show ?case using assms(1) by (simp add: lru_def BCACHE_SLOTS_def cores_nth)
next
  case (Suc n)
  define c where "c = fold (\<lambda>i bc. lru_push_front (upd_slot i empty_slot bc) i) [0..<n]
       (bc\<lparr>bc_head := None, bc_tail := None, bc_stats := zero_stats\<rparr>)"
  have IH: "lru c (rev [0..<n])" "\<forall>i < n. \<not> bs_valid (cores c ! i)" "\<forall>i < 64. bs_data (cores c ! i) = bs_data (bc_slots bc ! i)"
    using Suc.IH [OF _ c_def] Suc.prems(1) by simp_all
  have b: "b = lru_push_front (upd_slot n empty_slot c) n" using Suc.prems(2) by (simp add: c_def)
  have n: "n < 64" using Suc.prems(1) by simp
  have len: "length (bc_slots c) = 64" using lru_length [OF IH(1)] .
  have "lru (upd_slot n empty_slot c) (rev [0..<n])" using IH(1) by (rule lru_upd_other) (use n len in simp_all)
  from lru_push_front_lru [OF this, of n] n have l: "lru b (rev [0..<Suc n])" by (simp add: b)
  have cs: "cores b = (cores c)[n := core (empty_slot (bc_slots c ! n))]" by (simp add: b cores_upd)
  show ?case using l IH(2,3) n len by (auto simp: cs nth_list_update empty_slot_def less_Suc_eq cores_nth)
qed

lemma bcache_init_empty:
  assumes "length (bc_slots bc) = 64"
  shows "lru (bcache_init bc) (rev [0..<64])" "i < 64 \<Longrightarrow> \<not> bs_valid (cores (bcache_init bc) ! i)"
    "i < 64 \<Longrightarrow> bs_data (cores (bcache_init bc) ! i) = bs_data (bc_slots bc ! i)"
  using bcache_init_prefix [of bc 64 "bcache_init bc"] assms unfolding bcache_init_def BCACHE_SLOTS_def by simp_all

lemma bcache_init_full: "length (bc_slots bc) = 64 \<Longrightarrow> lru_full (bcache_init bc)"
  unfolding lru_full_def by (rule exI [of _ "rev [0..<64]"]) (auto intro: bcache_init_empty(1) simp: BCACHE_SLOTS_def)


section \<open>Every operation returns while one slot is clean\<close>

lemma acquire_slot_ends:
  assumes "lru_full bc" "i < 64" "\<not> busy bc i"
  shows "\<exists>k bc' w'. acquire_slot hw wr bc w d a = Some (Some k, bc', w')"
proof (cases "find_slot bc d a")
  case None
  obtain ys zs where l: "lru bc (ys @ i # zs)" using lru_full_split [OF assms(1,2)] by blast
  then have t: "bc_tail bc = last_of (i # zs) None" by (simp add: lru_def)
  obtain k bc' w' where "find_victim hw wr bc w (bc_tail bc) = Some (Some k, bc', w')"
    using find_victim_ends [OF l assms(3), of hw wr w] t by auto
  with None show ?thesis by (simp add: acquire_slot_def Let_def)
qed (simp add: acquire_slot_def)

section \<open>Runs\<close>

text \<open>A client's calls and what it sees of them.\<close>

datatype 'd cache_op = CRead 'd u32 | CWrite 'd u32 "u8 list" | CThrough 'd u32 "u8 list" | CSync "'d option"
datatype cache_obs = OData "u8 list option" | ODone bool

fun cache_step ::
  "('d \<Rightarrow> bool) \<Rightarrow> ('w, 'd) dev_read \<Rightarrow> ('w, 'd) dev_write \<Rightarrow> 'd bcache \<Rightarrow> 'w \<Rightarrow> 'd cache_op \<Rightarrow>
   (cache_obs \<times> 'd bcache \<times> 'w) option" where
  "cache_step hw rd wr bc w (CRead d a) = map_option (apfst OData) (bcache_read hw rd wr bc w (Some d) a)"
| "cache_step hw rd wr bc w (CWrite d a buf) = map_option (apfst ODone) (bcache_write hw wr bc w (Some d) a buf)"
| "cache_step hw rd wr bc w (CThrough d a buf) = Some (apfst ODone (bcache_write_through hw wr bc w (Some d) a buf))"
| "cache_step hw rd wr bc w (CSync dev) = Some (apfst ODone (bcache_sync hw wr bc w dev))"

fun cache_run ::
  "('d \<Rightarrow> bool) \<Rightarrow> ('w, 'd) dev_read \<Rightarrow> ('w, 'd) dev_write \<Rightarrow> 'd bcache \<Rightarrow> 'w \<Rightarrow> 'd cache_op list \<Rightarrow>
   (cache_obs list \<times> 'd bcache \<times> 'w) option" where
  "cache_run hw rd wr bc w [] = Some ([], bc, w)"
| "cache_run hw rd wr bc w (x # xs) =
     (case cache_step hw rd wr bc w x of
        None \<Rightarrow> None
      | Some (ob, bc1, w1) \<Rightarrow> map_option (apfst (Cons ob)) (cache_run hw rd wr bc1 w1 xs))"









section \<open>A full cache over a device that takes no writes\<close>

text \<open>The used slots, all busy, before the free ones, whose slots are invalid.\<close>

definition filling :: "'d bcache \<Rightarrow> nat list \<Rightarrow> nat list \<Rightarrow> ('d \<times> u32) list \<Rightarrow> bool" where
  "filling bc us fs ks \<longleftrightarrow> lru bc (us @ fs) \<and> set (us @ fs) = {..<64} \<and> (\<forall>i\<in>set us. busy bc i) \<and>
     (\<forall>i\<in>set fs. \<not> bs_valid (cores bc ! i)) \<and> length us = length ks \<and>
     (\<forall>i < 64. \<forall>d a. slot_is d a (cores bc ! i) \<longrightarrow> (d, a) \<in> set ks)"

lemma filling_init: "length (bc_slots bc) = 64 \<Longrightarrow> filling (bcache_init bc) [] (rev [0..<64]) []"
  using bcache_init_empty [of bc] by (auto simp: filling_def slot_is_def)

lemma filling_length: "filling bc us fs ks \<Longrightarrow> length us + length fs = 64"
proof -
  assume "filling bc us fs ks"
  then have "distinct (us @ fs)" "set (us @ fs) = {..<64}" by (auto simp: filling_def lru_def)
  from distinct_card [OF this(1)] this(2) show ?thesis by simp
qed

lemma filling_miss: "filling bc us fs ks \<Longrightarrow> (d, a) \<notin> set ks \<Longrightarrow> find_slot bc d a = None"
proof -
  assume f: "filling bc us fs ks" and n: "(d, a) \<notin> set ks"
  have len: "length (bc_slots bc) = 64" using f lru_length by (auto simp: filling_def)
  have "\<not> slot_is d a (bc_slots bc ! i)" if "i < 64" for i
    using f n that len by (auto simp: filling_def cores_nth slot_is_def)
  then show ?thesis by (simp add: find_slot_def find_None_iff BCACHE_SLOTS_def)
qed

lemma filling_write:
  assumes f: "filling bc us (fs @ [v]) ks" and n: "(d, a) \<notin> set ks"
  shows "\<exists>bc'. bcache_write hw wr bc w (Some d) a buf = Some (True, bc', w) \<and> filling bc' (v # us) fs ((d, a) # ks)"
proof -
  have l: "lru bc ((us @ fs) @ v # [])" and s: "set (us @ fs @ [v]) = {..<64}" and v: "\<not> bs_valid (cores bc ! v)"
    using f by (auto simp: filling_def)
  have v64: "v < 64" using s by auto
  have len: "length (bc_slots bc) = 64" using lru_length [OF l] .
  have inv: "\<not> bs_valid (bc_slots bc ! v)" using v len v64 by (simp add: cores_nth)
  have t: "bc_tail bc = Some v" using l by (simp add: lru_def)
  define b1 where "b1 = upd_slot v (\<lambda>x. x\<lparr>bs_dev := Some d, bs_lba := a, bs_valid := False, bs_dirty := False\<rparr>) bc"
  define b2 where "b2 = upd_slot v (\<lambda>x. x\<lparr>bs_data := buf, bs_valid := True, bs_dirty := True\<rparr>) (lru_touch b1 v)"
  have w: "bcache_write hw wr bc w (Some d) a buf = Some (True, b2, w)"
    using filling_miss [OF f n] t inv
    by (simp add: bcache_write_def acquire_slot_def find_victim.simps [of hw wr bc w "Some v"] Let_def b1_def b2_def)
  have "lru b1 ((us @ fs) @ v # [])" unfolding b1_def using l by (rule lru_upd) simp
  from lru_touch_lru [OF this] have l1: "lru (lru_touch b1 v) (v # us @ fs)" by simp
  then have l2: "lru b2 (v # us @ fs)" unfolding b2_def by (rule lru_upd) simp
  have len1: "length (bc_slots b1) = 64" "length (bc_slots (lru_touch b1 v)) = 64" using len lru_length [OF l1] by (simp_all add: b1_def)
  have "core (bc_slots (lru_touch b1 v) ! v) = cores (lru_touch b1 v) ! v" using v64 len1 by (simp only: cores_nth)
  also have "\<dots> = core ((bc_slots bc ! v)\<lparr>bs_dev := Some d, bs_lba := a, bs_valid := False, bs_dirty := False\<rparr>)"
    using v64 len by (simp add: b1_def cores_upd)
  finally have c: "core (bc_slots (lru_touch b1 v) ! v) = core ((bc_slots bc ! v)\<lparr>bs_dev := Some d, bs_lba := a, bs_valid := False, bs_dirty := False\<rparr>)" .
  have c1: "bs_dev (bc_slots (lru_touch b1 v) ! v) = Some d" "bs_lba (bc_slots (lru_touch b1 v) ! v) = a"
    using arg_cong [OF c, of bs_dev] arg_cong [OF c, of bs_lba] by simp_all
  have c2: "cores b2 = (cores bc)[v := (cores b2) ! v]"
    using v64 len by (simp add: b2_def b1_def cores_upd)
  have c3: "bs_valid (cores b2 ! v) \<and> bs_dirty (cores b2 ! v) \<and> bs_dev (cores b2 ! v) = Some d \<and> bs_lba (cores b2 ! v) = a"
    using c1 v64 len1 by (simp add: b2_def cores_upd)
  have o: "cores b2 ! i = cores bc ! i" if "i \<noteq> v" for i using c2 that by (metis nth_list_update_neq)
  have nv: "v \<notin> set us" "v \<notin> set fs" using l by (auto simp: lru_def)
  have "filling b2 (v # us) fs ((d, a) # ks)" unfolding filling_def
  proof (intro conjI ballI allI impI)
    show "busy b2 i" if "i \<in> set (v # us)" for i
      using that c3 o f nv by (cases "i = v") (auto simp: busy_def filling_def)
    show "\<not> bs_valid (cores b2 ! i)" if "i \<in> set fs" for i using that o f nv by (cases "i = v") (auto simp: filling_def)
    show "(e, b) \<in> set ((d, a) # ks)" if "i < 64" "slot_is e b (cores b2 ! i)" for i e b
      using that c3 o f by (cases "i = v") (auto simp: filling_def slot_is_def)
  qed (use l2 s f in \<open>auto simp: filling_def\<close>)
  with w show ?thesis by blast
qed

definition put_blocks :: "('d \<times> u32 \<times> u8 list) list \<Rightarrow> 'd cache_op list" where
  "put_blocks bs = map (\<lambda>(d, a, buf). CWrite d a buf) bs"

definition block_keys :: "('d \<times> u32 \<times> u8 list) list \<Rightarrow> ('d \<times> u32) list" where
  "block_keys bs = map (\<lambda>(d, a, buf). (d, a)) bs"

lemma filling_run:
  assumes "filling bc us fs ks" "distinct (block_keys bs @ ks)" "length bs \<le> length fs"
  shows "\<exists>bc' us' fs' ks'. cache_run hw rd wr bc w (put_blocks bs) = Some (replicate (length bs) (ODone True), bc', w) \<and>
    filling bc' us' fs' ks' \<and> length fs' + length bs = length fs \<and> set ks' = set (block_keys bs @ ks)"
  using assms
proof (induction bs arbitrary: bc us fs ks)
  case Nil
  then show ?case by (auto simp: put_blocks_def block_keys_def)
next
  case (Cons x bs)
  obtain d a buf where x: "x = (d, a, buf)" by (cases x) auto
  obtain fs1 v where fs: "fs = fs1 @ [v]" using Cons.prems(3) by (cases fs rule: rev_cases) auto
  have n: "(d, a) \<notin> set ks" using Cons.prems(2) x by (auto simp: block_keys_def)
  obtain bc1 where b: "bcache_write hw wr bc w (Some d) a buf = Some (True, bc1, w)" "filling bc1 (v # us) fs1 ((d, a) # ks)"
    using filling_write [OF Cons.prems(1) [unfolded fs] n, of hw wr w buf] by blast
  have "distinct (block_keys bs @ (d, a) # ks)" "length bs \<le> length fs1"
    using Cons.prems(2,3) x fs by (auto simp: block_keys_def)
  from Cons.IH [OF b(2) this] obtain bc' us' fs' ks' where
    "cache_run hw rd wr bc1 w (put_blocks bs) = Some (replicate (length bs) (ODone True), bc', w)" "filling bc' us' fs' ks'"
    "length fs' + length bs = length fs1" "set ks' = set (block_keys bs @ (d, a) # ks)" by blast
  with b(1) x fs show ?case
    by (intro exI [of _ bc'] exI [of _ us'] exI [of _ fs'] exI [of _ ks']) (auto simp: put_blocks_def block_keys_def)
qed

lemma filling_hangs:
  fixes wr :: "('w, 'd) dev_write"
  assumes fail: "\<And>w d a buf. \<not> fst (disk_write_block hw wr w d a buf)"
    and f: "filling bc us [] ks" and n: "(d, a) \<notin> set ks"
  shows "bcache_write hw wr bc w (Some d) a buf = None \<and> bcache_read hw rd wr bc w (Some d) a = None"
proof -
  have l: "lru bc us" "\<forall>i\<in>set us. busy bc i" using f by (auto simp: filling_def)
  have "2 \<le> length us" using filling_length [OF f] by simp
  then have "find_victim hw wr bc w (last_of us None) = None" by (rule find_victim_diverges [OF fail l(1) _ l(2)])
  moreover have "bc_tail bc = last_of us None" using l(1) by (simp add: lru_def)
  ultimately have "acquire_slot hw wr bc w d a = None" using filling_miss [OF f n] by (simp add: acquire_slot_def)
  with filling_miss [OF f n] show ?thesis by (simp add: bcache_write_def bcache_read_def)
qed

section \<open>The cache over the partition of the root file system\<close>









lemma bcache_returns:
  assumes "lru_full bc" "i < 64" "\<not> busy bc i"
  shows "\<exists>res bc' w'. bcache_read hw rd wr bc w (Some d) a = Some (res, bc', w')"
    and "\<exists>bc' w'. bcache_write hw wr bc w (Some d) a buf = Some (True, bc', w')"
proof -
  obtain k bc' w' where "acquire_slot hw wr bc w d a = Some (Some k, bc', w')"
    using acquire_slot_ends [OF assms, of hw wr w d a] by blast
  then show "\<exists>res bc' w'. bcache_read hw rd wr bc w (Some d) a = Some (res, bc', w')"
    and "\<exists>bc' w'. bcache_write hw wr bc w (Some d) a buf = Some (True, bc', w')"
    by (auto simp: bcache_read_def bcache_write_def Let_def split: option.splits prod.splits bool.splits)
qed

definition zero_block :: "u8 list" where
  "zero_block = replicate 4096 0"

definition blank_cache :: "'d bcache" where
  "blank_cache = \<lparr>bc_slots = replicate 64 \<lparr>bs_dev = None, bs_lba = 0, bs_valid = False, bs_dirty = False,
     bs_prev = None, bs_next = None, bs_data = zero_block\<rparr>, bc_head = None, bc_tail = None, bc_stats = zero_stats\<rparr>"

lemma blank_cache_ok [simp]:
  "length (bc_slots blank_cache) = 64" "\<forall>s\<in>set (bc_slots blank_cache). length (bs_data s) = 4096"
  by (simp_all add: blank_cache_def zero_block_def)

lemma zero_block_length [simp]: "length zero_block = 4096"
  by (simp add: zero_block_def)

section \<open>When a sync succeeds\<close>










section \<open>Properties\<close>





text \<open>
  C30: While one of the slots is invalid or clean, a read and a write of any block return, and the
  write succeeds, whichever device writes fail on the way to a victim.\<close>

theorem bcache_ops_return:
  assumes "lru_full bc" "i < BCACHE_SLOTS" "\<not> (bs_valid (bc_slots bc ! i) \<and> bs_dirty (bc_slots bc ! i))"
  shows "(\<exists>res bc' w'. bcache_read hw rd wr bc w (Some d) a = Some (res, bc', w')) \<and>
    (\<exists>bc' w'. bcache_write hw wr bc w (Some d) a buf = Some (True, bc', w'))"
proof -
  obtain xs where "lru bc xs" using assms(1) by (auto simp: lru_full_def)
  then have "\<not> busy bc i" "i < 64" using assms(2,3) busy_slot by (auto simp: BCACHE_SLOTS_def)
  then show ?thesis by (intro conjI bcache_returns [OF assms(1)])
qed

theorem bcache_ops_return_witness:
  "\<exists>bc' w'. bcache_write (\<lambda>_. False) (\<lambda>w d lba s. (False, w)) (bcache_init blank_cache) () (Some (0 :: nat)) 0 zero_block = Some (True, bc', w')"
proof -
  let ?b = "blank_cache :: nat bcache"
  have "\<not> bs_valid (bc_slots (bcache_init ?b) ! 0)"
    using bcache_init_empty(2) [of ?b 0] lru_length [OF bcache_init_empty(1) [of ?b]] by (simp add: cores_nth)
  with bcache_ops_return [OF bcache_init_full, of ?b 0 "\<lambda>_. False" "\<lambda>w d lba. (None, w)" "\<lambda>w d lba s. (False, w)" "()" "0 :: nat" 0 zero_block]
  show ?thesis by (simp add: BCACHE_SLOTS_def)
qed

text \<open>
  C31: A device that refuses every write stops the kernel: from \<open>bcache_init\<close>, 64 writes of distinct
  blocks all report success, and the next write or read of a further block never returns, since the
  victim search moves each busy tail to the front and goes on with the new tail for ever.\<close>

theorem bcache_full_of_unwritable_hangs:
  fixes wr :: "('w, 'd) dev_write"
  assumes "length (bc_slots bc) = BCACHE_SLOTS" "\<And>w d a buf. \<not> fst (disk_write_block hw wr w d a buf)"
    "length bs = BCACHE_SLOTS" "distinct ((d, a) # block_keys bs)"
  shows "\<exists>bc'. cache_run hw rd wr (bcache_init bc) w (put_blocks bs) = Some (replicate BCACHE_SLOTS (ODone True), bc', w) \<and>
    bcache_write hw wr bc' w (Some d) a buf = None \<and> bcache_read hw rd wr bc' w (Some d) a = None"
proof -
  have n: "length (bc_slots bc) = 64" "distinct (block_keys bs @ [])" "length bs = 64" using assms by (simp_all add: BCACHE_SLOTS_def)
  obtain bc' us fs ks where r: "cache_run hw rd wr (bcache_init bc) w (put_blocks bs) = Some (replicate (length bs) (ODone True), bc', w)"
    "filling bc' us fs ks" "length fs + length bs = length (rev [0..<64::nat])" "set ks = set (block_keys bs @ [])"
    using filling_run [OF filling_init [OF n(1)] n(2), of hw rd wr w] n(3) by fastforce
  then have "fs = []" "(d, a) \<notin> set ks" using n(3) assms(4) by simp_all
  with filling_hangs [OF assms(2), of bc' us ks d a w buf rd] r n(3) show ?thesis by (auto simp: BCACHE_SLOTS_def)
qed

theorem bcache_full_of_unwritable_hangs_witness:
  "\<exists>bc'. cache_run (\<lambda>_. False) (\<lambda>w d lba. (None, w)) (\<lambda>w d lba s. (False, w)) (bcache_init blank_cache) ()
       (put_blocks (map (\<lambda>i. (0 :: nat, of_nat (8 * i), zero_block)) [0..<64])) = Some (replicate BCACHE_SLOTS (ODone True), bc', ()) \<and>
     bcache_write (\<lambda>_. False) (\<lambda>w d lba s. (False, w)) bc' () (Some 0) 512 zero_block = None"
proof -
  let ?bs = "map (\<lambda>i. (0 :: nat, of_nat (8 * i) :: u32, zero_block)) [0..<64]"
  have "distinct ((0, 512) # block_keys ?bs)"
    by (auto simp: block_keys_def distinct_map inj_on_def o_def word_unat_eq_iff unat_word_ariths unat_of_nat)
  with bcache_full_of_unwritable_hangs [of blank_cache "\<lambda>_. False" "\<lambda>w d lba s. (False, w)" ?bs 0 512 "\<lambda>w d lba. (None, w)" "()" zero_block]
  show ?thesis by (simp add: BCACHE_SLOTS_def disk_write_block_def) blast
qed

end
