(* ===== verification/Sched.thy ===== *)
theory Sched
  imports Drunix_Prelude
begin

text \<open>
  The scheduler of kernel/proc/sched.c with the task groups of kernel/proc/task_group.c and the
  display ownership of kernel/console/runtime.c: the process table, the wait queues threaded
  through it, exit, wait, job control and signals.

  A process is a slot number. The wait queue heads, which the code embeds in the objects they belong
  to, are one table indexed by those objects: \<open>QState i\<close> is proc_table[i].state_waiters, \<open>QGroup g\<close> is
  groups[g].state_waiters, and \<open>QExt n\<close> are the queues of pipes, terminals and devices. The address
  space, files, stacks and CPU state of a process are one value \<open>p_res\<close> of a type parameter, and the
  rest of the machine a value of another; the operations of other components on them are the fields
  of \<open>machine\<close>. Closing files wakes the readers and writers of pipes, so those operations also give
  the list of queues they wake.
\<close>

section \<open>State\<close>

definition MAX_PROCS :: nat where "MAX_PROCS = 8"
definition NSIG :: nat where "NSIG = 32"
definition SIG_DFL :: u32 where "SIG_DFL = 0"
definition SIG_IGN :: u32 where "SIG_IGN = 1"
definition SIGILL :: nat where "SIGILL = 4"
definition SIGTRAP :: nat where "SIGTRAP = 5"
definition SIGFPE :: nat where "SIGFPE = 8"
definition SIGKILL :: nat where "SIGKILL = 9"
definition SIGSEGV :: nat where "SIGSEGV = 11"
definition SIGCHLD :: nat where "SIGCHLD = 17"
definition SIGCONT :: nat where "SIGCONT = 18"
definition SIGSTOP :: nat where "SIGSTOP = 19"
definition SIGTSTP :: nat where "SIGTSTP = 20"

datatype proc_state = PROC_UNUSED | PROC_READY | PROC_RUNNING | PROC_ZOMBIE | PROC_BLOCKED | PROC_STOPPED

datatype wq = QState nat | QGroup nat | QExt nat

record wait_queue =
  wq_head :: "nat option"
  wq_tail :: "nat option"

record 'r process =
  p_res :: 'r
  p_tid :: u32
  p_tgid :: u32
  p_group :: "nat option"
  p_pid :: u32
  p_state :: proc_state
  p_wait_queue :: "wq option"
  p_wait_next :: "nat option"
  p_wait_deadline :: u32
  p_wait_deadline_set :: bool
  p_pgid :: u32
  p_sid :: u32
  p_tty_id :: u32
  p_parent_pid :: u32
  p_exit_status :: u32
  p_clear_child_tid :: u32
  p_sig_pending :: u32
  p_sig_blocked :: u32
  p_sig_handlers :: "u32 list"
  p_crash_valid :: bool
  p_crash_signum :: u32
  p_crash_addr :: u64

record task_group =
  tg_used :: bool
  tg_refs :: u32
  tg_tgid :: u32
  tg_leader_tid :: u32
  tg_parent_tgid :: u32
  tg_pgid :: u32
  tg_sid :: u32
  tg_tty_id :: u32
  tg_live_tasks :: u32
  tg_exit_signal :: u32
  tg_group_exit :: bool
  tg_exit_status :: u32
  tg_sig_pending :: u32

record ('r, 'w) sched =
  proc_table :: "'r process list"
  groups :: "task_group list"
  queues :: "wq \<Rightarrow> wait_queue"
  g_current :: "nat option"
  g_need_switch :: bool
  g_next_pid :: u32
  g_ticks :: u32
  g_display_owner_pid :: u32
  world :: 'w

text \<open>What the scheduler calls in the rest of the kernel.\<close>

record ('r, 'w) machine =
  mc_put_all :: "'r \<Rightarrow> 'w \<Rightarrow> 'r \<times> 'w \<times> nat list"
  mc_put_files :: "'r \<Rightarrow> 'w \<Rightarrow> 'r \<times> 'w \<times> nat list"
  mc_had_resources :: "'r \<Rightarrow> bool"
  mc_release_user_space :: "'r \<Rightarrow> 'w \<Rightarrow> 'r \<times> 'w"
  mc_release_kstack :: "'r \<Rightarrow> 'w \<Rightarrow> 'r \<times> 'w"
  mc_zero :: 'r
  mc_build_frame :: "'r \<Rightarrow> 'w \<Rightarrow> 'r \<times> 'w"
  mc_clear_tid :: "'r \<Rightarrow> u32 \<Rightarrow> 'w \<Rightarrow> 'r \<times> 'w"
  mc_actions :: "'w \<Rightarrow> 'r \<Rightarrow> u32 list option"
  mc_fpu_save :: "'r \<Rightarrow> 'w \<Rightarrow> 'r \<times> 'w"
  mc_prepare :: "'r \<Rightarrow> 'w \<Rightarrow> 'w"
  mc_crash_frame :: "'w \<Rightarrow> 'r \<Rightarrow> 'r"
  mc_sanitize :: "'r \<Rightarrow> 'w \<Rightarrow> 'w"
  mc_user_frame :: "'w \<Rightarrow> bool"
  mc_setup_frame :: "'r \<Rightarrow> nat \<Rightarrow> u32 \<Rightarrow> 'w \<Rightarrow> bool \<times> 'w"
  mc_core_dump :: "'r \<Rightarrow> nat \<Rightarrow> 'w \<Rightarrow> bool \<times> 'w"

definition upd_proc :: "nat \<Rightarrow> ('r process \<Rightarrow> 'r process) \<Rightarrow> ('r, 'w) sched \<Rightarrow> ('r, 'w) sched" where
  "upd_proc i f s = s\<lparr>proc_table := (proc_table s)[i := f (proc_table s ! i)]\<rparr>"

definition upd_group :: "nat \<Rightarrow> (task_group \<Rightarrow> task_group) \<Rightarrow> ('r, 'w) sched \<Rightarrow> ('r, 'w) sched" where
  "upd_group g f s = s\<lparr>groups := (groups s)[g := f (groups s ! g)]\<rparr>"

definition set_queue :: "wq \<Rightarrow> nat option \<Rightarrow> nat option \<Rightarrow> ('r, 'w) sched \<Rightarrow> ('r, 'w) sched" where
  "set_queue q h t s = s\<lparr>queues := (queues s)(q := \<lparr>wq_head = h, wq_tail = t\<rparr>)\<rparr>"

text \<open>An operation of another component on one process and the machine.\<close>

definition on_res :: "nat \<Rightarrow> ('r \<Rightarrow> 'w \<Rightarrow> 'r \<times> 'w) \<Rightarrow> ('r, 'w) sched \<Rightarrow> ('r, 'w) sched" where
  "on_res i f s = (case f (p_res (proc_table s ! i)) (world s) of
     (r, w) \<Rightarrow> upd_proc i (\<lambda>p. p\<lparr>p_res := r\<rparr>) (s\<lparr>world := w\<rparr>))"

section \<open>Task groups\<close>

definition no_group :: task_group where
  "no_group = \<lparr>tg_used = False, tg_refs = 0, tg_tgid = 0, tg_leader_tid = 0, tg_parent_tgid = 0, tg_pgid = 0,
     tg_sid = 0, tg_tty_id = 0, tg_live_tasks = 0, tg_exit_signal = 0, tg_group_exit = False, tg_exit_status = 0,
     tg_sig_pending = 0\<rparr>"

definition task_group_table_init :: "('r, 'w) sched \<Rightarrow> ('r, 'w) sched" where
  "task_group_table_init s =
     s\<lparr>groups := replicate MAX_PROCS no_group,
       queues := (\<lambda>q. case q of QGroup g \<Rightarrow> (if g < MAX_PROCS then \<lparr>wq_head = None, wq_tail = None\<rparr> else queues s q) | _ \<Rightarrow> queues s q)\<rparr>"

definition task_group_create ::
  "('r, 'w) sched \<Rightarrow> u32 \<Rightarrow> u32 \<Rightarrow> u32 \<Rightarrow> u32 \<Rightarrow> u32 \<Rightarrow> u32 \<Rightarrow> u32 \<Rightarrow> nat option \<times> ('r, 'w) sched" where
  "task_group_create s tgid leader_tid parent_tgid pgid sid tty_id exit_signal =
     (case find (\<lambda>i. \<not> tg_used (groups s ! i)) [0..<MAX_PROCS] of
        None \<Rightarrow> (None, s)
      | Some i \<Rightarrow>
          (Some i, set_queue (QGroup i) None None
             (upd_group i (\<lambda>_. no_group\<lparr>tg_used := True, tg_refs := 1, tg_tgid := tgid, tg_leader_tid := leader_tid,
                tg_parent_tgid := parent_tgid, tg_pgid := pgid, tg_sid := sid, tg_tty_id := tty_id,
                tg_exit_signal := exit_signal\<rparr>) s)))"

definition task_group_get :: "nat option \<Rightarrow> ('r, 'w) sched \<Rightarrow> ('r, 'w) sched" where
  "task_group_get grp s =
     (case grp of None \<Rightarrow> s | Some g \<Rightarrow> upd_group g (\<lambda>x. x\<lparr>tg_refs := tg_refs x + 1\<rparr>) s)"

definition task_group_put :: "nat option \<Rightarrow> ('r, 'w) sched \<Rightarrow> ('r, 'w) sched" where
  "task_group_put grp s =
     (case grp of
        None \<Rightarrow> s
      | Some g \<Rightarrow>
          if tg_refs (groups s ! g) = 0 then s
          else let s1 = upd_group g (\<lambda>x. x\<lparr>tg_refs := tg_refs x - 1\<rparr>) s in
            if tg_refs (groups s1 ! g) = 0 then set_queue (QGroup g) None None (upd_group g (\<lambda>_. no_group) s1) else s1)"

definition task_group_add_task :: "nat option \<Rightarrow> ('r, 'w) sched \<Rightarrow> ('r, 'w) sched" where
  "task_group_add_task grp s =
     (case grp of None \<Rightarrow> s | Some g \<Rightarrow> upd_group g (\<lambda>x. x\<lparr>tg_live_tasks := tg_live_tasks x + 1\<rparr>) s)"

definition task_group_remove_task :: "nat option \<Rightarrow> ('r, 'w) sched \<Rightarrow> ('r, 'w) sched" where
  "task_group_remove_task grp s =
     (case grp of
        None \<Rightarrow> s
      | Some g \<Rightarrow> if tg_live_tasks (groups s ! g) > 0
          then upd_group g (\<lambda>x. x\<lparr>tg_live_tasks := tg_live_tasks x - 1\<rparr>) s else s)"

definition task_group_tgid :: "nat option \<Rightarrow> ('r, 'w) sched \<Rightarrow> u32" where
  "task_group_tgid grp s = (case grp of None \<Rightarrow> 0 | Some g \<Rightarrow> tg_tgid (groups s ! g))"

definition task_group_leader_tid :: "nat option \<Rightarrow> ('r, 'w) sched \<Rightarrow> u32" where
  "task_group_leader_tid grp s = (case grp of None \<Rightarrow> 0 | Some g \<Rightarrow> tg_leader_tid (groups s ! g))"

definition task_group_live_count :: "nat option \<Rightarrow> ('r, 'w) sched \<Rightarrow> u32" where
  "task_group_live_count grp s = (case grp of None \<Rightarrow> 0 | Some g \<Rightarrow> tg_live_tasks (groups s ! g))"

definition sig_bit :: "nat \<Rightarrow> u32" where
  "sig_bit n = push_bit n 1"

definition task_group_set_process_signal :: "nat option \<Rightarrow> int \<Rightarrow> ('r, 'w) sched \<Rightarrow> ('r, 'w) sched" where
  "task_group_set_process_signal grp signum s =
     (case grp of
        None \<Rightarrow> s
      | Some g \<Rightarrow> if signum < 1 \<or> signum \<ge> int NSIG then s
          else upd_group g (\<lambda>x. x\<lparr>tg_sig_pending := tg_sig_pending x OR sig_bit (nat signum)\<rparr>) s)"

definition lowest_signal :: "u32 \<Rightarrow> nat option" where
  "lowest_signal deliverable = find (\<lambda>i. deliverable AND sig_bit i \<noteq> 0) [1..<NSIG]"

definition task_group_take_process_signal :: "nat option \<Rightarrow> u32 \<Rightarrow> ('r, 'w) sched \<Rightarrow> nat \<times> ('r, 'w) sched" where
  "task_group_take_process_signal grp blocked s =
     (case grp of
        None \<Rightarrow> (0, s)
      | Some g \<Rightarrow>
          (case lowest_signal (tg_sig_pending (groups s ! g) AND NOT blocked) of
             None \<Rightarrow> (0, s)
           | Some i \<Rightarrow> (i, upd_group g (\<lambda>x. x\<lparr>tg_sig_pending := tg_sig_pending x AND NOT (sig_bit i)\<rparr>) s)))"

section \<open>Queues and states\<close>

definition sched_pick_next :: "('r, 'w) sched \<Rightarrow> nat option" where
  "sched_pick_next s =
     (let cur_idx = (case g_current s of Some i \<Rightarrow> int i | None \<Rightarrow> -1) in
      map_option (\<lambda>i. nat ((cur_idx + int i) mod int MAX_PROCS))
        (find (\<lambda>i. p_state (proc_table s ! nat ((cur_idx + int i) mod int MAX_PROCS)) = PROC_READY) [1..<MAX_PROCS + 1]))"

definition sched_find_slot :: "('r, 'w) sched \<Rightarrow> u32 \<Rightarrow> nat option" where
  "sched_find_slot s pid =
     find (\<lambda>i. p_pid (proc_table s ! i) = pid \<and> p_state (proc_table s ! i) \<noteq> PROC_UNUSED) [0..<MAX_PROCS]"

definition sched_wait_queue_init :: "wq \<Rightarrow> ('r, 'w) sched \<Rightarrow> ('r, 'w) sched" where
  "sched_wait_queue_init q s = set_queue q None None s"

definition sched_wait_queue_enqueue :: "wq \<Rightarrow> nat \<Rightarrow> ('r, 'w) sched \<Rightarrow> ('r, 'w) sched" where
  "sched_wait_queue_enqueue q proc s =
     (let s1 = upd_proc proc (\<lambda>p. p\<lparr>p_wait_next := None\<rparr>) s in
      case wq_tail (queues s1 q) of
        Some t \<Rightarrow> set_queue q (wq_head (queues s1 q)) (Some proc) (upd_proc t (\<lambda>p. p\<lparr>p_wait_next := Some proc\<rparr>) s1)
      | None \<Rightarrow> set_queue q (Some proc) (Some proc) s1)"

text \<open>
  The walk along a queue; a queue of the table has at most \<open>MAX_PROCS\<close> members, which is the fuel
  (\<open>remove_walk_chain\<close> and \<open>wake_walk_chain\<close> show that it is enough).
\<close>

fun remove_walk :: "nat \<Rightarrow> wq \<Rightarrow> nat \<Rightarrow> nat option \<Rightarrow> nat option \<Rightarrow> ('r, 'w) sched \<Rightarrow> ('r, 'w) sched" where
  "remove_walk 0 q proc prev cur s = s"
| "remove_walk (Suc n) q proc prev cur s =
     (case cur of
        None \<Rightarrow> s
      | Some c \<Rightarrow>
          if c = proc then
            (let nxt = p_wait_next (proc_table s ! c);
                 s1 = (case prev of Some p \<Rightarrow> upd_proc p (\<lambda>x. x\<lparr>p_wait_next := nxt\<rparr>) s
                       | None \<Rightarrow> set_queue q nxt (wq_tail (queues s q)) s)
             in if wq_tail (queues s1 q) = Some c then set_queue q (wq_head (queues s1 q)) prev s1 else s1)
          else remove_walk n q proc (Some c) (p_wait_next (proc_table s ! c)) s)"

definition sched_wait_queue_remove :: "wq \<Rightarrow> nat \<Rightarrow> ('r, 'w) sched \<Rightarrow> ('r, 'w) sched" where
  "sched_wait_queue_remove q proc s = remove_walk (MAX_PROCS + 1) q proc None (wq_head (queues s q)) s"

definition sched_clear_wait :: "nat \<Rightarrow> ('r, 'w) sched \<Rightarrow> ('r, 'w) sched" where
  "sched_clear_wait proc s =
     (let s1 = (case p_wait_queue (proc_table s ! proc) of Some q \<Rightarrow> sched_wait_queue_remove q proc s | None \<Rightarrow> s)
      in upd_proc proc (\<lambda>p. p\<lparr>p_wait_queue := None, p_wait_next := None, p_wait_deadline := 0, p_wait_deadline_set := False\<rparr>) s1)"

definition sched_make_ready :: "nat \<Rightarrow> ('r, 'w) sched \<Rightarrow> ('r, 'w) sched" where
  "sched_make_ready proc s =
     (let s1 = sched_clear_wait proc s in
      if p_state (proc_table s1 ! proc) = PROC_BLOCKED then upd_proc proc (\<lambda>p. p\<lparr>p_state := PROC_READY\<rparr>) s1 else s1)"

fun wake_walk :: "nat \<Rightarrow> nat option \<Rightarrow> ('r, 'w) sched \<Rightarrow> bool \<Rightarrow> bool \<times> ('r, 'w) sched" where
  "wake_walk 0 proc s woke = (woke, s)"
| "wake_walk (Suc n) proc s woke =
     (case proc of
        None \<Rightarrow> (woke, s)
      | Some i \<Rightarrow>
          (let next = p_wait_next (proc_table s ! i);
               s1 = upd_proc i (\<lambda>p. p\<lparr>p_wait_queue := None, p_wait_next := None, p_wait_deadline := 0, p_wait_deadline_set := False\<rparr>) s
           in if p_state (proc_table s1 ! i) = PROC_BLOCKED
              then wake_walk n next (upd_proc i (\<lambda>p. p\<lparr>p_state := PROC_READY\<rparr>) s1) True
              else wake_walk n next s1 woke))"

definition sched_wake_all :: "wq \<Rightarrow> ('r, 'w) sched \<Rightarrow> ('r, 'w) sched" where
  "sched_wake_all q s =
     (case wake_walk (MAX_PROCS + 1) (wq_head (queues s q)) (set_queue q None None s) False of
        (woke, s1) \<Rightarrow> if woke then s1\<lparr>g_need_switch := True\<rparr> else s1)"

text \<open>A release of files and memory, with the queues it wakes.\<close>

definition put_res :: "nat \<Rightarrow> ('r \<Rightarrow> 'w \<Rightarrow> 'r \<times> 'w \<times> nat list) \<Rightarrow> ('r, 'w) sched \<Rightarrow> ('r, 'w) sched" where
  "put_res i f s =
     (case f (p_res (proc_table s ! i)) (world s) of
        (r, w, qs) \<Rightarrow> fold (\<lambda>n. sched_wake_all (QExt n)) qs (upd_proc i (\<lambda>p. p\<lparr>p_res := r\<rparr>) (s\<lparr>world := w\<rparr>)))"

section \<open>Reaping and groups\<close>

definition sched_reap :: "('r, 'w) machine \<Rightarrow> nat \<Rightarrow> ('r, 'w) sched \<Rightarrow> ('r, 'w) sched" where
  "sched_reap M z s =
     (if p_state (proc_table s ! z) \<noteq> PROC_ZOMBIE then s
      else
        let had_resources = mc_had_resources M (p_res (proc_table s ! z));
            s1 = sched_wait_queue_init (QState z) (sched_clear_wait z s);
            s2 = put_res z (mc_put_all M) s1;
            s3 = (if had_resources then s2 else on_res z (mc_release_user_space M) s2);
            s4 = on_res z (mc_release_kstack M) s3;
            s5 = task_group_put (p_group (proc_table s4 ! z)) s4
        in upd_proc z (\<lambda>p. p\<lparr>p_group := None, p_state := PROC_UNUSED, p_pid := 0, p_tid := 0, p_tgid := 0\<rparr>) s5)"

definition sched_reap_group :: "('r, 'w) machine \<Rightarrow> nat \<Rightarrow> ('r, 'w) sched \<Rightarrow> ('r, 'w) sched" where
  "sched_reap_group M g s =
     fold (\<lambda>i s. if p_group (proc_table s ! i) = Some g \<and> p_state (proc_table s ! i) = PROC_ZOMBIE then sched_reap M i s else s)
       [0..<MAX_PROCS] s"

definition live_slot :: "('r, 'w) sched \<Rightarrow> nat \<Rightarrow> bool" where
  "live_slot s i \<longleftrightarrow> p_state (proc_table s ! i) \<noteq> PROC_UNUSED \<and> p_state (proc_table s ! i) \<noteq> PROC_ZOMBIE"

definition sched_group_has_live_slots :: "nat \<Rightarrow> ('r, 'w) sched \<Rightarrow> bool" where
  "sched_group_has_live_slots g s \<longleftrightarrow> list_ex (\<lambda>i. p_group (proc_table s ! i) = Some g \<and> live_slot s i) [0..<MAX_PROCS]"

definition sched_wake_group_waiters :: "nat \<Rightarrow> ('r, 'w) sched \<Rightarrow> ('r, 'w) sched" where
  "sched_wake_group_waiters g s =
     fold (\<lambda>i s. if p_group (proc_table s ! i) = Some g \<and> p_state (proc_table s ! i) = PROC_ZOMBIE
         then sched_wake_all (QState i) s else s)
       [0..<MAX_PROCS] (sched_wake_all (QGroup g) s)"

definition sched_find_group_member :: "('r, 'w) sched \<Rightarrow> u32 \<Rightarrow> nat option" where
  "sched_find_group_member s tgid =
     find (\<lambda>i. p_tgid (proc_table s ! i) = tgid \<and> p_state (proc_table s ! i) \<noteq> PROC_UNUSED) [0..<MAX_PROCS]"

definition sched_find_group_signal_recipient :: "('r, 'w) sched \<Rightarrow> nat \<Rightarrow> nat \<Rightarrow> nat option" where
  "sched_find_group_signal_recipient s g signum =
     find (\<lambda>i. p_group (proc_table s ! i) = Some g \<and> live_slot s i \<and>
        (p_sig_blocked (proc_table s ! i) AND sig_bit signum = 0 \<or> signum = SIGKILL)) [0..<MAX_PROCS]"

section \<open>Starting, adding and replacing tasks\<close>

definition sched_init :: "('r, 'w) sched \<Rightarrow> ('r, 'w) sched" where
  "sched_init s =
     (task_group_table_init (s\<lparr>proc_table := map (\<lambda>p. p\<lparr>p_state := PROC_UNUSED\<rparr>) (proc_table s)\<rparr>))
       \<lparr>g_current := None, g_need_switch := False, g_next_pid := 1, g_ticks := 0\<rparr>"

definition sched_bootstrap :: "('r, 'w) sched \<Rightarrow> nat option \<times> ('r, 'w) sched" where
  "sched_bootstrap s =
     (case find (\<lambda>i. p_state (proc_table s ! i) = PROC_READY) [0..<MAX_PROCS] of
        None \<Rightarrow> (None, s)
      | Some i \<Rightarrow> (Some i, (upd_proc i (\<lambda>p. p\<lparr>p_state := PROC_RUNNING\<rparr>) s)\<lparr>g_current := Some i\<rparr>))"

text \<open>
  The new task comes as a descriptor and the flag that it already has a context, as a fork gives it
  one. The descriptor's own queue of waiters is copied with it.
\<close>

definition add_fill_ids :: "u32 \<Rightarrow> 'r process \<Rightarrow> 'r process" where
  "add_fill_ids next p =
     (let p1 = p\<lparr>p_tid := next, p_pid := next\<rparr>;
          p2 = (if p_tgid p1 = 0 then p1\<lparr>p_tgid := p_tid p1\<rparr> else p1);
          p3 = (if p_pgid p2 = 0 then p2\<lparr>p_pgid := p_tgid p2\<rparr> else p2)
      in if p_sid p3 = 0 then p3\<lparr>p_sid := p_tgid p3\<rparr> else p3)"

definition add_to_group :: "'r process \<Rightarrow> ('r, 'w) sched \<Rightarrow> (nat \<times> 'r process) option \<times> ('r, 'w) sched" where
  "add_to_group p s =
     (case p_group p of
        None \<Rightarrow>
          (case task_group_create s (p_tgid p) (p_tid p) (p_parent_pid p) (p_pgid p) (p_sid p) (p_tty_id p) (of_nat SIGCHLD) of
             (None, s1) \<Rightarrow> (None, s1)
           | (Some g, s1) \<Rightarrow> (Some (g, p\<lparr>p_group := Some g\<rparr>), s1))
      | Some g \<Rightarrow>
          (let s1 = task_group_get (Some g) s in
           (Some (g, p\<lparr>p_tgid := task_group_tgid (Some g) s1, p_pgid := tg_pgid (groups s1 ! g),
                       p_sid := tg_sid (groups s1 ! g), p_tty_id := tg_tty_id (groups s1 ! g)\<rparr>), s1)))"

definition sched_add ::
  "('r, 'w) machine \<Rightarrow> 'r process \<Rightarrow> wait_queue \<Rightarrow> bool \<Rightarrow> ('r, 'w) sched \<Rightarrow> u32 option \<times> ('r, 'w) sched" where
  "sched_add M proc waiters has_context s =
     (case find (\<lambda>i. p_state (proc_table s ! i) = PROC_UNUSED) [0..<MAX_PROCS] of
        None \<Rightarrow> (None, s)
      | Some i \<Rightarrow>
          (case add_to_group (add_fill_ids (g_next_pid s) proc) (s\<lparr>g_next_pid := g_next_pid s + 1\<rparr>) of
             (None, s1) \<Rightarrow> (None, s1)
           | (Some (g, p), s1) \<Rightarrow>
               (let s2 = task_group_add_task (Some g) s1;
                    s3 = set_queue (QState i) (wq_head waiters) (wq_tail waiters) (upd_proc i (\<lambda>_. p\<lparr>p_state := PROC_READY\<rparr>) s2);
                    s4 = (if has_context then s3 else on_res i (mc_build_frame M) s3)
                in (Some (p_pid (proc_table s4 ! i)), s4))))"

definition sched_peek_next_tid :: "('r, 'w) sched \<Rightarrow> u32" where
  "sched_peek_next_tid s = g_next_pid s"

definition zero_process :: "'r \<Rightarrow> 'r process" where
  "zero_process r = \<lparr>p_res = r, p_tid = 0, p_tgid = 0, p_group = None, p_pid = 0, p_state = PROC_UNUSED, p_wait_queue = None,
     p_wait_next = None, p_wait_deadline = 0, p_wait_deadline_set = False, p_pgid = 0, p_sid = 0, p_tty_id = 0,
     p_parent_pid = 0, p_exit_status = 0, p_clear_child_tid = 0, p_sig_pending = 0, p_sig_blocked = 0,
     p_sig_handlers = replicate NSIG 0, p_crash_valid = False, p_crash_signum = 0, p_crash_addr = 0\<rparr>"

definition sched_force_remove_task :: "('r, 'w) machine \<Rightarrow> u32 \<Rightarrow> ('r, 'w) sched \<Rightarrow> bool \<times> ('r, 'w) sched" where
  "sched_force_remove_task M tid s =
     (case sched_find_slot s tid of
        None \<Rightarrow> (False, s)
      | Some i \<Rightarrow>
          if p_state (proc_table s ! i) \<noteq> PROC_READY then (False, s)
          else let s1 = put_res i (mc_put_all M) (sched_clear_wait i s);
                   s2 = on_res i (mc_release_kstack M) s1;
                   grp = p_group (proc_table s2 ! i);
                   s3 = task_group_put grp (task_group_remove_task grp s2)
               in (True, set_queue (QState i) None None (upd_proc i (\<lambda>_. zero_process (mc_zero M)) s3)))"

definition sched_current :: "('r, 'w) sched \<Rightarrow> nat option" where
  "sched_current s = g_current s"

definition sched_current_pid :: "('r, 'w) sched \<Rightarrow> u32" where
  "sched_current_pid s = (case g_current s of Some c \<Rightarrow> p_pid (proc_table s ! c) | None \<Rightarrow> 0)"

definition sched_current_tid :: "('r, 'w) sched \<Rightarrow> u32" where
  "sched_current_tid s = (case g_current s of Some c \<Rightarrow> p_tid (proc_table s ! c) | None \<Rightarrow> 0)"

definition sched_current_tgid :: "('r, 'w) sched \<Rightarrow> u32" where
  "sched_current_tgid s = (case g_current s of Some c \<Rightarrow> p_tgid (proc_table s ! c) | None \<Rightarrow> 0)"

definition sched_current_group :: "('r, 'w) sched \<Rightarrow> nat option" where
  "sched_current_group s = (case g_current s of Some c \<Rightarrow> p_group (proc_table s ! c) | None \<Rightarrow> None)"

definition sched_current_ppid :: "('r, 'w) sched \<Rightarrow> u32" where
  "sched_current_ppid s = (case g_current s of Some c \<Rightarrow> p_parent_pid (proc_table s ! c) | None \<Rightarrow> 0)"

definition sched_exec_current ::
  "('r, 'w) machine \<Rightarrow> 'r process \<Rightarrow> wait_queue \<Rightarrow> ('w \<Rightarrow> 'w) \<Rightarrow> ('r, 'w) sched \<Rightarrow> ('r, 'w) sched" where
  "sched_exec_current M replacement waiters free s =
     (case g_current s of
        None \<Rightarrow> s
      | Some c \<Rightarrow>
          (let old = proc_table s ! c;
               s1 = set_queue (QState c) (wq_head waiters) (wq_tail waiters)
                      (upd_proc c (\<lambda>_. replacement\<lparr>p_tid := p_tid old, p_tgid := p_tgid old, p_pid := p_pid old,
                         p_group := p_group old, p_state := PROC_RUNNING\<rparr>) s);
               s2 = s1\<lparr>world := free (world s1)\<rparr>
           in s2\<lparr>world := mc_prepare M (p_res (proc_table s2 ! c)) (world s2)\<rparr>))"

section \<open>The display\<close>

definition console_runtime_claim_display :: "u32 \<Rightarrow> ('r, 'w) sched \<Rightarrow> bool \<times> ('r, 'w) sched" where
  "console_runtime_claim_display owner_pid s =
     (if owner_pid = 0 \<or> g_display_owner_pid s \<noteq> 0 \<and> g_display_owner_pid s \<noteq> owner_pid then (False, s)
      else (True, s\<lparr>g_display_owner_pid := owner_pid\<rparr>))"

definition console_runtime_release_display :: "u32 \<Rightarrow> ('r, 'w) sched \<Rightarrow> bool \<times> ('r, 'w) sched" where
  "console_runtime_release_display owner_pid s =
     (if owner_pid = 0 \<or> g_display_owner_pid s \<noteq> owner_pid then (False, s) else (True, s\<lparr>g_display_owner_pid := 0\<rparr>))"

definition console_runtime_release_process :: "u32 \<Rightarrow> ('r, 'w) sched \<Rightarrow> ('r, 'w) sched" where
  "console_runtime_release_process pid s = (if pid = g_display_owner_pid s then s\<lparr>g_display_owner_pid := 0\<rparr> else s)"

definition console_runtime_display_claimed :: "('r, 'w) sched \<Rightarrow> bool" where
  "console_runtime_display_claimed s \<longleftrightarrow> g_display_owner_pid s \<noteq> 0"

definition console_runtime_visible_console_enabled :: "('r, 'w) sched \<Rightarrow> bool" where
  "console_runtime_visible_console_enabled s \<longleftrightarrow> g_display_owner_pid s = 0"

definition console_runtime_clear :: "('r, 'w) sched \<Rightarrow> int" where
  "console_runtime_clear s = (if console_runtime_visible_console_enabled s then 0 else 1)"

definition console_runtime_scroll :: "int \<Rightarrow> ('r, 'w) sched \<Rightarrow> int" where
  "console_runtime_scroll rows s = (if console_runtime_visible_console_enabled s then 0 else 1)"

definition console_runtime_legacy_input_enabled :: "('r, 'w) sched \<Rightarrow> bool" where
  "console_runtime_legacy_input_enabled s \<longleftrightarrow> g_display_owner_pid s = 0"

text \<open>Text goes to the console of the machine, a parameter, while nobody owns the display.\<close>

definition console_runtime_write_feedback ::
  "(u8 list \<Rightarrow> 'w \<Rightarrow> 'w) \<Rightarrow> u8 list \<Rightarrow> ('r, 'w) sched \<Rightarrow> nat \<times> ('r, 'w) sched" where
  "console_runtime_write_feedback arch_console_write buf s =
     (length buf, if console_runtime_visible_console_enabled s then s\<lparr>world := arch_console_write buf (world s)\<rparr> else s)"

definition console_runtime_write_kernel_output ::
  "(u8 list \<Rightarrow> 'w \<Rightarrow> 'w) \<Rightarrow> u8 list \<Rightarrow> ('r, 'w) sched \<Rightarrow> nat \<times> ('r, 'w) sched" where
  "console_runtime_write_kernel_output arch_console_write buf s =
     (length buf, if console_runtime_visible_console_enabled s then s\<lparr>world := arch_console_write buf (world s)\<rparr> else s)"

definition console_runtime_write_process_output ::
  "(u8 list \<Rightarrow> 'w \<Rightarrow> 'w) \<Rightarrow> nat \<Rightarrow> u8 list \<Rightarrow> ('r, 'w) sched \<Rightarrow> nat \<times> ('r, 'w) sched" where
  "console_runtime_write_process_output arch_console_write proc buf s =
     (length buf, if console_runtime_visible_console_enabled s then s\<lparr>world := arch_console_write buf (world s)\<rparr> else s)"

section \<open>Exit, stop and wait\<close>

definition sched_set_exit_status :: "u32 \<Rightarrow> ('r, 'w) sched \<Rightarrow> ('r, 'w) sched" where
  "sched_set_exit_status status s =
     (case g_current s of
        None \<Rightarrow> s
      | Some c \<Rightarrow> upd_proc c (\<lambda>p. p\<lparr>p_exit_status := push_bit 8 (status AND 0xFF)\<rparr>) s)"

definition sched_mark_exit :: "('r, 'w) machine \<Rightarrow> ('r, 'w) sched \<Rightarrow> ('r, 'w) sched" where
  "sched_mark_exit M s =
     (case g_current s of
        None \<Rightarrow> s
      | Some c \<Rightarrow>
          (let grp = p_group (proc_table s ! c);
               s1 = (case grp of
                  Some g \<Rightarrow> (if tg_group_exit (groups s ! g)
                    then upd_proc c (\<lambda>p. p\<lparr>p_exit_status := tg_exit_status (groups s ! g)\<rparr>) s else s)
                | None \<Rightarrow> s);
               tidptr = p_clear_child_tid (proc_table s1 ! c);
               s2 = (if tidptr \<noteq> 0 then on_res c (\<lambda>r. mc_clear_tid M r tidptr) s1 else s1);
               s3 = console_runtime_release_process (p_pid (proc_table s2 ! c)) s2;
               s4 = task_group_remove_task grp (put_res c (mc_put_files M) s3);
               s5 = (case grp of
                  Some g \<Rightarrow>
                    (if task_group_live_count grp s4 = 0
                     then sched_wake_group_waiters g
                       (if tg_group_exit (groups s4 ! g) then s4
                        else upd_group g (\<lambda>x. x\<lparr>tg_exit_status := p_exit_status (proc_table s4 ! c)\<rparr>) s4)
                     else s4)
                | None \<Rightarrow> s4);
               s6 = upd_proc c (\<lambda>p. p\<lparr>p_state := PROC_ZOMBIE\<rparr>) s5
           in if grp = None \<or> task_group_live_count grp s6 = 0 then sched_wake_all (QState c) s6 else s6))"

definition sched_mark_group_exit :: "('r, 'w) machine \<Rightarrow> u32 \<Rightarrow> ('r, 'w) sched \<Rightarrow> ('r, 'w) sched" where
  "sched_mark_group_exit M status s =
     (case g_current s of
        None \<Rightarrow> s
      | Some c \<Rightarrow>
          (case p_group (proc_table s ! c) of
             None \<Rightarrow> s
           | Some g \<Rightarrow>
               (let s1 = upd_group g (\<lambda>x. x\<lparr>tg_group_exit := True, tg_exit_status := push_bit 8 (status AND 0xFF)\<rparr>) s;
                    s2 = fold (\<lambda>i s. if live_slot s i \<and> p_group (proc_table s ! i) = Some g \<and> i \<noteq> c
                            then upd_proc i (\<lambda>p. p\<lparr>p_state := PROC_READY\<rparr>) (sched_clear_wait i s) else s) [0..<MAX_PROCS] s1
                in sched_mark_exit M s2)))"

definition sched_mark_signaled :: "('r, 'w) machine \<Rightarrow> nat \<Rightarrow> bool \<Rightarrow> ('r, 'w) sched \<Rightarrow> ('r, 'w) sched" where
  "sched_mark_signaled M sig dumped_core s =
     (case g_current s of
        None \<Rightarrow> s
      | Some c \<Rightarrow>
          sched_mark_exit M (upd_proc c (\<lambda>p. p\<lparr>p_exit_status :=
            (of_nat sig AND 0x7F) OR (if dumped_core then 0x80 else 0)\<rparr>) s))"

text \<open>The group or the task a signal to \<open>pid\<close> goes to.\<close>

definition signal_target :: "('r, 'w) sched \<Rightarrow> u32 \<Rightarrow> nat option \<times> nat option" where
  "signal_target s pid =
     (let (grp, rcp) =
        (case find (\<lambda>i. p_pid (proc_table s ! i) = pid \<and> live_slot s i) [0..<MAX_PROCS] of
           Some i \<Rightarrow> if p_tgid (proc_table s ! i) = pid then (p_group (proc_table s ! i), None) else (None, Some i)
         | None \<Rightarrow> (None, None))
      in if grp = None \<and> rcp = None
         then (case sched_find_group_member s pid of
                 Some i \<Rightarrow> (p_group (proc_table s ! i), Some i) | None \<Rightarrow> (None, None))
         else (grp, rcp))"

text \<open>What happens at the recipient of a signal.\<close>

definition signal_recipient :: "nat \<Rightarrow> bool \<Rightarrow> nat \<Rightarrow> ('r, 'w) sched \<Rightarrow> ('r, 'w) sched" where
  "signal_recipient n grouped r s =
     (let s2 = (if n = SIGCONT
            then upd_proc r (\<lambda>p. p\<lparr>p_sig_pending := p_sig_pending p AND NOT (sig_bit SIGSTOP OR sig_bit SIGTSTP),
                   p_state := (if p_state p = PROC_STOPPED then PROC_READY else p_state p)\<rparr>) s else s);
          s3 = (if n = SIGSTOP \<or> n = SIGTSTP
            then upd_proc r (\<lambda>p. p\<lparr>p_sig_pending := p_sig_pending p AND NOT (sig_bit SIGCONT)\<rparr>) s2 else s2);
          s4 = (if \<not> grouped then upd_proc r (\<lambda>p. p\<lparr>p_sig_pending := p_sig_pending p OR sig_bit n\<rparr>) s3 else s3);
          st = p_state (proc_table s4 ! r);
          s5 = (if st = PROC_STOPPED \<and> n \<noteq> SIGCONT
                then upd_proc r (\<lambda>p. p\<lparr>p_state := (if n = SIGKILL then PROC_READY else PROC_STOPPED)\<rparr>) s4
                else if st = PROC_BLOCKED then sched_make_ready r s4 else s4)
      in s5\<lparr>g_need_switch := True\<rparr>)"

definition sched_send_signal :: "u32 \<Rightarrow> int \<Rightarrow> ('r, 'w) sched \<Rightarrow> ('r, 'w) sched" where
  "sched_send_signal pid signum s =
     (if signum < 1 \<or> signum \<ge> int NSIG then s
      else
        let n = nat signum;
            (grp, rcp) = signal_target s pid;
            s1 = task_group_set_process_signal grp signum s;
            rcp = (case grp of Some g \<Rightarrow> sched_find_group_signal_recipient s1 g n | None \<Rightarrow> rcp)
        in case rcp of
             None \<Rightarrow> s1
           | Some r \<Rightarrow> signal_recipient n (grp \<noteq> None) r s1)"

definition sched_send_signal_to_pgid :: "u32 \<Rightarrow> int \<Rightarrow> ('r, 'w) sched \<Rightarrow> ('r, 'w) sched" where
  "sched_send_signal_to_pgid pgid signum s =
     (if signum < 1 \<or> signum \<ge> int NSIG \<or> pgid = 0 then s
      else fold (\<lambda>i s. if p_pgid (proc_table s ! i) = pgid \<and> live_slot s i
             then sched_send_signal (p_pid (proc_table s ! i)) signum s else s) [0..<MAX_PROCS] s)"

definition sched_mark_stopped :: "nat \<Rightarrow> ('r, 'w) sched \<Rightarrow> ('r, 'w) sched" where
  "sched_mark_stopped sig s =
     (case g_current s of
        None \<Rightarrow> s
      | Some c \<Rightarrow>
          (let s1 = upd_proc c (\<lambda>p. p\<lparr>p_state := PROC_STOPPED, p_exit_status := push_bit 8 (of_nat sig AND 0xFF) OR 0x7F\<rparr>) s;
               ppid = p_parent_pid (proc_table s1 ! c);
               s2 = (if ppid \<noteq> 0 then sched_send_signal ppid (int SIGCHLD) s1 else s1)
           in sched_wake_all (QState c) s2))"

text \<open>\<open>sched_block\<close> and \<open>sched_block_until\<close> up to their call of \<open>schedule\<close>.\<close>

definition sched_block :: "wq option \<Rightarrow> ('r, 'w) sched \<Rightarrow> ('r, 'w) sched" where
  "sched_block queue s =
     (case g_current s of
        None \<Rightarrow> s
      | Some c \<Rightarrow>
          (let s1 = sched_clear_wait c s;
               s2 = (case queue of
                  Some q \<Rightarrow> upd_proc c (\<lambda>p. p\<lparr>p_wait_queue := Some q\<rparr>) (sched_wait_queue_enqueue q c s1)
                | None \<Rightarrow> s1)
           in upd_proc c (\<lambda>p. p\<lparr>p_state := PROC_BLOCKED\<rparr>) s2))"

definition sched_block_until :: "u32 \<Rightarrow> ('r, 'w) sched \<Rightarrow> ('r, 'w) sched" where
  "sched_block_until deadline_tick s =
     (case g_current s of
        None \<Rightarrow> s
      | Some c \<Rightarrow>
          upd_proc c (\<lambda>p. p\<lparr>p_wait_deadline := deadline_tick, p_wait_deadline_set := True, p_state := PROC_BLOCKED\<rparr>)
            (sched_clear_wait c s))"

definition WNOHANG :: u32 where "WNOHANG = 1"
definition WUNTRACED :: u32 where "WUNTRACED = 2"

text \<open>
  One round of the loop of \<open>sched_waitpid\<close>: it returns, or the caller is put to sleep and runs
  the round again when it is scheduled next.
\<close>

datatype wait_result = WaitReturn "u32 option" | WaitAgain

definition sched_waitpid :: "('r, 'w) machine \<Rightarrow> u32 \<Rightarrow> u32 \<Rightarrow> ('r, 'w) sched \<Rightarrow> wait_result \<times> ('r, 'w) sched" where
  "sched_waitpid M pid options s =
     (case (case sched_find_slot s pid of Some i \<Rightarrow> Some i | None \<Rightarrow> sched_find_group_member s pid) of
        None \<Rightarrow> (WaitReturn None, s)
      | Some target \<Rightarrow>
          (let p = proc_table s ! target; grp = p_group p in
           if p_tgid p \<noteq> p_tid p then (WaitReturn None, s)
           else if p_state p = PROC_ZOMBIE \<and> (case grp of None \<Rightarrow> True | Some g \<Rightarrow> \<not> sched_group_has_live_slots g s) then
             (let status = (case grp of
                    Some g \<Rightarrow> if tg_group_exit (groups s ! g) then tg_exit_status (groups s ! g) else p_exit_status p
                  | None \<Rightarrow> p_exit_status p)
              in (WaitReturn (Some status), case grp of Some g \<Rightarrow> sched_reap_group M g s | None \<Rightarrow> sched_reap M target s))
           else if options AND WUNTRACED \<noteq> 0 \<and> p_state p = PROC_STOPPED then (WaitReturn (Some (p_exit_status p)), s)
           else if options AND WNOHANG \<noteq> 0 then (WaitReturn (Some 0), s)
           else (WaitAgain, sched_block (Some (case grp of Some g \<Rightarrow> QGroup g | None \<Rightarrow> QState target)) s)))"

definition sched_wait :: "('r, 'w) machine \<Rightarrow> u32 \<Rightarrow> ('r, 'w) sched \<Rightarrow> wait_result \<times> ('r, 'w) sched" where
  "sched_wait M pid s = sched_waitpid M pid 0 s"

section \<open>The clock and the switch\<close>

definition sched_tick :: "('r, 'w) sched \<Rightarrow> ('r, 'w) sched" where
  "sched_tick s =
     (let s1 = s\<lparr>g_ticks := g_ticks s + 1\<rparr>;
          s2 = fold (\<lambda>i s. if p_state (proc_table s ! i) = PROC_BLOCKED \<and> p_wait_deadline_set (proc_table s ! i) \<and>
                   sint (g_ticks s - p_wait_deadline (proc_table s ! i)) \<ge> 0
                 then sched_make_ready i s else s) [0..<MAX_PROCS] s1
      in s2\<lparr>g_need_switch := True\<rparr>)"

definition sched_ticks :: "('r, 'w) sched \<Rightarrow> u32" where
  "sched_ticks s = g_ticks s"

text \<open>What a call of \<open>schedule\<close> does: it comes back at once, or another task goes on.\<close>

datatype sched_result = Stay | SwitchTo nat

definition switch_to :: "('r, 'w) machine \<Rightarrow> nat \<Rightarrow> ('r, 'w) sched \<Rightarrow> sched_result \<times> ('r, 'w) sched" where
  "switch_to M next s =
     (if g_current s = Some next then (Stay, upd_proc next (\<lambda>p. p\<lparr>p_state := PROC_RUNNING\<rparr>) s)
      else
        let s1 = (case g_current s of
               Some prev \<Rightarrow> if p_state (proc_table s ! prev) \<noteq> PROC_ZOMBIE then on_res prev (mc_fpu_save M) s else s
             | None \<Rightarrow> s);
            s2 = (case g_current s of
               Some prev \<Rightarrow> if p_state (proc_table s1 ! prev) = PROC_RUNNING
                 then upd_proc prev (\<lambda>p. p\<lparr>p_state := PROC_READY\<rparr>) s1 else s1
             | None \<Rightarrow> s1);
            s3 = upd_proc next (\<lambda>p. p\<lparr>p_state := PROC_RUNNING\<rparr>) (s2\<lparr>g_current := Some next\<rparr>)
        in (SwitchTo next, s3\<lparr>world := mc_prepare M (p_res (proc_table s3 ! next)) (world s3)\<rparr>))"

text \<open>
  Idling runs one interrupt handler of the given sequence after the other until a task is ready;
  \<open>None\<close> means that none of them made one ready.
\<close>

fun idle_loop :: "('r, 'w) machine \<Rightarrow> (('r, 'w) sched \<Rightarrow> ('r, 'w) sched) list \<Rightarrow> ('r, 'w) sched \<Rightarrow> (sched_result \<times> ('r, 'w) sched) option" where
  "idle_loop M [] s = None"
| "idle_loop M (irq # irqs) s =
     (let s1 = irq s in case sched_pick_next s1 of Some next \<Rightarrow> Some (switch_to M next s1) | None \<Rightarrow> idle_loop M irqs s1)"

definition schedule ::
  "('r, 'w) machine \<Rightarrow> (('r, 'w) sched \<Rightarrow> ('r, 'w) sched) list \<Rightarrow> ('r, 'w) sched \<Rightarrow> (sched_result \<times> ('r, 'w) sched) option" where
  "schedule M irqs s =
     (case sched_pick_next s of
        Some next \<Rightarrow> Some (switch_to M next s)
      | None \<Rightarrow>
          (case g_current s of
             Some prev \<Rightarrow> if p_state (proc_table s ! prev) \<noteq> PROC_RUNNING then idle_loop M irqs s else Some (Stay, s)
           | None \<Rightarrow> Some (Stay, s)))"

definition schedule_if_needed ::
  "('r, 'w) machine \<Rightarrow> (('r, 'w) sched \<Rightarrow> ('r, 'w) sched) list \<Rightarrow> ('r, 'w) sched \<Rightarrow> (sched_result \<times> ('r, 'w) sched) option" where
  "schedule_if_needed M irqs s =
     (if \<not> g_need_switch s then Some (Stay, s)
      else let s1 = s\<lparr>g_need_switch := False\<rparr> in
        if \<not> mc_user_frame M (world s1) then Some (Stay, s1) else schedule M irqs s1)"

section \<open>Looking up\<close>

definition sched_find_process :: "('r, 'w) sched \<Rightarrow> u32 \<Rightarrow> bool \<Rightarrow> nat option" where
  "sched_find_process s pid include_zombie =
     (case sched_find_slot s pid of
        None \<Rightarrow> None
      | Some i \<Rightarrow> if \<not> include_zombie \<and> p_state (proc_table s ! i) = PROC_ZOMBIE then None else Some i)"

definition sched_find_pid :: "('r, 'w) sched \<Rightarrow> u32 \<Rightarrow> nat option" where
  "sched_find_pid s pid = sched_find_process s pid False"

definition shown_slot :: "('r, 'w) sched \<Rightarrow> bool \<Rightarrow> nat \<Rightarrow> bool" where
  "shown_slot s include_zombie i \<longleftrightarrow>
     p_state (proc_table s ! i) \<noteq> PROC_UNUSED \<and> (include_zombie \<or> p_state (proc_table s ! i) \<noteq> PROC_ZOMBIE)"

definition sched_snapshot_pids :: "('r, 'w) sched \<Rightarrow> nat \<Rightarrow> bool \<Rightarrow> u32 list" where
  "sched_snapshot_pids s max_pids include_zombie =
     fold (\<lambda>i out. if length out < max_pids \<and> shown_slot s include_zombie i then out @ [p_pid (proc_table s ! i)] else out)
       [0..<MAX_PROCS] []"

definition sched_snapshot_tgids :: "('r, 'w) sched \<Rightarrow> nat \<Rightarrow> bool \<Rightarrow> u32 list" where
  "sched_snapshot_tgids s max_tgids include_zombie =
     fold (\<lambda>i out. if length out < max_tgids \<and> shown_slot s include_zombie i \<and> p_tgid (proc_table s ! i) \<noteq> 0 \<and>
             \<not> list_ex (\<lambda>t. t = p_tgid (proc_table s ! i)) out
           then out @ [p_tgid (proc_table s ! i)] else out)
       [0..<MAX_PROCS] []"

definition sched_find_group :: "('r, 'w) sched \<Rightarrow> u32 \<Rightarrow> bool \<Rightarrow> nat option" where
  "sched_find_group s tgid include_zombie =
     (if tgid = 0 then None
      else case find (\<lambda>i. p_tgid (proc_table s ! i) = tgid \<and> shown_slot s include_zombie i) [0..<MAX_PROCS] of
        None \<Rightarrow> None | Some i \<Rightarrow> p_group (proc_table s ! i))"

definition sched_session_has_pgid :: "('r, 'w) sched \<Rightarrow> u32 \<Rightarrow> u32 \<Rightarrow> bool" where
  "sched_session_has_pgid s sid pgid \<longleftrightarrow>
     sid \<noteq> 0 \<and> pgid \<noteq> 0 \<and>
     list_ex (\<lambda>i. p_pgid (proc_table s ! i) = pgid \<and> p_sid (proc_table s ! i) = sid \<and> live_slot s i) [0..<MAX_PROCS]"

section \<open>Delivering signals\<close>

definition sched_process_has_unblocked_signal :: "('r, 'w) sched \<Rightarrow> nat \<Rightarrow> bool" where
  "sched_process_has_unblocked_signal s i =
     (let p = proc_table s ! i; blocked = p_sig_blocked p in
      if p_sig_pending p AND NOT blocked \<noteq> 0 then True
      else case p_group p of Some g \<Rightarrow> tg_sig_pending (groups s ! g) AND NOT blocked \<noteq> 0 | None \<Rightarrow> False)"

definition sched_record_user_fault :: "('r, 'w) machine \<Rightarrow> u64 \<Rightarrow> int \<Rightarrow> ('r, 'w) sched \<Rightarrow> ('r, 'w) sched" where
  "sched_record_user_fault M fault_addr signum s =
     (case g_current s of
        None \<Rightarrow> s
      | Some c \<Rightarrow>
          if signum < 1 \<or> signum \<ge> int NSIG then s
          else upd_proc c (\<lambda>p. p\<lparr>p_crash_valid := True, p_crash_signum := of_int signum, p_crash_addr := fault_addr,
                 p_res := mc_crash_frame M (world s) (p_res p),
                 p_sig_pending := p_sig_pending p OR sig_bit (nat signum),
                 p_sig_blocked := p_sig_blocked p AND NOT (sig_bit (nat signum))\<rparr>) s)"

definition is_fatal_default :: "nat \<Rightarrow> bool" where
  "is_fatal_default sig \<longleftrightarrow> sig \<noteq> SIGCHLD \<and> sig \<noteq> SIGSTOP \<and> sig \<noteq> SIGTSTP \<and> sig \<noteq> SIGCONT"

definition dumps_core_default :: "nat \<Rightarrow> bool" where
  "dumps_core_default sig \<longleftrightarrow> sig = SIGTRAP \<or> sig = SIGILL \<or> sig = SIGFPE \<or> sig = SIGSEGV"

definition sched_signal_handler :: "('r, 'w) machine \<Rightarrow> ('r, 'w) sched \<Rightarrow> nat \<Rightarrow> nat \<Rightarrow> u32" where
  "sched_signal_handler M s i signum =
     (if signum \<ge> NSIG then SIG_DFL
      else case mc_actions M (world s) (p_res (proc_table s ! i)) of
        Some handlers \<Rightarrow> handlers ! signum
      | None \<Rightarrow> p_sig_handlers (proc_table s ! i) ! signum)"

text \<open>The signal a task takes next, and whether it comes from its group.\<close>

definition next_signal :: "nat \<Rightarrow> ('r, 'w) sched \<Rightarrow> (nat \<times> bool) option \<times> ('r, 'w) sched" where
  "next_signal c s =
     (let p = proc_table s ! c;
          deliverable = p_sig_pending p AND NOT (p_sig_blocked p);
          own = (if p_crash_valid p \<and> p_crash_signum p < of_nat NSIG \<and> deliverable AND sig_bit (unat (p_crash_signum p)) \<noteq> 0
                 then Some (unat (p_crash_signum p)) else lowest_signal deliverable)
      in case own of
           Some n \<Rightarrow> (Some (n, False), upd_proc c (\<lambda>p. p\<lparr>p_sig_pending := p_sig_pending p AND NOT (sig_bit n)\<rparr>) s)
         | None \<Rightarrow>
             (case task_group_take_process_signal (p_group p) (p_sig_blocked p) s of
                (n, s1) \<Rightarrow> (if n \<noteq> 0 then Some (n, True) else None, s1)))"

text \<open>
  What \<open>sched_signal_check\<close> ends with: it goes back to the interrupted code, enters a handler, or
  the task has stopped or exited and \<open>schedule\<close> is called.
\<close>

datatype signal_result = SigReturn | SigEnter nat u32 | SigStop nat | SigKill nat | SigGroupExit

definition clear_crash :: "nat \<Rightarrow> bool \<Rightarrow> ('r, 'w) sched \<Rightarrow> ('r, 'w) sched" where
  "clear_crash c from_crash s = (if from_crash then upd_proc c (\<lambda>p. p\<lparr>p_crash_valid := False\<rparr>) s else s)"

definition enter_handler :: "('r, 'w) machine \<Rightarrow> nat \<Rightarrow> nat \<Rightarrow> u32 \<Rightarrow> ('r, 'w) sched \<Rightarrow> signal_result \<times> ('r, 'w) sched" where
  "enter_handler M c signum handler s =
     (case mc_setup_frame M (p_res (proc_table s ! c)) signum handler (world s) of
        (True, w) \<Rightarrow> (SigEnter signum handler, s\<lparr>world := w\<rparr>)
      | (False, w) \<Rightarrow> (SigKill SIGSEGV, sched_mark_signaled M SIGSEGV False (s\<lparr>world := w\<rparr>)))"

definition deliver_signal :: "('r, 'w) machine \<Rightarrow> nat \<Rightarrow> nat \<Rightarrow> ('r, 'w) sched \<Rightarrow> signal_result \<times> ('r, 'w) sched" where
  "deliver_signal M c signum s =
     (let p = proc_table s ! c;
          from_crash = (p_crash_valid p \<and> p_crash_signum p = of_nat signum);
          h = sched_signal_handler M s c signum;
          handler = (if from_crash \<and> h = SIG_IGN then SIG_DFL else h)
      in if signum = SIGSTOP then (SigStop SIGSTOP, sched_mark_stopped SIGSTOP s)
         else if signum = SIGTSTP \<and> handler = SIG_DFL then (SigStop SIGTSTP, sched_mark_stopped SIGTSTP s)
         else if signum = SIGCONT then (if handler > SIG_IGN then enter_handler M c signum handler s else (SigReturn, s))
         else if handler = SIG_IGN then (SigReturn, clear_crash c from_crash s)
         else if handler = SIG_DFL then
           (if is_fatal_default signum then
              (case (if from_crash \<and> dumps_core_default signum then mc_core_dump M (p_res p) signum (world s) else (False, world s)) of
                 (dumped_core, w) \<Rightarrow>
                   (SigKill signum, sched_mark_signaled M signum dumped_core (clear_crash c from_crash (s\<lparr>world := w\<rparr>))))
            else (SigReturn, clear_crash c from_crash s))
         else enter_handler M c signum handler (clear_crash c from_crash s))"

definition sched_signal_check :: "('r, 'w) machine \<Rightarrow> ('r, 'w) sched \<Rightarrow> signal_result \<times> ('r, 'w) sched" where
  "sched_signal_check M s =
     (case g_current s of
        None \<Rightarrow> (SigReturn, s)
      | Some c \<Rightarrow>
          (let s1 = s\<lparr>world := mc_sanitize M (p_res (proc_table s ! c)) (world s)\<rparr> in
           if \<not> mc_user_frame M (world s1) then (SigReturn, s1)
           else if (case p_group (proc_table s1 ! c) of Some g \<Rightarrow> tg_group_exit (groups s1 ! g) | None \<Rightarrow> False)
             then (SigGroupExit, sched_mark_exit M s1)
           else case next_signal c s1 of
             (None, s2) \<Rightarrow> (SigReturn, s2)
           | (Some (signum, _), s2) \<Rightarrow> deliver_signal M c signum s2))"

end
