(* ===== verification/Sched_Inv.thy ===== *)
theory Sched_Inv
  imports Sched
begin

text \<open>
  The wait queues and the bookkeeping of the scheduler: what the queue operations do to the chains of
  sleepers, and the invariant that ties states, queues, task groups and process ids together.
\<close>

section \<open>Projections\<close>

lemma upd_proc_sel [simp]:
  "groups (upd_proc i f s) = groups s" "queues (upd_proc i f s) = queues s" "g_current (upd_proc i f s) = g_current s"
  "g_need_switch (upd_proc i f s) = g_need_switch s" "g_next_pid (upd_proc i f s) = g_next_pid s"
  "g_ticks (upd_proc i f s) = g_ticks s" "g_display_owner_pid (upd_proc i f s) = g_display_owner_pid s"
  "world (upd_proc i f s) = world s" "length (proc_table (upd_proc i f s)) = length (proc_table s)"
  by (simp_all add: upd_proc_def)

lemma upd_group_sel [simp]:
  "proc_table (upd_group g h s) = proc_table s" "queues (upd_group g h s) = queues s" "g_current (upd_group g h s) = g_current s"
  "g_need_switch (upd_group g h s) = g_need_switch s" "g_next_pid (upd_group g h s) = g_next_pid s"
  "g_ticks (upd_group g h s) = g_ticks s" "g_display_owner_pid (upd_group g h s) = g_display_owner_pid s"
  "world (upd_group g h s) = world s" "length (groups (upd_group g h s)) = length (groups s)"
  by (simp_all add: upd_group_def)

lemma set_queue_sel [simp]:
  "proc_table (set_queue q h t s) = proc_table s" "groups (set_queue q h t s) = groups s"
  "g_current (set_queue q h t s) = g_current s" "g_need_switch (set_queue q h t s) = g_need_switch s"
  "g_next_pid (set_queue q h t s) = g_next_pid s" "g_ticks (set_queue q h t s) = g_ticks s"
  "g_display_owner_pid (set_queue q h t s) = g_display_owner_pid s" "world (set_queue q h t s) = world s"
  "queues (set_queue q h t s) = (queues s)(q := \<lparr>wq_head = h, wq_tail = t\<rparr>)"
  by (simp_all add: set_queue_def)

lemma proc_upd_proc:
  "proc_table (upd_proc i f s) ! k = (if k = i \<and> i < length (proc_table s) then f (proc_table s ! i) else proc_table s ! k)"
  by (simp add: upd_proc_def nth_upd)

lemma group_upd_group:
  "groups (upd_group g f s) ! k = (if k = g \<and> g < length (groups s) then f (groups s ! g) else groups s ! k)"
  by (simp add: upd_group_def nth_upd)

section \<open>Chains of sleepers\<close>

text \<open>The links \<open>N\<close> along \<open>xs\<close> up to the successor \<open>n\<close>.\<close>

fun links :: "(nat \<Rightarrow> nat option) \<Rightarrow> nat list \<Rightarrow> nat option \<Rightarrow> bool" where
  "links N [] n \<longleftrightarrow> True"
| "links N (x # xs) n \<longleftrightarrow> N x = first_of xs n \<and> links N xs n"

lemma links_append [simp]: "links N (xs @ ys) n \<longleftrightarrow> links N xs (first_of ys n) \<and> links N ys n"
  by (induction xs) auto

lemma links_cong: "(\<And>x. x \<in> set xs \<Longrightarrow> N x = N' x) \<Longrightarrow> links N xs n = links N' xs n"
  by (induction xs) auto

lemma links_fun_upd [simp]: "x \<notin> set xs \<Longrightarrow> links (N(x := m)) xs n = links N xs n"
  by (rule links_cong) auto

lemma links_last: "links N (xs @ [x]) n \<Longrightarrow> x \<notin> set xs \<Longrightarrow> links (N(x := m)) (xs @ [x]) m"
  by (auto simp: links_fun_upd)

definition nexts :: "('r, 'w) sched \<Rightarrow> nat \<Rightarrow> nat option" where
  "nexts s i = p_wait_next (proc_table s ! i)"

definition waits :: "('r, 'w) sched \<Rightarrow> nat \<Rightarrow> wq option" where
  "waits s i = p_wait_queue (proc_table s ! i)"

text \<open>Queue \<open>q\<close> holds exactly the slots \<open>xs\<close>, in this order.\<close>

definition queue_is :: "('r, 'w) sched \<Rightarrow> wq \<Rightarrow> nat list \<Rightarrow> bool" where
  "queue_is s q xs \<longleftrightarrow> distinct xs \<and> set xs \<subseteq> {..<8} \<and> links (nexts s) xs None \<and>
     wq_head (queues s q) = first_of xs None \<and> wq_tail (queues s q) = last_of xs None"

text \<open>All queues: every sleeper is on the queue it names, and only blocked tasks sleep.\<close>

definition queues_are :: "('r, 'w) sched \<Rightarrow> (wq \<Rightarrow> nat list) \<Rightarrow> bool" where
  "queues_are s Q \<longleftrightarrow> length (proc_table s) = 8 \<and> (\<forall>q. queue_is s q (Q q)) \<and>
     (\<forall>q. set (Q q) = {i. i < 8 \<and> waits s i = Some q}) \<and>
     (\<forall>i < 8. waits s i \<noteq> None \<longrightarrow> p_state (proc_table s ! i) = PROC_BLOCKED)"

lemma queue_length:
  assumes "queue_is s q xs"
  shows "length xs \<le> 8"
proof -
  have "card (set xs) \<le> card {..<8::nat}" using assms by (intro card_mono) (auto simp: queue_is_def)
  with assms show ?thesis by (simp add: queue_is_def distinct_card)
qed

lemma queues_are_disjoint: "queues_are s Q \<Longrightarrow> q \<noteq> q' \<Longrightarrow> set (Q q) \<inter> set (Q q') = {}"
  by (auto simp: queues_are_def)

section \<open>Waking a queue\<close>

definition woken :: "'r process \<Rightarrow> 'r process" where
  "woken p = p\<lparr>p_wait_queue := None, p_wait_next := None, p_wait_deadline := 0, p_wait_deadline_set := False, p_state := PROC_READY\<rparr>"

definition wake_slots :: "nat list \<Rightarrow> 'r process list \<Rightarrow> 'r process list" where
  "wake_slots xs ps = map (\<lambda>i. if i \<in> set xs then woken (ps ! i) else ps ! i) [0..<length ps]"

lemma wake_walk_chain:
  assumes "distinct xs" "set xs \<subseteq> {..<length (proc_table s)}" "links (nexts s) xs None" "length xs < n"
    "\<forall>i\<in>set xs. p_state (proc_table s ! i) = PROC_BLOCKED"
  shows "wake_walk n (first_of xs None) s w = (w \<or> xs \<noteq> [], s\<lparr>proc_table := wake_slots xs (proc_table s)\<rparr>)"
  using assms
proof (induction xs arbitrary: n s w)
  case Nil
  then show ?case by (cases n) (simp_all add: wake_slots_def map_nth)
next
  case (Cons x xs)
  obtain m where n: "n = Suc m" "length xs < m" using Cons.prems(4) by (cases n) auto
  define s1 where "s1 = s\<lparr>proc_table := (proc_table s)[x := woken (proc_table s ! x)]\<rparr>"
  have x: "x < length (proc_table s)" "x \<notin> set xs" "p_state (proc_table s ! x) = PROC_BLOCKED"
    using Cons.prems by auto
  have nx: "p_wait_next (proc_table s ! x) = first_of xs None" using Cons.prems(3) by (simp add: nexts_def)
  have st: "wake_walk n (first_of (x # xs) None) s w = wake_walk m (first_of xs None) s1 True"
    using x nx by (simp add: n(1) Let_def proc_upd_proc s1_def) (simp add: upd_proc_def woken_def)
  have "links (nexts s1) xs None = links (nexts s) xs None"
    using x(2) by (intro links_cong) (auto simp: nexts_def s1_def nth_upd)
  with Cons.prems(3) have "links (nexts s1) xs None" by simp
  then have "wake_walk m (first_of xs None) s1 True = (True \<or> xs \<noteq> [], s1\<lparr>proc_table := wake_slots xs (proc_table s1)\<rparr>)"
    using Cons.prems x n(2) by (intro Cons.IH) (auto simp: s1_def nth_upd)
  moreover have "wake_slots xs (proc_table s1) = wake_slots (x # xs) (proc_table s)"
    using x by (auto simp: wake_slots_def s1_def nth_upd)
  ultimately show ?case unfolding st by (simp add: s1_def)
qed

lemma wake_slots_nth: "i < length ps \<Longrightarrow> wake_slots xs ps ! i = (if i \<in> set xs then woken (ps ! i) else ps ! i)"
  by (simp add: wake_slots_def)

lemma wake_slots_length [simp]: "length (wake_slots xs ps) = length ps"
  by (simp add: wake_slots_def)

lemma sched_wake_all_eq:
  assumes Q: "queues_are s Q"
  shows "sched_wake_all q s = s\<lparr>proc_table := wake_slots (Q q) (proc_table s),
     queues := (queues s)(q := \<lparr>wq_head = None, wq_tail = None\<rparr>), g_need_switch := g_need_switch s \<or> Q q \<noteq> []\<rparr>"
proof -
  let ?s = "set_queue q None None s"
  have q: "queue_is s q (Q q)" using Q by (simp add: queues_are_def)
  then have "wake_walk 9 (first_of (Q q) None) ?s False = (False \<or> Q q \<noteq> [], ?s\<lparr>proc_table := wake_slots (Q q) (proc_table ?s)\<rparr>)"
    using Q queue_length [OF q] by (intro wake_walk_chain) (auto simp: queue_is_def queues_are_def nexts_def [abs_def])
  moreover have "wq_head (queues s q) = first_of (Q q) None" using q by (simp add: queue_is_def)
  ultimately show ?thesis by (cases s) (simp add: sched_wake_all_def MAX_PROCS_def set_queue_def numeral_eq_Suc)
qed

lemma sched_wake_all_queues:
  assumes Q: "queues_are s Q"
  shows "queues_are (sched_wake_all q s) (Q(q := []))"
proof -
  have len: "length (proc_table s) = 8" using Q by (simp add: queues_are_def)
  let ?s = "sched_wake_all q s"
  have w: "waits ?s i = (if i \<in> set (Q q) then None else waits s i)" if "i < 8" for i
    using that len by (simp add: sched_wake_all_eq [OF Q] waits_def wake_slots_nth woken_def)
  have n: "nexts ?s i = nexts s i" if "i < 8" "i \<notin> set (Q q)" for i
    using that len by (simp add: sched_wake_all_eq [OF Q] nexts_def wake_slots_nth)
  have "queue_is ?s p (Q p)" if "p \<noteq> q" for p
  proof -
    have "queue_is s p (Q p)" "set (Q p) \<inter> set (Q q) = {}" using Q that by (auto simp: queues_are_def)
    moreover from this have "links (nexts ?s) (Q p) None = links (nexts s) (Q p) None"
      by (intro links_cong n) (auto simp: queue_is_def)
    ultimately show ?thesis using that by (simp add: queue_is_def sched_wake_all_eq [OF Q])
  qed
  moreover have "queue_is ?s q []" by (simp add: queue_is_def sched_wake_all_eq [OF Q])
  moreover have "p_state (proc_table ?s ! i) = PROC_BLOCKED" if "i < 8" "waits ?s i \<noteq> None" for i
    using that w [OF that(1)] Q len by (auto simp: sched_wake_all_eq [OF Q] wake_slots_nth queues_are_def split: if_splits)
  moreover have "set ((Q(q := [])) p) = {i. i < 8 \<and> waits ?s i = Some p}" for p
    using Q w by (auto simp: queues_are_def split: if_splits)
  ultimately show ?thesis using len by (auto simp: queues_are_def sched_wake_all_eq [OF Q] split: if_splits)
qed

section \<open>Leaving a queue\<close>

text \<open>The table after slot \<open>i\<close> left a queue that holds \<open>as @ i # bs\<close>: only its predecessor has a new link.\<close>

definition unlinked :: "nat list \<Rightarrow> nat \<Rightarrow> nat list \<Rightarrow> 'r process list \<Rightarrow> 'r process list" where
  "unlinked as i bs ps =
     (case last_of as None of None \<Rightarrow> ps | Some p \<Rightarrow> ps[p := (ps ! p)\<lparr>p_wait_next := first_of bs None\<rparr>])"

lemma wq_same: "f(q := \<lparr>wq_head = wq_head (f q), wq_tail = wq_tail (f q)\<rparr>) = f"
  by (simp add: fun_eq_iff)

lemma sched_queues_same [simp]: "s\<lparr>queues := queues s\<rparr> = s"
  by (cases s) simp

lemma remove_walk_chain:
  assumes "distinct (as @ i # bs)" "links (nexts s) (as @ i # bs) None" "length as < n"
  shows "remove_walk n q i prev (first_of (as @ i # bs) None) s =
    (let p = last_of as prev;
         h = (if p = None then first_of bs None else wq_head (queues s q));
         s1 = (case p of Some k \<Rightarrow> upd_proc k (\<lambda>x. x\<lparr>p_wait_next := first_of bs None\<rparr>) s | None \<Rightarrow> s)
     in s1\<lparr>queues := (queues s)(q := \<lparr>wq_head = h, wq_tail = (if wq_tail (queues s q) = Some i then p else wq_tail (queues s q))\<rparr>)\<rparr>)"
  using assms
proof (induction as arbitrary: n prev)
  case Nil
  then obtain m where n: "n = Suc m" by (cases n) auto
  have "p_wait_next (proc_table s ! i) = first_of bs None" using Nil(2) by (simp add: nexts_def)
  then show ?case by (cases prev) (cases s; simp add: n Let_def set_queue_def upd_proc_def fun_upd_def fun_eq_iff)+
next
  case (Cons a as)
  then obtain m where n: "n = Suc m" "length as < m" by (cases n) auto
  have "p_wait_next (proc_table s ! a) = first_of (as @ i # bs) None" using Cons.prems(2) by (simp add: nexts_def)
  then show ?case using Cons.IH [of m "Some a"] Cons.prems n by (simp add: Let_def)
qed

definition cleared :: "'r process \<Rightarrow> 'r process" where
  "cleared p = p\<lparr>p_wait_queue := None, p_wait_next := None, p_wait_deadline := 0, p_wait_deadline_set := False\<rparr>"

lemma links_skip:
  assumes "distinct (as @ i # bs)" "links N (as @ i # bs) None"
  shows "links (\<lambda>k. if last_of as None = Some k then first_of bs None else N k) (as @ bs) None"
proof (cases as rule: rev_cases)
  case (snoc as' a)
  then have "(\<lambda>k. if last_of as None = Some k then first_of bs None else N k) = N(a := first_of bs None)" by auto
  with snoc assms show ?thesis by simp
qed (use assms in simp)

text \<open>The queue operations touch the table only in the waiting fields.\<close>

definition relinked :: "('r, 'w) sched \<Rightarrow> nat \<Rightarrow> ('r, 'w) sched \<Rightarrow> bool" where
  "relinked s i s' \<longleftrightarrow> s' = s\<lparr>proc_table := proc_table s', queues := queues s'\<rparr> \<and> length (proc_table s') = length (proc_table s) \<and>
     proc_table s' ! i = cleared (proc_table s ! i) \<and>
     (\<forall>k. k \<noteq> i \<longrightarrow> (\<exists>n. proc_table s' ! k = (proc_table s ! k)\<lparr>p_wait_next := n\<rparr>))"

lemma clear_wait_none:
  assumes "waits s i = None" "i < length (proc_table s)"
  shows "sched_clear_wait i s = s\<lparr>proc_table := (proc_table s)[i := cleared (proc_table s ! i)]\<rparr>"
  using assms by (simp add: sched_clear_wait_def waits_def upd_proc_def cleared_def)

lemma clear_wait_some:
  assumes "queue_is s q (as @ i # bs)" "waits s i = Some q" "length (proc_table s) = 8"
  shows "sched_clear_wait i s = s\<lparr>proc_table := (unlinked as i bs (proc_table s))[i := cleared (proc_table s ! i)],
    queues := (queues s)(q := \<lparr>wq_head = first_of (as @ bs) None, wq_tail = last_of (as @ bs) None\<rparr>)\<rparr>"
proof -
  have q: "distinct (as @ i # bs)" "links (nexts s) (as @ i # bs) None" "i < 8"
    "wq_head (queues s q) = first_of (as @ i # bs) None" "wq_tail (queues s q) = last_of (as @ i # bs) None"
    using assms(1) by (auto simp: queue_is_def)
  have "length as < 9" using queue_length [OF assms(1)] by simp
  note w = remove_walk_chain [OF q(1,2) this, of q None]
  have t: "wq_tail (queues s q) = Some i \<longleftrightarrow> bs = []" using q(1,5) by (cases bs rule: rev_cases) auto
  show ?thesis
  proof (cases as rule: rev_cases)
    case Nil
    with w t q assms(2) show ?thesis
      by (cases s) (cases bs rule: rev_cases; simp add: sched_clear_wait_def sched_wait_queue_remove_def waits_def Let_def MAX_PROCS_def numeral_eq_Suc unlinked_def upd_proc_def cleared_def)
  next
    case (snoc as' a)
    then have "a \<noteq> i" using q(1) by auto
    with snoc w t q assms(2) show ?thesis
      by (cases s) (cases bs rule: rev_cases; cases as'; simp add: sched_clear_wait_def sched_wait_queue_remove_def waits_def Let_def MAX_PROCS_def numeral_eq_Suc unlinked_def upd_proc_def cleared_def)
  qed
qed

lemma unlinked_nth:
  assumes "k < length ps"
  shows "unlinked as i bs ps ! k = (if last_of as None = Some k then (ps ! k)\<lparr>p_wait_next := first_of bs None\<rparr> else ps ! k)"
  using assms by (auto simp: unlinked_def nth_upd split: option.splits)

lemma unlinked_length [simp]: "length (unlinked as i bs ps) = length ps"
  by (simp add: unlinked_def split: option.splits)

lemma unlinked_other: "\<exists>n. unlinked as i bs ps ! k = (ps ! k)\<lparr>p_wait_next := n\<rparr>"
proof (cases "\<exists>j. last_of as None = Some j \<and> j = k \<and> k < length ps")
  case False
  then have "unlinked as i bs ps ! k = (ps ! k)\<lparr>p_wait_next := p_wait_next (ps ! k)\<rparr>"
    by (auto simp: unlinked_def nth_upd split: option.splits)
  then show ?thesis by blast
qed (auto simp: unlinked_nth)

lemma proc_next_same: "p = p\<lparr>p_wait_next := p_wait_next p\<rparr>"
  by simp

lemma clear_wait_relinked:
  assumes Q: "queues_are s Q" and i: "i < 8"
  shows "relinked s i (sched_clear_wait i s)"
proof (cases "waits s i")
  case None
  have len: "length (proc_table s) = 8" using Q by (simp add: queues_are_def)
  have "s\<lparr>proc_table := pt\<rparr> = s\<lparr>proc_table := pt, queues := queues s\<rparr>" for pt by (cases s) simp
  moreover have "\<exists>n. p = p\<lparr>p_wait_next := n\<rparr>" for p :: "'a process" using proc_next_same by blast
  ultimately show ?thesis unfolding relinked_def using None i len by (simp add: clear_wait_none nth_upd)
next
  case (Some q)
  with Q i have m: "i \<in> set (Q q)" and q: "queue_is s q (Q q)" and len: "length (proc_table s) = 8" by (auto simp: queues_are_def)
  obtain as bs where "Q q = as @ i # bs" using m by (meson split_list)
  note c = clear_wait_some [OF q [unfolded this] Some len]
  show ?thesis unfolding relinked_def c using i len unlinked_other [of as i bs "proc_table s"]
    by (auto simp: nth_upd)
qed

lemma clear_wait_queues:
  assumes Q: "queues_are s Q" and i: "i < 8"
  shows "queues_are (sched_clear_wait i s) (\<lambda>q. remove1 i (Q q))"
proof -
  let ?s = "sched_clear_wait i s"
  have len: "length (proc_table s) = 8" using Q by (simp add: queues_are_def)
  note rel = clear_wait_relinked [OF Q i, unfolded relinked_def]
  have pi: "proc_table ?s ! i = cleared (proc_table s ! i)" and len': "length (proc_table ?s) = 8" using rel len by auto
  have po: "p_wait_queue (proc_table ?s ! k) = p_wait_queue (proc_table s ! k) \<and> p_state (proc_table ?s ! k) = p_state (proc_table s ! k)" if "k \<noteq> i" for k
    using rel that by force
  have w: "waits ?s k = (if k = i then None else waits s k)" for k using pi po by (simp add: waits_def cleared_def)
  have "queue_is ?s q (remove1 i (Q q))" for q
  proof (cases "waits s i = Some q")
    case True
    have q: "queue_is s q (Q q)" "i \<in> set (Q q)" using Q True i by (auto simp: queues_are_def)
    obtain as bs where ab: "Q q = as @ i # bs" using q(2) by (meson split_list)
    note c = clear_wait_some [OF q(1) [unfolded ab] True len]
    have d: "distinct (as @ i # bs)" "links (nexts s) (as @ i # bs) None" "set (as @ bs) \<subseteq> {..<8}" using q(1) ab by (auto simp: queue_is_def)
    have "links (nexts ?s) (as @ bs) None = links (\<lambda>k. if last_of as None = Some k then first_of bs None else nexts s k) (as @ bs) None"
      using d len by (intro links_cong) (auto simp: c nexts_def nth_upd unlinked_nth)
    with links_skip [OF d(1,2)] d(1,3) have "queue_is ?s q (as @ bs)" by (simp add: queue_is_def c)
    moreover have "remove1 i (Q q) = as @ bs" using d(1) ab by (simp add: remove1_append)
    ultimately show ?thesis by simp
  next
    case False
    then have n: "i \<notin> set (Q q)" and q: "queue_is s q (Q q)" using Q by (auto simp: queues_are_def)
    have "links (nexts ?s) (Q q) None = links (nexts s) (Q q) None"
    proof (rule links_cong)
      fix k
      assume k: "k \<in> set (Q q)"
      show "nexts ?s k = nexts s k"
      proof (cases "waits s i")
        case (Some q')
        have q': "queue_is s q' (Q q')" "i \<in> set (Q q')" using Q Some i by (auto simp: queues_are_def)
        obtain as bs where ab: "Q q' = as @ i # bs" using q'(2) by (meson split_list)
        have "k \<notin> set (Q q')" using queues_are_disjoint [OF Q, of q q'] k False Some by auto
        then have "last_of as None \<noteq> Some k" "k \<noteq> i" using ab by (auto simp: last_of_def split: if_splits)
        moreover have "k < 8" using k q by (auto simp: queue_is_def)
        ultimately show ?thesis using len clear_wait_some [OF q'(1) [unfolded ab] Some len] by (simp add: nexts_def nth_upd unlinked_nth)
      qed (use k n i len clear_wait_none [of s i] in \<open>auto simp: nexts_def nth_upd\<close>)
    qed
    moreover have "queues ?s q = queues s q"
    proof (cases "waits s i")
      case (Some q')
      have q': "queue_is s q' (Q q')" "i \<in> set (Q q')" using Q Some i by (auto simp: queues_are_def)
      obtain as bs where ab: "Q q' = as @ i # bs" using q'(2) by (meson split_list)
      show ?thesis using clear_wait_some [OF q'(1) [unfolded ab] Some len] False Some by simp
    qed (use i len clear_wait_none [of s i] in simp)
    ultimately show ?thesis using q n by (simp add: queue_is_def remove1_idem)
  qed
  moreover have "set (remove1 i (Q q)) = {k. k < 8 \<and> waits ?s k = Some q}" for q
    using Q w by (auto simp: queues_are_def queue_is_def)
  moreover have "p_state (proc_table ?s ! k) = PROC_BLOCKED" if "k < 8" "waits ?s k \<noteq> None" for k
    using that w po Q by (auto simp: queues_are_def split: if_splits)
  ultimately show ?thesis using len' by (simp add: queues_are_def)
qed

lemma queues_are_cong:
  assumes "queues_are s Q" "length (proc_table s') = 8" "queues s' = queues s"
    "\<And>k. k < 8 \<Longrightarrow> nexts s' k = nexts s k \<and> waits s' k = waits s k"
    "\<And>k. k < 8 \<Longrightarrow> waits s k \<noteq> None \<Longrightarrow> p_state (proc_table s' ! k) = PROC_BLOCKED"
  shows "queues_are s' Q"
proof -
  have "links (nexts s') (Q q) None = links (nexts s) (Q q) None" for q
    using assms(1,4) by (intro links_cong) (auto simp: queues_are_def queue_is_def)
  moreover have "queue_is s q (Q q)" for q using assms(1) by (simp add: queues_are_def)
  ultimately have "queue_is s' q (Q q)" for q using assms(3) by (simp add: queue_is_def)
  with assms show ?thesis by (auto simp: queues_are_def)
qed

section \<open>Ids and groups\<close>

record pinfo =
  pi_pid :: u32
  pi_tid :: u32
  pi_tgid :: u32
  pi_group :: "nat option"
  pi_kind :: proc_state

record ginfo =
  gi_used :: bool
  gi_refs :: u32
  gi_tgid :: u32
  gi_live :: u32

definition kind_of :: "proc_state \<Rightarrow> proc_state" where
  "kind_of st = (if st = PROC_BLOCKED \<or> st = PROC_STOPPED then PROC_READY else st)"

definition pinfo_of :: "'r process \<Rightarrow> pinfo" where
  "pinfo_of p = \<lparr>pi_pid = p_pid p, pi_tid = p_tid p, pi_tgid = p_tgid p, pi_group = p_group p, pi_kind = kind_of (p_state p)\<rparr>"

definition ginfo_of :: "task_group \<Rightarrow> ginfo" where
  "ginfo_of g = \<lparr>gi_used = tg_used g, gi_refs = tg_refs g, gi_tgid = tg_tgid g, gi_live = tg_live_tasks g\<rparr>"

definition pinfos :: "('r, 'w) sched \<Rightarrow> nat \<Rightarrow> pinfo" where "pinfos s i = pinfo_of (proc_table s ! i)"
definition ginfos :: "('r, 'w) sched \<Rightarrow> nat \<Rightarrow> ginfo" where "ginfos s g = ginfo_of (groups s ! g)"

definition used_slot :: "(nat \<Rightarrow> pinfo) \<Rightarrow> nat \<Rightarrow> bool" where
  "used_slot P i \<longleftrightarrow> i < 8 \<and> pi_kind (P i) \<noteq> PROC_UNUSED"

definition members :: "(nat \<Rightarrow> pinfo) \<Rightarrow> nat \<Rightarrow> nat set" where
  "members P g = {i. used_slot P i \<and> pi_group (P i) = Some g}"

definition lives :: "(nat \<Rightarrow> pinfo) \<Rightarrow> nat \<Rightarrow> nat set" where
  "lives P g = {i. used_slot P i \<and> pi_group (P i) = Some g \<and> pi_kind (P i) \<noteq> PROC_ZOMBIE}"

text \<open>
  Every task has a fresh id and a group; a group counts its tasks and its live tasks and is in use
  while it has one; at most the current task is running.
\<close>

definition slots_ok :: "(nat \<Rightarrow> pinfo) \<Rightarrow> (nat \<Rightarrow> ginfo) \<Rightarrow> u32 \<Rightarrow> bool" where
  "slots_ok P G nxt \<longleftrightarrow>
     (\<forall>i. used_slot P i \<longrightarrow> pi_pid (P i) = pi_tid (P i) \<and> pi_pid (P i) \<noteq> 0 \<and> pi_pid (P i) < nxt \<and>
        (\<exists>g < 8. pi_group (P i) = Some g \<and> gi_tgid (G g) = pi_tgid (P i))) \<and>
     (\<forall>i j. used_slot P i \<and> used_slot P j \<and> i \<noteq> j \<longrightarrow> pi_pid (P i) \<noteq> pi_pid (P j))"

definition counts_ok :: "(nat \<Rightarrow> pinfo) \<Rightarrow> (nat \<Rightarrow> ginfo) \<Rightarrow> bool" where
  "counts_ok P G \<longleftrightarrow> (\<forall>g < 8. unat (gi_refs (G g)) = card (members P g) \<and> unat (gi_live (G g)) = card (lives P g) \<and>
     (gi_used (G g) \<longleftrightarrow> members P g \<noteq> {}))"

definition current_ok :: "(nat \<Rightarrow> pinfo) \<Rightarrow> nat option \<Rightarrow> bool" where
  "current_ok P cur \<longleftrightarrow> (\<forall>i < 8. pi_kind (P i) = PROC_RUNNING \<longrightarrow> cur = Some i) \<and> (\<forall>c. cur = Some c \<longrightarrow> used_slot P c)"

definition ids_ok :: "(nat \<Rightarrow> pinfo) \<Rightarrow> (nat \<Rightarrow> ginfo) \<Rightarrow> nat option \<Rightarrow> u32 \<Rightarrow> bool" where
  "ids_ok P G cur nxt \<longleftrightarrow> slots_ok P G nxt \<and> counts_ok P G \<and> current_ok P cur \<and> nxt \<noteq> 0"

lemma members_fin [simp]: "finite (members P g)" "finite (lives P g)" "finite {i. used_slot P i}"
  by (auto simp: members_def lives_def used_slot_def)

lemma members_card: "card (members P g) \<le> 8" "card (lives P g) \<le> 8"
proof -
  have "members P g \<subseteq> {..<8}" "lives P g \<subseteq> {..<8}" by (auto simp: members_def lives_def used_slot_def)
  from card_mono [OF _ this(1)] card_mono [OF _ this(2)] show "card (members P g) \<le> 8" "card (lives P g) \<le> 8" by simp_all
qed

lemma lives_members: "lives P g \<subseteq> members P g"
  by (auto simp: lives_def members_def)

lemma ids_ok_cong:
  assumes P: "\<And>i. i < 8 \<Longrightarrow> P' i = P i" and G: "\<And>g. g < 8 \<Longrightarrow> G' g = G g" and ok: "ids_ok P G cur nxt"
  shows "ids_ok P' G' cur nxt"
proof -
  have u: "used_slot P' i = used_slot P i" for i using P by (auto simp: used_slot_def)
  have p: "used_slot P i \<Longrightarrow> P' i = P i" for i using P by (simp add: used_slot_def)
  have m: "members P' g = members P g" "lives P' g = lives P g" for g
    using p by (auto simp: members_def lives_def u)
  have "slots_ok P' G' nxt" unfolding slots_ok_def u
    using ok G by (auto simp: ids_ok_def slots_ok_def p)
  moreover have "counts_ok P' G'" using ok G by (simp add: counts_ok_def m ids_ok_def)
  moreover have "current_ok P' cur" using ok P by (simp add: current_ok_def u ids_ok_def)
  ultimately show ?thesis using ok by (simp add: ids_ok_def)
qed

lemma unat_dec: "unat (x :: u32) = Suc n \<Longrightarrow> unat (x - 1) = n"
  by (subst unat_minus_one) auto

lemma unat_inc: "unat (x :: u32) \<le> 8 \<Longrightarrow> unat (x + 1) = Suc (unat x)"
  by (simp add: unat_word_ariths)

lemma unat_inc_nz: "(x :: u32) + 1 \<noteq> 0 \<Longrightarrow> unat (x + 1) = Suc (unat x)"
  by (metis add.commute unatSuc)

text \<open>The ways a slot changes. First within the live states.\<close>

lemma ids_live_kind:
  assumes ok: "ids_ok P G cur nxt" and i: "i < 8" "pi_kind (P i) \<in> {PROC_READY, PROC_RUNNING}" "k \<in> {PROC_READY, PROC_RUNNING}"
    and cur: "current_ok (P(i := (P i)\<lparr>pi_kind := k\<rparr>)) cur'"
  shows "ids_ok (P(i := (P i)\<lparr>pi_kind := k\<rparr>)) G cur' nxt"
proof -
  let ?P = "P(i := (P i)\<lparr>pi_kind := k\<rparr>)"
  have u: "used_slot ?P j = used_slot P j" for j using i by (auto simp: used_slot_def)
  have m: "members ?P g = members P g" "lives ?P g = lives P g" for g using i by (auto simp: members_def lives_def u)
  have "slots_ok ?P G nxt" unfolding slots_ok_def u using ok by (auto simp: ids_ok_def slots_ok_def)
  moreover have "counts_ok ?P G" using ok by (simp add: counts_ok_def m ids_ok_def)
  ultimately show ?thesis using ok cur by (simp add: ids_ok_def)
qed

text \<open>A live task exits.\<close>

lemma ids_zombie:
  assumes ok: "ids_ok P G cur nxt" and i: "i < 8" "pi_kind (P i) \<in> {PROC_READY, PROC_RUNNING}" "pi_group (P i) = Some g"
  shows "ids_ok (P(i := (P i)\<lparr>pi_kind := PROC_ZOMBIE\<rparr>)) (G(g := (G g)\<lparr>gi_live := gi_live (G g) - 1\<rparr>)) cur nxt"
    and "unat (gi_live (G g)) = card (lives P g)" and "i \<in> lives P g" and "g < 8"
proof -
  let ?P = "P(i := (P i)\<lparr>pi_kind := PROC_ZOMBIE\<rparr>)" and ?G = "G(g := (G g)\<lparr>gi_live := gi_live (G g) - 1\<rparr>)"
  have u: "used_slot ?P j = used_slot P j" for j using i by (auto simp: used_slot_def)
  have us: "used_slot P i" using i by (auto simp: used_slot_def)
  have m: "members ?P h = members P h" for h using i by (auto simp: members_def u)
  have l: "lives ?P h = lives P h - {i}" for h by (auto simp: lives_def u)
  show il: "i \<in> lives P g" using us i by (auto simp: lives_def)
  show g: "g < 8" using ok us i by (auto simp: ids_ok_def slots_ok_def)
  show live: "unat (gi_live (G g)) = card (lives P g)" using ok g by (simp add: ids_ok_def counts_ok_def)
  have lg: "unat (gi_live (G g) - 1) = card (lives P g - {i})" by (rule unat_dec) (simp only: live card.remove [OF members_fin(2) il])
  have "slots_ok ?P ?G nxt" unfolding slots_ok_def u using ok by (auto simp: ids_ok_def slots_ok_def)
  moreover have "counts_ok ?P ?G" unfolding counts_ok_def m l
  proof (intro allI impI)
    fix h :: nat
    assume h: "h < 8"
    have "h \<noteq> g \<Longrightarrow> i \<notin> lives P h" using i by (auto simp: lives_def)
    then show "unat (gi_refs (?G h)) = card (members P h) \<and> unat (gi_live (?G h)) = card (lives P h - {i}) \<and>
        gi_used (?G h) = (members P h \<noteq> {})"
      using ok h lg by (auto simp: ids_ok_def counts_ok_def)
  qed
  moreover have "current_ok ?P cur" using ok by (auto simp: ids_ok_def current_ok_def u)
  ultimately show "ids_ok ?P ?G cur nxt" using ok by (simp add: ids_ok_def)
qed

text \<open>A slot is given back.\<close>

definition group_less :: "nat \<Rightarrow> (nat \<Rightarrow> ginfo) \<Rightarrow> nat \<Rightarrow> ginfo" where
  "group_less g G = (if gi_refs (G g) = 1 then G(g := \<lparr>gi_used = False, gi_refs = 0, gi_tgid = 0, gi_live = 0\<rparr>)
     else G(g := (G g)\<lparr>gi_refs := gi_refs (G g) - 1\<rparr>))"

lemma ids_reap:
  assumes ok: "ids_ok P G cur nxt" and i: "i < 8" "pi_kind (P i) = PROC_ZOMBIE" "pi_group (P i) = Some g" "cur \<noteq> Some i"
    and v: "pi_kind v = PROC_UNUSED"
  shows "ids_ok (P(i := v)) (group_less g G) cur nxt"
    and "unat (gi_refs (G g)) = card (members P g)" "i \<in> members P g" "g < 8"
proof -
  let ?P = "P(i := v)" and ?G = "group_less g G"
  have us: "used_slot P i" using i by (auto simp: used_slot_def)
  have u: "used_slot ?P j \<longleftrightarrow> used_slot P j \<and> j \<noteq> i" for j using v by (auto simp: used_slot_def)
  have m: "members ?P h = members P h - {i}" and l: "lives ?P h = lives P h" for h using i by (auto simp: members_def lives_def u)
  show im: "i \<in> members P g" using us i by (auto simp: members_def)
  show g: "g < 8" using ok us i by (auto simp: ids_ok_def slots_ok_def)
  show refs: "unat (gi_refs (G g)) = card (members P g)" using ok g by (simp add: ids_ok_def counts_ok_def)
  have c: "card (members P g) = Suc (card (members P g - {i}))" by (rule card.remove) (use im in simp_all)
  have one: "gi_refs (G g) = 1 \<longleftrightarrow> members P g - {i} = {}" unfolding word_unat_eq_iff refs c by simp
  have "gi_tgid (?G h) = gi_tgid (G h)" if "used_slot P j" "j \<noteq> i" "pi_group (P j) = Some h" for j h
    using that one by (auto simp: group_less_def members_def)
  then have "slots_ok ?P ?G nxt" unfolding slots_ok_def u using ok by (auto simp: ids_ok_def slots_ok_def)
  moreover have "counts_ok ?P ?G" unfolding counts_ok_def m l
  proof (intro allI impI)
    fix h :: nat
    assume h: "h < 8"
    have r: "unat (gi_refs (G g) - 1) = card (members P g - {i})" by (rule unat_dec) (simp only: refs c)
    have z: "members P g - {i} = {} \<Longrightarrow> lives P g = {}" using lives_members [of P g] i by (auto simp: lives_def)
    have n: "h \<noteq> g \<Longrightarrow> members P h - {i} = members P h" using i by (auto simp: members_def)
    have k: "unat (gi_refs (G h)) = card (members P h) \<and> unat (gi_live (G h)) = card (lives P h) \<and> gi_used (G h) = (members P h \<noteq> {})"
      using ok h by (simp add: ids_ok_def counts_ok_def)
    show "unat (gi_refs (?G h)) = card (members P h - {i}) \<and> unat (gi_live (?G h)) = card (lives P h) \<and>
        gi_used (?G h) = (members P h - {i} \<noteq> {})"
    proof (cases "h = g")
      case True
      show ?thesis
      proof (cases "gi_refs (G g) = 1")
        case True
        with one z \<open>h = g\<close> show ?thesis by (simp add: group_less_def)
      next
        case False
        with one k r im \<open>h = g\<close> show ?thesis by (auto simp: group_less_def)
      qed
    qed (use n k in \<open>simp add: group_less_def\<close>)
  qed
  moreover have "current_ok ?P cur" using ok i v by (auto simp: ids_ok_def current_ok_def u)
  ultimately show "ids_ok ?P ?G cur nxt" using ok by (simp add: ids_ok_def)
qed

text \<open>A free slot is taken, in a new group or in one of the groups in use.\<close>

lemma ids_add:
  assumes ok: "ids_ok P G cur nxt" and i: "i < 8" "pi_kind (P i) = PROC_UNUSED"
    and v: "pi_kind v = PROC_READY" "pi_pid v = nxt" "pi_tid v = nxt" "pi_group v = Some g" "g < 8"
    and w: "gi_used w" "unat (gi_refs w) = Suc (card (members P g))" "unat (gi_live w) = Suc (card (lives P g))"
      "gi_tgid w = pi_tgid v" "members P g \<noteq> {} \<Longrightarrow> gi_tgid w = gi_tgid (G g)"
    and n: "nxt + 1 \<noteq> 0"
  shows "ids_ok (P(i := v)) (G(g := w)) cur (nxt + 1)"
proof -
  let ?P = "P(i := v)" and ?G = "G(g := w)"
  have nu: "\<not> used_slot P i" using i by (simp add: used_slot_def)
  have u: "used_slot ?P j \<longleftrightarrow> used_slot P j \<or> j = i" for j using v i by (auto simp: used_slot_def)
  have m: "members ?P h = (if h = g then insert i (members P g) else members P h)"
    and l: "lives ?P h = (if h = g then insert i (lives P g) else lives P h)" for h
    using v nu by (auto simp: members_def lives_def u)
  have im: "i \<notin> members P g" "i \<notin> lives P g" using nu by (auto simp: members_def lives_def)
  have lt: "nxt < nxt + 1" using unat_inc_nz [OF n] by (simp add: word_less_nat_alt)
  have old: "pi_pid (P j) = pi_tid (P j) \<and> pi_pid (P j) \<noteq> 0 \<and> pi_pid (P j) < nxt \<and>
      (\<exists>h < 8. pi_group (P j) = Some h \<and> gi_tgid (G h) = pi_tgid (P j))" if "used_slot P j" for j
    using ok that unfolding ids_ok_def slots_ok_def by blast
  have tg: "gi_tgid (?G h) = gi_tgid (G h)" if "used_slot P j" "pi_group (P j) = Some h" for j h
    using that w(5) by (auto simp: members_def)
  have "slots_ok ?P ?G (nxt + 1)" unfolding slots_ok_def
  proof (intro conjI allI impI, goal_cases)
    case (1 j) then show ?case using old [of j] v by (auto simp: u split: if_splits)
  next
    case (2 j) then show ?case using old [of j] v ok by (auto simp: u ids_ok_def split: if_splits)
  next
    case (3 j) then show ?case using old [of j] v lt by (auto simp: u split: if_splits)
  next
    case (4 j) then show ?case using old [of j] tg [of j] v w(4) by (cases "j = i") (auto simp: u)
  next
    case (5 j k) then show ?case using old [of j] old [of k] v ok by (auto simp: u ids_ok_def slots_ok_def split: if_splits)
  qed
  moreover have "counts_ok ?P ?G" unfolding counts_ok_def m l
    using ok w im by (auto simp: ids_ok_def counts_ok_def)
  moreover have "current_ok ?P cur" using ok v by (auto simp: ids_ok_def current_ok_def u)
  ultimately show ?thesis using n by (simp add: ids_ok_def)
qed

section \<open>The invariant\<close>

definition sleepers :: "('r, 'w) sched \<Rightarrow> nat set \<Rightarrow> bool" where
  "sleepers s X \<longleftrightarrow> (\<forall>i < 8. i \<notin> X \<and> p_state (proc_table s ! i) = PROC_BLOCKED \<longrightarrow>
     waits s i \<noteq> None \<or> p_wait_deadline_set (proc_table s ! i))"

text \<open>\<open>Q\<close> are the contents of the queues; \<open>X\<close> are slots an operation is still working on.\<close>

definition sinv :: "('r, 'w) sched \<Rightarrow> (wq \<Rightarrow> nat list) \<Rightarrow> nat set \<Rightarrow> bool" where
  "sinv s Q X \<longleftrightarrow> length (groups s) = 8 \<and> queues_are s Q \<and> (\<forall>i. Q (QState i) = []) \<and>
     (\<forall>g. Q (QGroup g) \<noteq> [] \<longrightarrow> g < 8 \<and> gi_live (ginfos s g) \<noteq> 0) \<and>
     ids_ok (pinfos s) (ginfos s) (g_current s) (g_next_pid s) \<and> sleepers s X"

definition sched_inv :: "('r, 'w) sched \<Rightarrow> bool" where
  "sched_inv s \<longleftrightarrow> (\<exists>Q. sinv s Q {})"

lemma inv_len: "sinv s Q X \<Longrightarrow> length (proc_table s) = 8" "sinv s Q X \<Longrightarrow> length (groups s) = 8"
  by (simp_all add: sinv_def queues_are_def)

text \<open>What the invariant sees of a descriptor.\<close>

definition same_proc :: "'r process \<Rightarrow> 'r process \<Rightarrow> bool" where
  "same_proc p p' \<longleftrightarrow> p_wait_queue p' = p_wait_queue p \<and> p_wait_next p' = p_wait_next p \<and>
     p_wait_deadline_set p' = p_wait_deadline_set p \<and> p_state p' = p_state p \<and> pinfo_of p' = pinfo_of p"

lemma inv_cong:
  assumes sinv: "sinv s Q X" and len: "length (proc_table s') = 8" "length (groups s') = 8"
    and p: "\<And>k. k < 8 \<Longrightarrow> same_proc (proc_table s ! k) (proc_table s' ! k)"
    and g: "\<And>k. k < 8 \<Longrightarrow> ginfos s' k = ginfos s k"
    and o: "queues s' = queues s" "g_current s' = g_current s" "g_next_pid s' = g_next_pid s"
  shows "sinv s' Q X"
proof -
  have "queues_are s Q" using sinv by (simp add: sinv_def)
  then have "queues_are s' Q" by (rule queues_are_cong) (use sinv len p o in \<open>auto simp: same_proc_def nexts_def waits_def sinv_def queues_are_def\<close>)
  moreover have "ids_ok (pinfos s') (ginfos s') (g_current s') (g_next_pid s')"
    unfolding o by (rule ids_ok_cong [of _ "pinfos s" _ "ginfos s"]) (use sinv p g in \<open>auto simp: same_proc_def pinfos_def sinv_def\<close>)
  moreover have "sleepers s' X" using sinv p by (auto simp: sinv_def sleepers_def same_proc_def waits_def)
  ultimately show ?thesis using sinv len g by (auto simp: sinv_def)
qed

lemma inv_proc:
  assumes "sinv s Q X" "\<And>p. same_proc p (f p)"
  shows "sinv (upd_proc i f s) Q X"
  by (rule inv_cong [OF assms(1)]) (use assms inv_len [OF assms(1)] in \<open>auto simp: proc_upd_proc ginfos_def same_proc_def\<close>)

lemma inv_group:
  assumes "sinv s Q X" "\<And>x. ginfo_of (f x) = ginfo_of x"
  shows "sinv (upd_group g f s) Q X"
  by (rule inv_cong [OF assms(1)]) (use assms inv_len [OF assms(1)] in \<open>auto simp: group_upd_group ginfos_def same_proc_def\<close>)

lemma inv_other:
  assumes "sinv s Q X"
  shows "sinv (s\<lparr>world := w\<rparr>) Q X" "sinv (s\<lparr>g_need_switch := b\<rparr>) Q X" "sinv (s\<lparr>g_ticks := t\<rparr>) Q X" "sinv (s\<lparr>g_display_owner_pid := d\<rparr>) Q X"
  by (rule inv_cong [OF assms]; use inv_len [OF assms] in \<open>auto simp: ginfos_def same_proc_def\<close>)+

lemma same_proc_res [simp]: "same_proc p (p\<lparr>p_res := r\<rparr>)"
  by (simp add: same_proc_def pinfo_of_def)

lemma inv_on_res: "sinv s Q X \<Longrightarrow> sinv (on_res i f s) Q X"
  by (auto simp: on_res_def split: prod.splits intro!: inv_proc inv_other)

lemma inv_wake:
  assumes sinv: "sinv s Q X"
  shows "sinv (sched_wake_all q s) (Q(q := [])) X"
proof -
  have Q: "queues_are s Q" using sinv by (simp add: sinv_def)
  have len: "length (proc_table s) = 8" using inv_len [OF sinv] by simp
  note e = sched_wake_all_eq [OF Q, of q]
  have b: "p_state (proc_table s ! k) = PROC_BLOCKED" if "k \<in> set (Q q)" for k using Q that by (auto simp: queues_are_def)
  have p: "pinfos (sched_wake_all q s) k = pinfos s k" if "k < 8" for k
    using that len b by (auto simp: e pinfos_def wake_slots_nth woken_def pinfo_of_def kind_of_def)
  have g: "ginfos (sched_wake_all q s) = ginfos s" by (simp add: e ginfos_def [abs_def])
  have "ids_ok (pinfos (sched_wake_all q s)) (ginfos s) (g_current s) (g_next_pid s)"
    by (rule ids_ok_cong [of _ "pinfos s"]) (use p sinv in \<open>auto simp: sinv_def\<close>)
  moreover have "sleepers (sched_wake_all q s) X"
    using sinv len by (auto simp: e sinv_def sleepers_def wake_slots_nth woken_def waits_def)
  moreover note sched_wake_all_queues [OF Q, of q]
  moreover have "groups (sched_wake_all q s) = groups s" "g_current (sched_wake_all q s) = g_current s"
    "g_next_pid (sched_wake_all q s) = g_next_pid s" by (simp_all add: e)
  ultimately show ?thesis using sinv unfolding sinv_def g by auto
qed

lemma inv_clear:
  assumes sinv: "sinv s Q X" and i: "i < 8"
  shows "sinv (sched_clear_wait i s) (\<lambda>q. remove1 i (Q q)) (insert i X)"
proof -
  let ?s = "sched_clear_wait i s"
  have Q: "queues_are s Q" using sinv by (simp add: sinv_def)
  note r = clear_wait_relinked [OF Q i, unfolded relinked_def]
  have e: "groups ?s = groups s" "g_current ?s = g_current s" "g_next_pid ?s = g_next_pid s"
    using r by (metis sched.select_convs sched.surjective sched.update_convs(1,3))+
  have p: "pinfos ?s k = pinfos s k" for k
  proof (cases "k = i")
    case False
    then obtain n where "proc_table ?s ! k = (proc_table s ! k)\<lparr>p_wait_next := n\<rparr>" using r by blast
    then show ?thesis by (simp add: pinfos_def pinfo_of_def)
  qed (use r in \<open>simp add: pinfos_def pinfo_of_def cleared_def\<close>)
  have "p_state (proc_table ?s ! k) = p_state (proc_table s ! k) \<and> waits ?s k = waits s k \<and>
      p_wait_deadline_set (proc_table ?s ! k) = p_wait_deadline_set (proc_table s ! k)" if ne: "k \<noteq> i" for k
  proof -
    obtain n where "proc_table ?s ! k = (proc_table s ! k)\<lparr>p_wait_next := n\<rparr>" using r ne by blast
    then show ?thesis by (simp add: waits_def)
  qed
  then have "sleepers ?s (insert i X)" using sinv by (auto simp: sinv_def sleepers_def)
  moreover have "pinfos ?s = pinfos s" using p by blast
  moreover have "remove1 i xs \<noteq> [] \<Longrightarrow> xs \<noteq> []" for xs by auto
  ultimately show ?thesis using sinv clear_wait_queues [OF Q i] by (auto simp: sinv_def e ginfos_def [abs_def])
qed

section \<open>Changing states\<close>

lemma pinfos_upd:
  "length (proc_table s) = 8 \<Longrightarrow> i < 8 \<Longrightarrow> pinfos (upd_proc i f s) = (pinfos s)(i := pinfo_of (f (proc_table s ! i)))"
  by (auto simp: pinfos_def proc_upd_proc)

lemma ginfos_proc [simp]: "ginfos (upd_proc i f s) = ginfos s" "ginfos (set_queue q h t s) = ginfos s" "ginfos (s\<lparr>g_current := c\<rparr>) = ginfos s"
  by (simp_all add: ginfos_def [abs_def])

definition live_kind :: "proc_state \<Rightarrow> bool" where
  "live_kind st \<longleftrightarrow> kind_of st \<in> {PROC_READY, PROC_RUNNING}"

lemma live_kind_simps [simp]: "live_kind PROC_READY" "live_kind PROC_RUNNING" "live_kind PROC_BLOCKED" "live_kind PROC_STOPPED"
  by (simp_all add: live_kind_def kind_of_def)

lemma live_kind_slot: "live_kind (p_state (proc_table s ! i)) \<longleftrightarrow> live_slot s i"
  by (cases "p_state (proc_table s ! i)") (simp_all add: live_kind_def kind_of_def live_slot_def)

lemma inv_state:
  assumes sinv: "sinv s Q X" and i: "i < 8" "waits s i = None" "live_kind (p_state (proc_table s ! i))" "live_kind st"
    and cur: "current_ok ((pinfos s)(i := (pinfos s i)\<lparr>pi_kind := kind_of st\<rparr>)) cur"
    and b: "st = PROC_BLOCKED \<Longrightarrow> i \<in> X"
  shows "sinv ((upd_proc i (\<lambda>p. p\<lparr>p_state := st\<rparr>) s)\<lparr>g_current := cur\<rparr>) Q (if st = PROC_BLOCKED then X else X - {i})"
proof -
  let ?s = "(upd_proc i (\<lambda>p. p\<lparr>p_state := st\<rparr>) s)\<lparr>g_current := cur\<rparr>"
  have len: "length (proc_table s) = 8" using inv_len [OF sinv] by simp
  have Q: "queues_are s Q" using sinv by (simp add: sinv_def)
  have "queues_are ?s Q"
    by (rule queues_are_cong [OF Q]) (use len i Q in \<open>auto simp: nexts_def waits_def proc_upd_proc queues_are_def\<close>)
  moreover have "pinfos ?s = (pinfos s)(i := (pinfos s i)\<lparr>pi_kind := kind_of st\<rparr>)"
    using len i by (auto simp: pinfos_def proc_upd_proc pinfo_of_def)
  moreover have "ids_ok ((pinfos s)(i := (pinfos s i)\<lparr>pi_kind := kind_of st\<rparr>)) (ginfos s) cur (g_next_pid s)"
    using sinv i cur by (intro ids_live_kind [of _ _ "g_current s"]) (auto simp: sinv_def live_kind_def pinfos_def pinfo_of_def)
  moreover have "sleepers ?s (if st = PROC_BLOCKED then X else X - {i})"
    using sinv b len i by (auto simp: sinv_def sleepers_def proc_upd_proc waits_def)
  ultimately show ?thesis using sinv by (simp add: sinv_def)
qed

lemma inv_current: "sinv s Q X \<Longrightarrow> current_ok (pinfos s) (g_current s)"
  by (simp add: sinv_def ids_ok_def)

lemma current_ok_rest:
  assumes "current_ok P cur" "i < 8" "k \<noteq> PROC_RUNNING" "k \<noteq> PROC_UNUSED"
  shows "current_ok (P(i := (P i)\<lparr>pi_kind := k\<rparr>)) cur"
  unfolding current_ok_def
proof (intro conjI allI impI)
  fix j
  assume "j < 8" "pi_kind ((P(i := (P i)\<lparr>pi_kind := k\<rparr>)) j) = PROC_RUNNING"
  with assms show "cur = Some j" unfolding current_ok_def by (metis fun_upd_apply pinfo.select_convs(5) pinfo.surjective pinfo.update_convs(5))
next
  fix c
  assume "cur = Some c"
  with assms(1) have "used_slot P c" unfolding current_ok_def by blast
  with assms(4) show "used_slot (P(i := (P i)\<lparr>pi_kind := k\<rparr>)) c" by (simp add: used_slot_def)
qed

lemma inv_rest:
  assumes sinv: "sinv s Q X" and i: "i < 8" "waits s i = None" "live_kind (p_state (proc_table s ! i))"
    and st: "st = PROC_READY \<or> st = PROC_STOPPED \<or> st = PROC_BLOCKED \<and> i \<in> X"
  shows "sinv (upd_proc i (\<lambda>p. p\<lparr>p_state := st\<rparr>) s) Q (if st = PROC_BLOCKED then X else X - {i})"
proof -
  have k: "live_kind st" "st = PROC_BLOCKED \<Longrightarrow> i \<in> X" "kind_of st \<noteq> PROC_RUNNING" "kind_of st \<noteq> PROC_UNUSED"
    using st by (auto simp: kind_of_def)
  have "(upd_proc i (\<lambda>p. p\<lparr>p_state := st\<rparr>) s)\<lparr>g_current := g_current s\<rparr> = upd_proc i (\<lambda>p. p\<lparr>p_state := st\<rparr>) s"
    by (cases s) (simp add: upd_proc_def)
  with inv_state [OF sinv i k(1) current_ok_rest [OF inv_current [OF sinv] i(1) k(3,4)] k(2)] show ?thesis by simp
qed

lemma clear_wait_self:
  assumes sinv: "sinv s Q X" and i: "i < 8"
  shows "waits (sched_clear_wait i s) i = None" "p_state (proc_table (sched_clear_wait i s) ! k) = p_state (proc_table s ! k)"
    "p_group (proc_table (sched_clear_wait i s) ! k) = p_group (proc_table s ! k)"
    "g_current (sched_clear_wait i s) = g_current s" "groups (sched_clear_wait i s) = groups s" "world (sched_clear_wait i s) = world s"
    "pinfos (sched_clear_wait i s) k = pinfos s k"
proof -
  have Q: "queues_are s Q" using sinv by (simp add: sinv_def)
  note r = clear_wait_relinked [OF Q i, unfolded relinked_def]
  show "waits (sched_clear_wait i s) i = None" using r by (simp add: waits_def cleared_def)
  show "g_current (sched_clear_wait i s) = g_current s" "groups (sched_clear_wait i s) = groups s" "world (sched_clear_wait i s) = world s"
    using r by (metis sched.select_convs sched.surjective sched.update_convs(1,3))+
  have "p_state (proc_table (sched_clear_wait i s) ! k) = p_state (proc_table s ! k) \<and>
      p_group (proc_table (sched_clear_wait i s) ! k) = p_group (proc_table s ! k) \<and> pinfos (sched_clear_wait i s) k = pinfos s k"
  proof (cases "k = i")
    case False
    then obtain n where "proc_table (sched_clear_wait i s) ! k = (proc_table s ! k)\<lparr>p_wait_next := n\<rparr>" using r by blast
    then show ?thesis by (simp add: pinfos_def pinfo_of_def)
  qed (use r in \<open>simp add: pinfos_def pinfo_of_def cleared_def\<close>)
  then show "p_state (proc_table (sched_clear_wait i s) ! k) = p_state (proc_table s ! k)"
    "p_group (proc_table (sched_clear_wait i s) ! k) = p_group (proc_table s ! k)"
    "pinfos (sched_clear_wait i s) k = pinfos s k" by auto
qed

lemma inv_mono: "sinv s Q X \<Longrightarrow> X \<subseteq> Y \<Longrightarrow> sinv s Q Y"
  by (auto simp: sinv_def sleepers_def)

lemma inv_drop: "sinv s Q X \<Longrightarrow> p_state (proc_table s ! i) \<noteq> PROC_BLOCKED \<Longrightarrow> sinv s Q (X - {i})"
  by (auto simp: sinv_def sleepers_def)

lemma inv_make_ready:
  assumes sinv: "sinv s Q X" and i: "i < 8"
  shows "sinv (sched_make_ready i s) (\<lambda>q. remove1 i (Q q)) (X - {i})"
proof -
  let ?s = "sched_clear_wait i s"
  note c = inv_clear [OF sinv i] and w = clear_wait_self [OF sinv i]
  show ?thesis
  proof (cases "p_state (proc_table s ! i) = PROC_BLOCKED")
    case True
    with inv_rest [OF c i w(1), of PROC_READY] show ?thesis by (simp add: sched_make_ready_def Let_def w(2))
  next
    case False
    with inv_drop [OF c, of i] show ?thesis by (simp add: sched_make_ready_def Let_def w(2))
  qed
qed

section \<open>Falling asleep\<close>

definition asleep :: "wq \<Rightarrow> nat \<Rightarrow> ('r, 'w) sched \<Rightarrow> ('r, 'w) sched" where
  "asleep q c s = upd_proc c (\<lambda>p. p\<lparr>p_state := PROC_BLOCKED\<rparr>)
     (upd_proc c (\<lambda>p. p\<lparr>p_wait_queue := Some q\<rparr>) (sched_wait_queue_enqueue q c s))"

lemma enqueue_eq:
  assumes q: "queue_is s q xs" and c: "c \<notin> set xs" "c < 8" and len: "length (proc_table s) = 8"
  shows "proc_table (asleep q c s) ! k =
      (if k = c then (proc_table s ! c)\<lparr>p_wait_next := None, p_wait_queue := Some q, p_state := PROC_BLOCKED\<rparr>
       else if last_of xs None = Some k then (proc_table s ! k)\<lparr>p_wait_next := Some c\<rparr> else proc_table s ! k)"
    and "queues (asleep q c s) = (queues s)(q := \<lparr>wq_head = first_of (xs @ [c]) None, wq_tail = Some c\<rparr>)"
    and "groups (asleep q c s) = groups s" "g_current (asleep q c s) = g_current s" "g_next_pid (asleep q c s) = g_next_pid s"
    "length (proc_table (asleep q c s)) = 8"
proof -
  have h: "wq_head (queues s q) = first_of xs None" "wq_tail (queues s q) = last_of xs None" using q by (auto simp: queue_is_def)
  have "last_of xs None \<noteq> Some c" using c by (auto simp: last_of_def split: if_splits)
  moreover have "last_of xs None = Some t \<Longrightarrow> t < 8" for t
    using q by (cases xs rule: rev_cases) (auto simp: queue_is_def)
  ultimately show "proc_table (asleep q c s) ! k =
      (if k = c then (proc_table s ! c)\<lparr>p_wait_next := None, p_wait_queue := Some q, p_state := PROC_BLOCKED\<rparr>
       else if last_of xs None = Some k then (proc_table s ! k)\<lparr>p_wait_next := Some c\<rparr> else proc_table s ! k)"
    using h len c by (cases "last_of xs None") (auto simp: asleep_def sched_wait_queue_enqueue_def Let_def proc_upd_proc)
  show "queues (asleep q c s) = (queues s)(q := \<lparr>wq_head = first_of (xs @ [c]) None, wq_tail = Some c\<rparr>)"
    using h last_of_def [of "tl xs" "Some (hd xs)"] by (cases xs) (auto simp: asleep_def sched_wait_queue_enqueue_def Let_def)
qed (use len in \<open>simp_all add: asleep_def sched_wait_queue_enqueue_def Let_def split: option.splits\<close>)

lemma asleep_queues:
  assumes Q: "queues_are s Q" and c: "c < 8" "waits s c = None"
  shows "queues_are (asleep q c s) (Q(q := Q q @ [c]))"
proof -
  let ?s = "asleep q c s"
  have len: "length (proc_table s) = 8" and qi: "queue_is s p (Q p)" for p using Q by (auto simp: queues_are_def)
  have nc: "c \<notin> set (Q p)" for p using Q c by (auto simp: queues_are_def)
  note e = enqueue_eq [OF qi nc c(1) len]
  have w: "waits ?s k = (if k = c then Some q else waits s k)" for k by (simp add: waits_def e(1))
  have n: "nexts ?s k = (if k = c then None else if last_of (Q q) None = Some k then Some c else nexts s k)" for k
    by (simp add: nexts_def e(1))
  have "queue_is ?s q (Q q @ [c])"
  proof -
    have "links (nexts ?s) (Q q) (Some c)"
    proof (cases "Q q" rule: rev_cases)
      case (snoc xs x)
      have "links (nexts s) (xs @ [x]) None" "x \<notin> set xs" using qi [of q] snoc by (auto simp: queue_is_def)
      moreover have "links (nexts ?s) xs (Some x) = links (nexts s) xs (Some x)"
        using \<open>x \<notin> set xs\<close> nc [of q] snoc by (intro links_cong) (auto simp: n)
      ultimately show ?thesis using snoc nc [of q] by (auto simp: n)
    qed simp
    then show ?thesis using qi [of q] nc [of q] c by (simp add: queue_is_def e(2) n)
  qed
  moreover have "queue_is ?s p (Q p)" if "p \<noteq> q" for p
  proof -
    have "last_of (Q q) None \<noteq> Some k" if "k \<in> set (Q p)" for k
      using that queues_are_disjoint [OF Q \<open>p \<noteq> q\<close>] by (auto simp: last_of_def split: if_splits)
    then have "links (nexts ?s) (Q p) None = links (nexts s) (Q p) None" using nc [of p] by (intro links_cong) (auto simp: n)
    then show ?thesis using qi [of p] that by (simp add: queue_is_def e(2))
  qed
  moreover have "set ((Q(q := Q q @ [c])) p) = {k. k < 8 \<and> waits ?s k = Some p}" for p
    using Q c by (auto simp: queues_are_def w)
  moreover have "p_state (proc_table ?s ! k) = PROC_BLOCKED" if "k < 8" "waits ?s k \<noteq> None" for k
    using Q that by (auto simp: queues_are_def w e(1) split: if_splits)
  ultimately show ?thesis using e(6) by (simp add: queues_are_def)
qed

lemma inv_asleep:
  assumes sinv: "sinv s Q X" and c: "c < 8" "waits s c = None" "live_kind (p_state (proc_table s ! c))"
    and q: "\<And>i. q \<noteq> QState i" "\<And>g. q = QGroup g \<Longrightarrow> g < 8 \<and> gi_live (ginfos s g) \<noteq> 0"
  shows "sinv (asleep q c s) (Q(q := Q q @ [c])) (X - {c})"
proof -
  let ?s = "asleep q c s"
  have Q: "queues_are s Q" using sinv by (simp add: sinv_def)
  then have len: "length (proc_table s) = 8" "queue_is s q (Q q)" "c \<notin> set (Q q)" using c by (auto simp: queues_are_def)
  note e = enqueue_eq [OF len(2,3) c(1) len(1)]
  have "pinfos ?s k = ((pinfos s)(c := (pinfos s c)\<lparr>pi_kind := PROC_READY\<rparr>)) k" for k
    by (auto simp: pinfos_def pinfo_of_def e(1) kind_of_def)
  then have p: "pinfos ?s = (pinfos s)(c := (pinfos s c)\<lparr>pi_kind := PROC_READY\<rparr>)" by blast
  have g: "ginfos ?s = ginfos s" by (simp add: ginfos_def [abs_def] e(3))
  have "ids_ok (pinfos ?s) (ginfos s) (g_current s) (g_next_pid s)" unfolding p
    using sinv c by (intro ids_live_kind [of _ _ "g_current s"] current_ok_rest inv_current [OF sinv])
      (auto simp: sinv_def live_kind_def pinfos_def pinfo_of_def)
  moreover have "sleepers ?s (X - {c})" using sinv by (auto simp: sinv_def sleepers_def e(1) waits_def)
  moreover note asleep_queues [OF Q c(1,2), of q]
  ultimately show ?thesis using sinv q by (auto simp: sinv_def g e)
qed

lemma inv_block:
  assumes sinv: "sinv s Q {}" and c: "g_current s = Some c" "live_slot s c"
    and q: "\<And>i. q \<noteq> QState i" "\<And>g. q = QGroup g \<Longrightarrow> g < 8 \<and> gi_live (ginfos s g) \<noteq> 0"
  shows "sched_inv (sched_block (Some q) s)"
proof -
  have c8: "c < 8" using inv_current [OF sinv] c by (auto simp: current_ok_def used_slot_def)
  let ?s = "sched_clear_wait c s"
  note w = clear_wait_self [OF sinv c8]
  have "ginfos ?s = ginfos s" by (simp add: ginfos_def [abs_def] w(5))
  then have "sinv (asleep q c ?s) ((\<lambda>q. remove1 c (Q q))(q := remove1 c (Q q) @ [c])) (insert c {} - {c})"
    using q c w(1,2) by (intro inv_asleep [OF inv_clear [OF sinv c8] c8]) (auto simp: live_kind_slot live_slot_def)
  moreover have "sched_block (Some q) s = asleep q c ?s" by (simp add: sched_block_def c asleep_def Let_def)
  ultimately show ?thesis by (auto simp: sched_inv_def)
qed

lemma inv_block_until:
  assumes sinv: "sinv s Q {}" and c: "g_current s = Some c" "live_slot s c"
  shows "sched_inv (sched_block_until d s)"
proof -
  have c8: "c < 8" using inv_current [OF sinv] c by (auto simp: current_ok_def used_slot_def)
  let ?s = "sched_clear_wait c s" and ?t = "upd_proc c (\<lambda>p. p\<lparr>p_state := PROC_BLOCKED\<rparr>) (sched_clear_wait c s)"
  note w = clear_wait_self [OF sinv c8]
  have i: "sinv ?t (\<lambda>q. remove1 c (Q q)) {c}"
    using inv_rest [OF inv_clear [OF sinv c8] c8 w(1), of PROC_BLOCKED] c by (simp add: w(2) live_kind_slot live_slot_def)
  let ?u = "upd_proc c (\<lambda>p. p\<lparr>p_wait_deadline := d, p_wait_deadline_set := True, p_state := PROC_BLOCKED\<rparr>) ?s"
  have len: "length (proc_table ?s) = 8" using inv_len [OF i] by simp
  have "sinv ?u (\<lambda>q. remove1 c (Q q)) {}"
    unfolding sinv_def
  proof (intro conjI)
    show "queues_are ?u (\<lambda>q. remove1 c (Q q))"
      by (rule queues_are_cong [of ?t]) (use i len in \<open>auto simp: sinv_def nexts_def waits_def proc_upd_proc queues_are_def\<close>)
    have "pinfos ?u = pinfos ?t" by (auto simp: pinfos_def proc_upd_proc pinfo_of_def)
    then show "ids_ok (pinfos ?u) (ginfos ?u) (g_current ?u) (g_next_pid ?u)" using i by (simp add: sinv_def)
    show "sleepers ?u {}" using i c8 len by (auto simp: sinv_def sleepers_def proc_upd_proc waits_def)
  qed (use i in \<open>auto simp: sinv_def\<close>)
  then show ?thesis using c by (auto simp: sched_inv_def sched_block_until_def)
qed

end
