(* ===== verification/Sched_Steps.thy ===== *)
theory Sched_Steps
  imports Sched_Inv
begin

text \<open>
  The scheduler as a transition system: every operation of kernel/proc/sched.c keeps the invariant,
  and so does every sequence of interrupts and system calls.
\<close>

section \<open>Releases and wake-ups\<close>

text \<open>An operation that only wakes tasks and changes resources.\<close>

definition quiet :: "('r, 'w) sched \<Rightarrow> ('r, 'w) sched \<Rightarrow> bool" where
  "quiet s s' \<longleftrightarrow> groups s' = groups s \<and> g_current s' = g_current s \<and> g_next_pid s' = g_next_pid s \<and>
     (\<forall>k < 8. pinfos s' k = pinfos s k \<and> p_exit_status (proc_table s' ! k) = p_exit_status (proc_table s ! k) \<and>
        (waits s k = None \<longrightarrow> waits s' k = None \<and> p_state (proc_table s' ! k) = p_state (proc_table s ! k)))"

lemma quiet_refl [simp]: "quiet s s"
  by (simp add: quiet_def)

lemma quiet_trans: "quiet s s' \<Longrightarrow> quiet s' s'' \<Longrightarrow> quiet s s''"
  by (auto simp: quiet_def)

lemma quiet_wake:
  assumes sinv: "sinv s Q X"
  shows "quiet s (sched_wake_all q s)"
proof -
  have Q: "queues_are s Q" using sinv by (simp add: sinv_def)
  have len: "length (proc_table s) = 8" using inv_len [OF sinv] by simp
  note e = sched_wake_all_eq [OF Q, of q]
  have b: "p_state (proc_table s ! k) = PROC_BLOCKED" "waits s k = Some q" if "k \<in> set (Q q)" for k using Q that by (auto simp: queues_are_def)
  show ?thesis using len b by (auto simp: quiet_def e pinfos_def wake_slots_nth woken_def pinfo_of_def kind_of_def waits_def)
qed

lemma quiet_on_res: "i < 8 \<Longrightarrow> length (proc_table s) = 8 \<Longrightarrow> quiet s (on_res i f s)"
  by (auto simp: quiet_def on_res_def proc_upd_proc pinfos_def pinfo_of_def waits_def split: prod.splits)

definition no_group_loss :: "(wq \<Rightarrow> nat list) \<Rightarrow> (wq \<Rightarrow> nat list) \<Rightarrow> bool" where
  "no_group_loss Q Q' \<longleftrightarrow> (\<forall>g. Q' (QGroup g) = Q (QGroup g))"

lemma inv_wake_list:
  "sinv s Q X \<Longrightarrow> \<exists>Q'. sinv (fold (\<lambda>n. sched_wake_all (QExt n)) ns s) Q' X \<and> no_group_loss Q Q' \<and> quiet s (fold (\<lambda>n. sched_wake_all (QExt n)) ns s)"
proof (induction ns arbitrary: s Q)
  case Nil
  then show ?case by (auto simp: no_group_loss_def)
next
  case (Cons n ns)
  from Cons.IH [OF inv_wake [OF Cons.prems, of "QExt n"]]
  obtain Q' where Q': "sinv (fold (\<lambda>n. sched_wake_all (QExt n)) ns (sched_wake_all (QExt n) s)) Q' X" "no_group_loss (Q(QExt n := [])) Q'"
    "quiet (sched_wake_all (QExt n) s) (fold (\<lambda>n. sched_wake_all (QExt n)) ns (sched_wake_all (QExt n) s))" by blast
  then show ?case using quiet_trans [OF quiet_wake [OF Cons.prems, of "QExt n"]] by (auto simp: no_group_loss_def)
qed

lemma inv_put_res:
  assumes sinv: "sinv s Q X" and i: "i < 8"
  shows "\<exists>Q'. sinv (put_res i f s) Q' X \<and> no_group_loss Q Q' \<and> quiet s (put_res i f s)"
proof -
  obtain r w ns where f: "f (p_res (proc_table s ! i)) (world s) = (r, w, ns)" by (cases "f (p_res (proc_table s ! i)) (world s)") auto
  let ?s = "upd_proc i (\<lambda>p. p\<lparr>p_res := r\<rparr>) (s\<lparr>world := w\<rparr>)"
  have q: "quiet s ?s" using i inv_len [OF sinv] by (auto simp: quiet_def proc_upd_proc pinfos_def pinfo_of_def waits_def)
  have "sinv ?s Q X" by (intro inv_proc inv_other sinv) simp
  from inv_wake_list [OF this, of ns] show ?thesis using quiet_trans [OF q] by (auto simp: put_res_def f)
qed

section \<open>Switching\<close>

lemma pick_next_ready:
  assumes "sched_pick_next s = Some n"
  shows "n < 8" "p_state (proc_table s ! n) = PROC_READY"
proof -
  let ?c = "(case g_current s of Some i \<Rightarrow> int i | None \<Rightarrow> - 1)"
  obtain i where i: "find (\<lambda>i. p_state (proc_table s ! nat ((?c + int i) mod 8)) = PROC_READY) [1..<9] = Some i"
    "n = nat ((?c + int i) mod 8)" using assms by (auto simp: sched_pick_next_def MAX_PROCS_def Let_def simp del: upt_rec_numeral)
  from find_Some_iff [THEN iffD1, OF i(1)] i(2) show "p_state (proc_table s ! n) = PROC_READY" by auto
  show "n < 8" using i(2) by simp
qed

lemma inv_waits_ready: "sinv s Q X \<Longrightarrow> k < 8 \<Longrightarrow> p_state (proc_table s ! k) \<noteq> PROC_BLOCKED \<Longrightarrow> waits s k = None"
  by (auto simp: sinv_def queues_are_def)

lemma current_ok_run:
  assumes "current_ok P cur" "n < 8" "\<forall>k < 8. pi_kind (P k) = PROC_RUNNING \<longrightarrow> k = n"
  shows "current_ok (P(n := (P n)\<lparr>pi_kind := PROC_RUNNING\<rparr>)) (Some n)"
  using assms(2,3) unfolding current_ok_def used_slot_def by auto

lemma inv_run:
  assumes sinv: "sinv s Q {}" and n: "n < 8" "p_state (proc_table s ! n) = PROC_READY"
    and r: "\<forall>k < 8. p_state (proc_table s ! k) = PROC_RUNNING \<longrightarrow> k = n"
  shows "sinv ((upd_proc n (\<lambda>p. p\<lparr>p_state := PROC_RUNNING\<rparr>) s)\<lparr>g_current := Some n\<rparr>) Q {}"
proof -
  have "\<forall>k < 8. pi_kind (pinfos s k) = PROC_RUNNING \<longrightarrow> k = n"
    using r by (auto simp: pinfos_def pinfo_of_def kind_of_def split: if_splits)
  from current_ok_run [OF inv_current [OF sinv] n(1) this]
  have "current_ok ((pinfos s)(n := (pinfos s n)\<lparr>pi_kind := kind_of PROC_RUNNING\<rparr>)) (Some n)" by (simp add: kind_of_def)
  from inv_state [OF sinv n(1) inv_waits_ready [OF sinv n(1)] _ _ this] n(2) show ?thesis by simp
qed

lemma running_current: "sinv s Q X \<Longrightarrow> k < 8 \<Longrightarrow> p_state (proc_table s ! k) = PROC_RUNNING \<Longrightarrow> g_current s = Some k"
  using inv_current [of s Q X] by (auto simp: current_ok_def pinfos_def pinfo_of_def kind_of_def)

lemma inv_switch_to:
  assumes sinv: "sinv s Q {}" and n: "n < 8" "p_state (proc_table s ! n) = PROC_READY"
  shows "sinv (snd (switch_to M n s)) Q {}"
proof (cases "g_current s = Some n")
  case True
  then have r: "\<forall>k < 8. p_state (proc_table s ! k) = PROC_RUNNING \<longrightarrow> k = n" using running_current [OF sinv] by auto
  have "(upd_proc n (\<lambda>p. p\<lparr>p_state := PROC_RUNNING\<rparr>) s)\<lparr>g_current := Some n\<rparr> = upd_proc n (\<lambda>p. p\<lparr>p_state := PROC_RUNNING\<rparr>) s"
    using True by (cases s) (simp add: upd_proc_def)
  with inv_run [OF sinv n r] True show ?thesis by (simp add: switch_to_def)
next
  case False
  define s1 where "s1 = (case g_current s of
      Some prev \<Rightarrow> if p_state (proc_table s ! prev) \<noteq> PROC_ZOMBIE then on_res prev (mc_fpu_save M) s else s | None \<Rightarrow> s)"
  define s2 where "s2 = (case g_current s of
      Some prev \<Rightarrow> if p_state (proc_table s1 ! prev) = PROC_RUNNING then upd_proc prev (\<lambda>p. p\<lparr>p_state := PROC_READY\<rparr>) s1 else s1 | None \<Rightarrow> s1)"
  have i1: "sinv s1 Q {}" using sinv by (auto simp: s1_def inv_on_res split: option.splits)
  have c8: "prev < 8" if "g_current s = Some prev" for prev using inv_current [OF sinv] that by (auto simp: current_ok_def used_slot_def)
  have st1: "p_state (proc_table s1 ! k) = p_state (proc_table s ! k)" "g_current s1 = g_current s" for k
    by (auto simp: s1_def on_res_def proc_upd_proc split: option.splits prod.splits)
  have i2: "sinv s2 Q {}"
  proof (cases "g_current s")
    case (Some prev)
    then show ?thesis using i1 inv_rest [OF i1 c8 [OF Some] inv_waits_ready [OF i1 c8 [OF Some]], of PROC_READY] by (auto simp: s2_def)
  qed (use i1 in \<open>simp add: s2_def\<close>)
  have st2: "p_state (proc_table s2 ! n) = PROC_READY" using n(2) False st1
    by (auto simp: s2_def proc_upd_proc split: option.splits)
  have "p_state (proc_table s2 ! k) \<noteq> PROC_RUNNING" if "k < 8" for k
    using running_current [OF i1 that] st1 inv_len [OF i1] that by (auto simp: s2_def proc_upd_proc split: option.splits)
  then have i3: "sinv ((upd_proc n (\<lambda>p. p\<lparr>p_state := PROC_RUNNING\<rparr>) s2)\<lparr>g_current := Some n\<rparr>) Q {}" using inv_run [OF i2 n(1) st2] by blast
  have e: "(upd_proc n (\<lambda>p. p\<lparr>p_state := PROC_RUNNING\<rparr>) (s2\<lparr>g_current := Some n\<rparr>)) = (upd_proc n (\<lambda>p. p\<lparr>p_state := PROC_RUNNING\<rparr>) s2)\<lparr>g_current := Some n\<rparr>"
    by (cases s2) (simp add: upd_proc_def)
  show ?thesis using False inv_other(1) [OF i3] by (simp add: switch_to_def Let_def e flip: s1_def s2_def)
qed

section \<open>Exit\<close>

text \<open>The part of the invariant that does not look at the counts of the groups.\<close>

definition qinv :: "('r, 'w) sched \<Rightarrow> (wq \<Rightarrow> nat list) \<Rightarrow> nat set \<Rightarrow> bool" where
  "qinv s Q X \<longleftrightarrow> length (groups s) = 8 \<and> queues_are s Q \<and> (\<forall>i. Q (QState i) = []) \<and> sleepers s X"

definition gq_ok :: "(nat \<Rightarrow> ginfo) \<Rightarrow> (wq \<Rightarrow> nat list) \<Rightarrow> bool" where
  "gq_ok G Q \<longleftrightarrow> (\<forall>g. Q (QGroup g) \<noteq> [] \<longrightarrow> g < 8 \<and> gi_live (G g) \<noteq> 0)"

lemma inv_qinv:
  "sinv s Q X \<longleftrightarrow> qinv s Q X \<and> gq_ok (ginfos s) Q \<and> ids_ok (pinfos s) (ginfos s) (g_current s) (g_next_pid s)"
  by (auto simp: sinv_def qinv_def gq_ok_def)

lemma qinv_wake:
  assumes q: "qinv s Q X"
  shows "qinv (sched_wake_all q s) (Q(q := [])) X" "quiet s (sched_wake_all q s)"
proof -
  have Q: "queues_are s Q" and len: "length (proc_table s) = 8" using q by (auto simp: qinv_def queues_are_def)
  note e = sched_wake_all_eq [OF Q, of q]
  have b: "p_state (proc_table s ! k) = PROC_BLOCKED" "waits s k = Some q" if "k \<in> set (Q q)" for k using Q that by (auto simp: queues_are_def)
  show "quiet s (sched_wake_all q s)"
    using len b by (auto simp: quiet_def e pinfos_def wake_slots_nth woken_def pinfo_of_def kind_of_def waits_def)
  have "sleepers (sched_wake_all q s) X"
    using q len by (auto simp: e qinv_def sleepers_def wake_slots_nth woken_def waits_def)
  with sched_wake_all_queues [OF Q, of q] show "qinv (sched_wake_all q s) (Q(q := [])) X" using q by (auto simp: qinv_def e)
qed

lemma wake_group_loop:
  "qinv s Q X \<Longrightarrow>
   \<exists>Q'. qinv (fold (\<lambda>i s. if p_group (proc_table s ! i) = Some g \<and> p_state (proc_table s ! i) = PROC_ZOMBIE
         then sched_wake_all (QState i) s else s) is s) Q' X \<and> no_group_loss Q Q' \<and>
     quiet s (fold (\<lambda>i s. if p_group (proc_table s ! i) = Some g \<and> p_state (proc_table s ! i) = PROC_ZOMBIE
         then sched_wake_all (QState i) s else s) is s)"
proof (induction "is" arbitrary: s Q)
  case Nil
  then show ?case by (auto simp: no_group_loss_def)
next
  case (Cons i js)
  show ?case
  proof (cases "p_group (proc_table s ! i) = Some g \<and> p_state (proc_table s ! i) = PROC_ZOMBIE")
    case True
    note w = qinv_wake [OF Cons.prems, of "QState i"]
    show ?thesis using Cons.IH [OF w(1)] True quiet_trans [OF w(2)] by (auto simp: no_group_loss_def)
  next
    case False
    then show ?thesis using Cons.IH [OF Cons.prems] by auto
  qed
qed

lemma qinv_wake_group:
  assumes "qinv s Q X"
  shows "\<exists>Q'. qinv (sched_wake_group_waiters g s) Q' X \<and> Q' (QGroup g) = [] \<and> (\<forall>h. h \<noteq> g \<longrightarrow> Q' (QGroup h) = Q (QGroup h)) \<and>
    quiet s (sched_wake_group_waiters g s)"
proof -
  note w = qinv_wake [OF assms, of "QGroup g"]
  from wake_group_loop [OF w(1), of g "[0..<MAX_PROCS]"] show ?thesis
    unfolding sched_wake_group_waiters_def no_group_loss_def using quiet_trans [OF w(2)] by fastforce
qed

lemma qinv_group_upd: "qinv s Q X \<Longrightarrow> qinv (upd_group g f s) Q X"
proof -
  assume q: "qinv s Q X"
  then have Q: "queues_are s Q" by (simp add: qinv_def)
  have "queues_are (upd_group g f s) Q"
    by (rule queues_are_cong [OF Q]) (use Q in \<open>auto simp: nexts_def waits_def queues_are_def\<close>)
  with q show ?thesis by (simp add: qinv_def sleepers_def waits_def)
qed

lemma qinv_slot:
  assumes q: "qinv s Q X" and c: "c < 8" "waits s c = None"
    and f: "\<And>p. p_wait_queue (f p) = p_wait_queue p \<or> p_wait_queue (f p) = None" "\<And>p. p_state (f p) \<noteq> PROC_BLOCKED"
  shows "qinv (upd_proc c f s) Q (X - {c})"
proof -
  let ?s = "upd_proc c f s"
  have len: "length (proc_table s) = 8" and Q: "queues_are s Q" using q by (auto simp: qinv_def queues_are_def)
  have w: "waits ?s k = waits s k" for k using f(1) [of "proc_table s ! c"] c by (auto simp: waits_def proc_upd_proc)
  have m: "c \<notin> set (Q q)" for q using Q c by (auto simp: queues_are_def)
  have "links (nexts ?s) (Q q) None = links (nexts s) (Q q) None" for q
    using m by (intro links_cong) (auto simp: nexts_def proc_upd_proc)
  moreover have "queue_is s q (Q q)" for q using Q by (simp add: queues_are_def)
  ultimately have "queue_is ?s q (Q q)" for q by (simp add: queue_is_def)
  moreover have "p_state (proc_table ?s ! k) = PROC_BLOCKED" if "k < 8" "waits s k \<noteq> None" for k
    using that Q c by (auto simp: proc_upd_proc queues_are_def)
  ultimately have "queues_are ?s Q" using Q len by (auto simp: queues_are_def w)
  moreover have "sleepers ?s (X - {c})" using q f(2) len by (auto simp: qinv_def sleepers_def proc_upd_proc w)
  ultimately show ?thesis using q by (simp add: qinv_def)
qed

lemma qinv_zombie:
  "qinv s Q X \<Longrightarrow> c < 8 \<Longrightarrow> waits s c = None \<Longrightarrow> qinv (upd_proc c (\<lambda>p. p\<lparr>p_state := PROC_ZOMBIE\<rparr>) s) Q (X - {c})"
  by (rule qinv_slot) auto

text \<open>The state in which the current task runs.\<close>

definition runs :: "('r, 'w) sched \<Rightarrow> nat \<Rightarrow> bool" where
  "runs s c \<longleftrightarrow> sched_inv s \<and> g_current s = Some c \<and> p_state (proc_table s ! c) = PROC_RUNNING"

lemma current_slot: "sinv s Q X \<Longrightarrow> g_current s = Some c \<Longrightarrow> c < 8"
  using inv_current [of s Q X] by (auto simp: current_ok_def used_slot_def)

lemma slot_group:
  assumes "sinv s Q X" "i < 8" "p_state (proc_table s ! i) \<noteq> PROC_UNUSED"
  obtains g where "p_group (proc_table s ! i) = Some g" "g < 8" "tg_tgid (groups s ! g) = p_tgid (proc_table s ! i)"
proof -
  have "used_slot (pinfos s) i" using assms(2,3) by (simp add: used_slot_def pinfos_def pinfo_of_def kind_of_def)
  then obtain g where "g < 8" "pi_group (pinfos s i) = Some g" "gi_tgid (ginfos s g) = pi_tgid (pinfos s i)"
    using assms(1) unfolding sinv_def ids_ok_def slots_ok_def by blast
  then show thesis by (intro that) (simp_all add: pinfos_def pinfo_of_def ginfos_def ginfo_of_def)
qed

lemma quiet_running:
  assumes q: "quiet s s'" and sinv: "sinv s Q X" and c: "c < 8" "p_state (proc_table s ! c) \<noteq> PROC_BLOCKED"
  shows "waits s' c = None" "p_state (proc_table s' ! c) = p_state (proc_table s ! c)"
    "p_exit_status (proc_table s' ! c) = p_exit_status (proc_table s ! c)" "p_group (proc_table s' ! c) = p_group (proc_table s ! c)"
proof -
  have "waits s c = None" using inv_waits_ready [OF sinv c] .
  with q c show "waits s' c = None" "p_state (proc_table s' ! c) = p_state (proc_table s ! c)"
    "p_exit_status (proc_table s' ! c) = p_exit_status (proc_table s ! c)" by (auto simp: quiet_def)
  have "pinfos s' c = pinfos s c" using q c by (simp add: quiet_def)
  then show "p_group (proc_table s' ! c) = p_group (proc_table s ! c)" by (simp add: pinfos_def pinfo_of_def)
qed

definition exit_tail :: "nat \<Rightarrow> nat \<Rightarrow> ('r, 'w) sched \<Rightarrow> ('r, 'w) sched" where
  "exit_tail c g s =
     (let s4 = task_group_remove_task (Some g) s;
          s5 = (if task_group_live_count (Some g) s4 = 0
             then sched_wake_group_waiters g
               (if tg_group_exit (groups s4 ! g) then s4
                else upd_group g (\<lambda>x. x\<lparr>tg_exit_status := p_exit_status (proc_table s4 ! c)\<rparr>) s4)
             else s4);
          s6 = upd_proc c (\<lambda>p. p\<lparr>p_state := PROC_ZOMBIE\<rparr>) s5
      in if task_group_live_count (Some g) s6 = 0 then sched_wake_all (QState c) s6 else s6)"

lemma ginfos_upd:
  "length (groups s) = 8 \<Longrightarrow> g < 8 \<Longrightarrow> ginfos (upd_group g f s) = (ginfos s)(g := ginfo_of (f (groups s ! g)))"
  by (auto simp: ginfos_def group_upd_group)

lemma quiet_infos: "quiet s s' \<Longrightarrow> ginfos s' = ginfos s" "quiet s s' \<Longrightarrow> k < 8 \<Longrightarrow> pinfos s' k = pinfos s k"
  "quiet s s' \<Longrightarrow> g_current s' = g_current s" "quiet s s' \<Longrightarrow> g_next_pid s' = g_next_pid s"
  by (simp_all add: quiet_def ginfos_def [abs_def])

lemma quiet_proc: "quiet s s' \<Longrightarrow> waits s k = None \<Longrightarrow> k < 8 \<Longrightarrow> waits s' k = None \<and> p_state (proc_table s' ! k) = p_state (proc_table s ! k)"
  by (auto simp: quiet_def)

lemma exit_wake:
  assumes q4: "qinv s4 Q {}" and qt: "qinv t Q {}" and g4: "ginfos s4 = G" and gt: "ginfos t = G"
    and gq: "\<forall>h. Q (QGroup h) \<noteq> [] \<longrightarrow> h < 8 \<and> (h \<noteq> g \<longrightarrow> gi_live (G h) \<noteq> 0)"
    and pt: "proc_table s4 = proc_table s \<and> proc_table t = proc_table s \<and> g_current t = g_current s \<and> g_next_pid t = g_next_pid s \<and>
      g_current s4 = g_current s \<and> g_next_pid s4 = g_next_pid s"
    and c8: "c < 8" and wc: "waits s c = None"
  shows "\<exists>Q5. let s5 = (if gi_live (G g) = 0 then sched_wake_group_waiters g t else s4) in
    qinv s5 Q5 {} \<and> gq_ok G Q5 \<and> ginfos s5 = G \<and> (\<forall>k < 8. pinfos s5 k = pinfos s k) \<and> g_current s5 = g_current s \<and>
      g_next_pid s5 = g_next_pid s \<and> waits s5 c = None"
proof (cases "gi_live (G g) = 0")
  case True
  obtain Q5 where Q5: "qinv (sched_wake_group_waiters g t) Q5 {}" "Q5 (QGroup g) = []"
    "\<forall>h. h \<noteq> g \<longrightarrow> Q5 (QGroup h) = Q (QGroup h)" "quiet t (sched_wake_group_waiters g t)"
    using qinv_wake_group [OF qt, of g] by blast
  have "gq_ok G Q5" using gq Q5(2,3) unfolding gq_ok_def by metis
  moreover have "waits t c = None" using wc pt by (simp add: waits_def)
  ultimately show ?thesis using True Q5 quiet_infos [OF Q5(4)] quiet_proc [OF Q5(4) _ c8] gt pt
    by (intro exI [of _ Q5]) (auto simp: pinfos_def)
next
  case False
  have "gq_ok G Q" using gq False unfolding gq_ok_def by metis
  then show ?thesis using False q4 g4 pt wc by (intro exI [of _ Q]) (auto simp: pinfos_def waits_def)
qed

lemma inv_exit_tail:
  assumes sinv: "sinv s Q {}" and c: "g_current s = Some c" "p_state (proc_table s ! c) = PROC_RUNNING"
    and g: "p_group (proc_table s ! c) = Some g"
  shows "sched_inv (exit_tail c g s)" "g_current (exit_tail c g s) = Some c"
    "p_state (proc_table (exit_tail c g s) ! c) = PROC_ZOMBIE"
proof -
  have c8: "c < 8" using current_slot [OF sinv c(1)] .
  have wc: "waits s c = None" using inv_waits_ready [OF sinv c8] c(2) by simp
  have k: "pi_kind (pinfos s c) \<in> {PROC_READY, PROC_RUNNING}" "pi_group (pinfos s c) = Some g"
    using c(2) g by (simp_all add: pinfos_def pinfo_of_def kind_of_def)
  have ids: "ids_ok (pinfos s) (ginfos s) (g_current s) (g_next_pid s)" using sinv by (simp add: sinv_def)
  note z = ids_zombie [OF ids c8 k]
  have qi: "qinv s Q {}" using sinv by (simp add: inv_qinv)
  define s4 where "s4 = upd_group g (\<lambda>x. x\<lparr>tg_live_tasks := tg_live_tasks x - 1\<rparr>) s"
  have "gi_live (ginfos s g) \<noteq> 0" using z(2,3) by (auto simp: card_gt_0_iff)
  then have r4: "task_group_remove_task (Some g) s = s4"
    by (simp add: task_group_remove_task_def s4_def ginfos_def ginfo_of_def word_gt_0)
  define G where "G = (ginfos s)(g := (ginfos s g)\<lparr>gi_live := gi_live (ginfos s g) - 1\<rparr>)"
  have g4: "ginfos s4 = G" using inv_len [OF sinv] z(4) by (simp add: s4_def ginfos_upd G_def) (simp add: ginfos_def ginfo_of_def)
  define t where "t = (if tg_group_exit (groups s4 ! g) then s4
      else upd_group g (\<lambda>x. x\<lparr>tg_exit_status := p_exit_status (proc_table s4 ! c)\<rparr>) s4)"
  have q4: "qinv s4 Q {}" and qt: "qinv t Q {}" by (auto simp: s4_def t_def intro!: qinv_group_upd qi)
  have gt: "ginfos t = G" using g4 inv_len [OF sinv] z(4) by (auto simp: t_def ginfos_upd) (auto simp: s4_def ginfos_def ginfo_of_def fun_eq_iff group_upd_group)
  have pt: "proc_table s4 = proc_table s" "proc_table t = proc_table s" "g_current t = g_current s" "g_next_pid t = g_next_pid s"
     "g_current s4 = g_current s" "g_next_pid s4 = g_next_pid s"
    by (auto simp: s4_def t_def)
  define s5 where "s5 = (if gi_live (G g) = 0 then sched_wake_group_waiters g t else s4)"
  have "gq_ok (ginfos s) Q" using sinv by (simp add: inv_qinv)
  then have gq: "\<forall>h. Q (QGroup h) \<noteq> [] \<longrightarrow> h < 8 \<and> (h \<noteq> g \<longrightarrow> gi_live (G h) \<noteq> 0)" by (auto simp: gq_ok_def G_def)
  from exit_wake [OF q4 qt g4 gt gq _ c8 wc, unfolded Let_def] pt
  have "\<exists>Q5. qinv s5 Q5 {} \<and> gq_ok G Q5 \<and> ginfos s5 = G \<and> (\<forall>k < 8. pinfos s5 k = pinfos s k) \<and> g_current s5 = g_current s \<and>
      g_next_pid s5 = g_next_pid s \<and> waits s5 c = None" unfolding s5_def by simp
  then obtain Q5 where s5: "qinv s5 Q5 {}" "gq_ok G Q5" "ginfos s5 = G" "\<forall>k < 8. pinfos s5 k = pinfos s k" "g_current s5 = g_current s"
    "g_next_pid s5 = g_next_pid s" "waits s5 c = None" by blast
  define s6 where "s6 = upd_proc c (\<lambda>p. p\<lparr>p_state := PROC_ZOMBIE\<rparr>) s5"
  have len5: "length (proc_table s5) = 8" using s5(1) by (simp add: qinv_def queues_are_def)
  have p6: "pinfos s6 k = ((pinfos s)(c := (pinfos s c)\<lparr>pi_kind := PROC_ZOMBIE\<rparr>)) k" if "k < 8" for k
    using that s5(4) len5 c8 by (auto simp: s6_def pinfos_def proc_upd_proc pinfo_of_def kind_of_def)
  have i6: "sinv s6 Q5 {}" unfolding inv_qinv
  proof (intro conjI)
    show "qinv s6 Q5 {}" using qinv_zombie [OF s5(1) c8 s5(7)] by (simp add: s6_def)
    show "gq_ok (ginfos s6) Q5" using s5(2,3) by (simp add: s6_def)
    show "ids_ok (pinfos s6) (ginfos s6) (g_current s6) (g_next_pid s6)"
      using ids_ok_cong [OF p6 _ z(1)] s5 by (auto simp: s6_def G_def)
  qed
  have st6: "p_state (proc_table s6 ! c) = PROC_ZOMBIE" using c8 len5 by (simp add: s6_def proc_upd_proc)
  have live: "task_group_live_count (Some g) s6 = gi_live (G g)" "task_group_live_count (Some g) s4 = gi_live (G g)"
    using s5(3) g4 by (simp_all add: task_group_live_count_def s6_def ginfos_def [abs_def] ginfo_of_def fun_eq_iff) (metis ginfo.select_convs(4))+
  have e: "exit_tail c g s = (if gi_live (G g) = 0 then sched_wake_all (QState c) s6 else s6)"
    unfolding exit_tail_def r4 Let_def live(2) t_def [symmetric] s5_def [symmetric] s6_def [symmetric] live(1) ..
  note w = quiet_wake [OF i6, of "QState c"]
  show "sched_inv (exit_tail c g s)" using i6 inv_wake [OF i6, of "QState c"] by (auto simp: e sched_inv_def)
  show "g_current (exit_tail c g s) = Some c" using w s5(5) c(1) by (auto simp: e quiet_def s6_def)
  show "p_state (proc_table (exit_tail c g s) ! c) = PROC_ZOMBIE"
    using quiet_running(2) [OF w i6 c8] st6 by (auto simp: e)
qed

lemma inv_mark_exit:
  assumes run: "runs s c"
  shows "sched_inv (sched_mark_exit M s)" "g_current (sched_mark_exit M s) = Some c"
    "p_state (proc_table (sched_mark_exit M s) ! c) = PROC_ZOMBIE"
proof -
  obtain Q where sinv: "sinv s Q {}" and c: "g_current s = Some c" "p_state (proc_table s ! c) = PROC_RUNNING"
    using run by (auto simp: runs_def sched_inv_def)
  have c8: "c < 8" using current_slot [OF sinv c(1)] .
  obtain g where g: "p_group (proc_table s ! c) = Some g" "g < 8" by (rule slot_group [OF sinv c8]) (use c(2) in simp_all)
  define s1 where "s1 = (if tg_group_exit (groups s ! g)
      then upd_proc c (\<lambda>p. p\<lparr>p_exit_status := tg_exit_status (groups s ! g)\<rparr>) s else s)"
  define s2 where "s2 = (if p_clear_child_tid (proc_table s1 ! c) \<noteq> 0
      then on_res c (\<lambda>r. mc_clear_tid M r (p_clear_child_tid (proc_table s1 ! c))) s1 else s1)"
  define s3 where "s3 = console_runtime_release_process (p_pid (proc_table s2 ! c)) s2"
  have i1: "sinv s1 Q {}" using sinv by (auto simp: s1_def same_proc_def pinfo_of_def intro!: inv_proc)
  have i2: "sinv s2 Q {}" using i1 by (auto simp: s2_def intro!: inv_on_res)
  have i3: "sinv s3 Q {}" using i2 by (auto simp: s3_def console_runtime_release_process_def intro!: inv_other)
  have k3: "g_current s3 = Some c" "p_state (proc_table s3 ! c) = PROC_RUNNING" "p_group (proc_table s3 ! c) = Some g"
    using c g by (auto simp: s3_def s2_def s1_def console_runtime_release_process_def on_res_def proc_upd_proc split: prod.splits)
  obtain Q4 where i4: "sinv (put_res c (mc_put_files M) s3) Q4 {}" "quiet s3 (put_res c (mc_put_files M) s3)"
    using inv_put_res [OF i3 c8] by blast
  have k4: "g_current (put_res c (mc_put_files M) s3) = Some c" using i4(2) k3 by (simp add: quiet_def)
  note r4 = quiet_running [OF i4(2) i3 c8]
  have e: "sched_mark_exit M s = exit_tail c g (put_res c (mc_put_files M) s3)"
    unfolding sched_mark_exit_def c option.case Let_def g option.case s1_def [symmetric] s2_def [symmetric] s3_def [symmetric] exit_tail_def
    by simp
  show "sched_inv (sched_mark_exit M s)" "g_current (sched_mark_exit M s) = Some c"
    "p_state (proc_table (sched_mark_exit M s) ! c) = PROC_ZOMBIE"
    unfolding e using inv_exit_tail [OF i4(1) k4] r4 k3 by simp_all
qed

lemma runsE:
  assumes "runs s c"
  obtains Q where "sinv s Q {}" "g_current s = Some c" "p_state (proc_table s ! c) = PROC_RUNNING" "c < 8"
  using assms current_slot unfolding runs_def sched_inv_def by blast

lemma runs_ready:
  assumes run: "runs s c" and i: "i < 8" "i \<noteq> c" "live_slot s i"
  shows "runs (upd_proc i (\<lambda>p. p\<lparr>p_state := PROC_READY\<rparr>) (sched_clear_wait i s)) c"
proof (rule runsE [OF run])
  fix Q
  assume sinv: "sinv s Q {}" and c: "g_current s = Some c" "p_state (proc_table s ! c) = PROC_RUNNING"
  let ?s = "sched_clear_wait i s"
  note k = clear_wait_self [OF sinv i(1)]
  have "sinv (upd_proc i (\<lambda>p. p\<lparr>p_state := PROC_READY\<rparr>) ?s) (\<lambda>q. remove1 i (Q q)) ({i} - {i})"
    using inv_rest [OF inv_clear [OF sinv i(1)] i(1) k(1), of PROC_READY] i(3) by (simp add: k(2) live_kind_slot live_slot_def)
  then show ?thesis using c i(2) by (auto simp: runs_def sched_inv_def k proc_upd_proc)
qed

lemma runs_proc:
  assumes "runs s c" "\<And>p. same_proc p (f p)"
  shows "runs (upd_proc i f s) c"
proof (rule runsE [OF assms(1)])
  fix Q
  assume "sinv s Q {}" "g_current s = Some c" "p_state (proc_table s ! c) = PROC_RUNNING"
  with inv_proc [of s Q "{}" f i] assms(2) show ?thesis by (auto simp: runs_def sched_inv_def proc_upd_proc same_proc_def)
qed

lemma runs_group: "runs s c \<Longrightarrow> (\<And>x. ginfo_of (f x) = ginfo_of x) \<Longrightarrow> runs (upd_group g f s) c"
  using inv_group [of s _ "{}" f g] by (auto simp: runs_def sched_inv_def)

lemma sched_inv_other:
  "sched_inv s \<Longrightarrow> sched_inv (s\<lparr>world := w\<rparr>)" "sched_inv s \<Longrightarrow> sched_inv (s\<lparr>g_need_switch := b\<rparr>)"
  "sched_inv s \<Longrightarrow> sched_inv (s\<lparr>g_ticks := t\<rparr>)" "sched_inv s \<Longrightarrow> sched_inv (s\<lparr>g_display_owner_pid := d\<rparr>)"
  unfolding sched_inv_def by (blast intro: inv_other)+

lemma runs_other:
  assumes "runs s c"
  shows "runs (s\<lparr>world := w\<rparr>) c" "runs (s\<lparr>g_need_switch := b\<rparr>) c" "runs (s\<lparr>g_display_owner_pid := d\<rparr>) c"
  using assms by (auto simp: runs_def intro: sched_inv_other)

lemma inv_mark_group_exit:
  assumes run: "runs s c"
  shows "sched_inv (sched_mark_group_exit M st s)" "g_current (sched_mark_group_exit M st s) = Some c"
    "p_state (proc_table (sched_mark_group_exit M st s) ! c) = PROC_ZOMBIE"
proof -
  obtain Q where sinv: "sinv s Q {}" and c: "g_current s = Some c" "p_state (proc_table s ! c) = PROC_RUNNING" "c < 8"
    by (rule runsE [OF run])
  obtain g where g: "p_group (proc_table s ! c) = Some g" by (rule slot_group [OF sinv c(3)]) (use c(2) in simp_all)
  let ?s = "upd_group g (\<lambda>x. x\<lparr>tg_group_exit := True, tg_exit_status := push_bit 8 (st AND 0xFF)\<rparr>) s"
  have "runs ?s c" by (rule runs_group [OF run]) (simp add: ginfo_of_def)
  then have "runs (fold (\<lambda>i s. if live_slot s i \<and> p_group (proc_table s ! i) = Some g \<and> i \<noteq> c
        then upd_proc i (\<lambda>p. p\<lparr>p_state := PROC_READY\<rparr>) (sched_clear_wait i s) else s) [0..<MAX_PROCS] ?s) c"
    by (rule fold_invariant [where Q = "\<lambda>i. i < 8", rotated]) (auto simp: MAX_PROCS_def intro: runs_ready)
  from inv_mark_exit [OF this, of M] c g
  show "sched_inv (sched_mark_group_exit M st s)" "g_current (sched_mark_group_exit M st s) = Some c"
      "p_state (proc_table (sched_mark_group_exit M st s) ! c) = PROC_ZOMBIE"
    by (simp_all add: sched_mark_group_exit_def Let_def)
qed

lemma inv_mark_signaled:
  assumes run: "runs s c"
  shows "sched_inv (sched_mark_signaled M n d s)" "g_current (sched_mark_signaled M n d s) = Some c"
    "p_state (proc_table (sched_mark_signaled M n d s) ! c) = PROC_ZOMBIE"
proof -
  have "runs (upd_proc c (\<lambda>p. p\<lparr>p_exit_status := (of_nat n AND 0x7F) OR (if d then 0x80 else 0)\<rparr>) s) c"
    by (rule runs_proc [OF run]) (simp add: same_proc_def pinfo_of_def)
  from inv_mark_exit [OF this, of M] show "sched_inv (sched_mark_signaled M n d s)" "g_current (sched_mark_signaled M n d s) = Some c"
    "p_state (proc_table (sched_mark_signaled M n d s) ! c) = PROC_ZOMBIE"
    using run by (simp_all add: sched_mark_signaled_def runs_def)
qed

lemma set_exit_status_runs: "runs s c \<Longrightarrow> runs (sched_set_exit_status st s) c"
  by (auto simp: sched_set_exit_status_def same_proc_def pinfo_of_def split: option.splits intro!: runs_proc)

section \<open>Signals\<close>

text \<open>What a signal can do to the table: it wakes, stops nobody, and starts nobody.\<close>

definition calm :: "('r, 'w) sched \<Rightarrow> ('r, 'w) sched \<Rightarrow> bool" where
  "calm s s' \<longleftrightarrow> sched_inv s' \<and> g_current s' = g_current s \<and>
     (\<forall>k < 8. p_state (proc_table s ! k) \<in> {PROC_RUNNING, PROC_ZOMBIE, PROC_UNUSED, PROC_READY} \<longrightarrow>
        p_state (proc_table s' ! k) = p_state (proc_table s ! k))"

lemma calm_refl [simp]: "sched_inv s \<Longrightarrow> calm s s"
  by (simp add: calm_def)

lemma calm_trans: "calm s s' \<Longrightarrow> calm s' s'' \<Longrightarrow> calm s s''"
  by (auto simp: calm_def)

lemma calm_inv: "calm s s' \<Longrightarrow> sched_inv s'"
  by (simp add: calm_def)

lemma calm_runs: "calm s s' \<Longrightarrow> runs s c \<Longrightarrow> runs s' c"
  by (erule runsE) (auto simp: calm_def runs_def)

lemma calm_proc:
  assumes "sched_inv s" "\<And>p. same_proc p (f p)"
  shows "calm s (upd_proc i f s)"
  using assms inv_proc [of s _ "{}" f i] by (auto simp: calm_def sched_inv_def proc_upd_proc same_proc_def)

lemma calm_group: "sched_inv s \<Longrightarrow> (\<And>x. ginfo_of (f x) = ginfo_of x) \<Longrightarrow> calm s (upd_group g f s)"
  using inv_group [of s _ "{}" f g] by (auto simp: calm_def sched_inv_def)

lemma calm_switch: "sched_inv s \<Longrightarrow> calm s (s\<lparr>g_need_switch := b\<rparr>)"
  by (simp add: calm_def sched_inv_other)

lemma calm_wake: "sched_inv s \<Longrightarrow> calm s (sched_wake_all q s)"
proof -
  assume "sched_inv s"
  then obtain Q where sinv: "sinv s Q {}" by (auto simp: sched_inv_def)
  note q = quiet_wake [OF sinv, of q]
  show ?thesis unfolding calm_def
    using inv_wake [OF sinv, of q] q quiet_proc [OF q] inv_waits_ready [OF sinv] by (auto simp: sched_inv_def quiet_def)
qed

lemma calm_make_ready:
  assumes "sched_inv s" "i < 8"
  shows "calm s (sched_make_ready i s)"
proof -
  obtain Q where sinv: "sinv s Q {}" using assms(1) by (auto simp: sched_inv_def)
  note k = clear_wait_self [OF sinv assms(2)]
  show ?thesis unfolding calm_def sched_inv_def
    using inv_make_ready [OF sinv assms(2)] by (auto simp: sched_make_ready_def Let_def k proc_upd_proc)
qed

lemma calm_state:
  assumes s: "sched_inv s" and i: "i < 8" "p_state (proc_table s ! i) = PROC_STOPPED" and st: "st = PROC_READY \<or> st = PROC_STOPPED"
    and f: "\<And>p. \<exists>p'. same_proc p p' \<and> f p = p'\<lparr>p_state := st\<rparr>"
  shows "calm s (upd_proc i f s)"
proof -
  obtain Q where sinv: "sinv s Q {}" using s by (auto simp: sched_inv_def)
  define h where "h p = (SOME p'. same_proc p p' \<and> f p = p'\<lparr>p_state := st\<rparr>)" for p
  have h: "same_proc p (h p)" "f p = (h p)\<lparr>p_state := st\<rparr>" for p using someI_ex [OF f, of p] by (auto simp: h_def)
  let ?s = "upd_proc i h s"
  have i1: "sinv ?s Q {}" by (rule inv_proc [OF sinv h(1)])
  have st1: "p_state (proc_table ?s ! k) = p_state (proc_table s ! k)" for k using h(1) by (simp add: proc_upd_proc same_proc_def)
  have "waits ?s i = None" using inv_waits_ready [OF i1 i(1)] st1 i(2) by simp
  then have "sinv (upd_proc i (\<lambda>p. p\<lparr>p_state := st\<rparr>) ?s) Q {}"
    using inv_rest [OF i1 i(1) _ _, of st] st st1 i(2) by (auto split: if_splits)
  moreover have "upd_proc i (\<lambda>p. p\<lparr>p_state := st\<rparr>) ?s = upd_proc i f s"
    using inv_len [OF sinv] i by (simp add: upd_proc_def h(2))
  ultimately show ?thesis using i by (auto simp: calm_def sched_inv_def proc_upd_proc)
qed

lemma upd_proc_cong: "f (proc_table s ! i) = h (proc_table s ! i) \<Longrightarrow> upd_proc i f s = upd_proc i h s"
  by (simp add: upd_proc_def)

lemma find_slots: "find P [0..<MAX_PROCS] = Some i \<Longrightarrow> i < 8 \<and> P i"
  by (auto simp: find_Some_iff MAX_PROCS_def)

lemma find_no_slot: "find P [0..<MAX_PROCS] = None \<Longrightarrow> i < 8 \<Longrightarrow> \<not> P i"
  by (auto simp: find_None_iff MAX_PROCS_def)

lemma calm_set_signal: "sched_inv s \<Longrightarrow> calm s (task_group_set_process_signal grp n s)"
  by (auto simp: task_group_set_process_signal_def ginfo_of_def split: option.splits intro!: calm_group)

lemma calm_cont:
  assumes "sched_inv s" "r < 8"
  shows "calm s (upd_proc r (\<lambda>p. p\<lparr>p_sig_pending := f p, p_state := (if p_state p = PROC_STOPPED then PROC_READY else p_state p)\<rparr>) s)"
    (is "calm s (upd_proc r ?g s)")
proof (cases "p_state (proc_table s ! r) = PROC_STOPPED")
  case True
  have "upd_proc r ?g s = upd_proc r (\<lambda>p. p\<lparr>p_sig_pending := f p, p_state := PROC_READY\<rparr>) s" using True by (intro upd_proc_cong) simp
  moreover have "calm s \<dots>"
  proof (rule calm_state [OF assms True, of PROC_READY])
    fix p :: "'a process"
    show "\<exists>p'. same_proc p p' \<and> p\<lparr>p_sig_pending := f p, p_state := PROC_READY\<rparr> = p'\<lparr>p_state := PROC_READY\<rparr>"
      by (rule exI [of _ "p\<lparr>p_sig_pending := f p\<rparr>"]) (simp add: same_proc_def pinfo_of_def)
  qed simp
  ultimately show ?thesis by simp
next
  case False
  have "upd_proc r ?g s = upd_proc r (\<lambda>p. p\<lparr>p_sig_pending := f p\<rparr>) s" using False by (intro upd_proc_cong) simp
  moreover have "calm s \<dots>" by (rule calm_proc [OF assms(1)]) (simp add: same_proc_def pinfo_of_def)
  ultimately show ?thesis by simp
qed

lemma calm_signal_recipient:
  assumes s: "sched_inv s" and r: "r < 8"
  shows "calm s (signal_recipient n grouped r s)"
proof -
  define s2 where "s2 = (if n = SIGCONT
      then upd_proc r (\<lambda>p. p\<lparr>p_sig_pending := p_sig_pending p AND NOT (sig_bit SIGSTOP OR sig_bit SIGTSTP),
             p_state := (if p_state p = PROC_STOPPED then PROC_READY else p_state p)\<rparr>) s else s)"
  define s3 where "s3 = (if n = SIGSTOP \<or> n = SIGTSTP
      then upd_proc r (\<lambda>p. p\<lparr>p_sig_pending := p_sig_pending p AND NOT (sig_bit SIGCONT)\<rparr>) s2 else s2)"
  define s4 where "s4 = (if \<not> grouped then upd_proc r (\<lambda>p. p\<lparr>p_sig_pending := p_sig_pending p OR sig_bit n\<rparr>) s3 else s3)"
  define st where "st = p_state (proc_table s4 ! r)"
  define s5 where "s5 = (if st = PROC_STOPPED \<and> n \<noteq> SIGCONT
      then upd_proc r (\<lambda>p. p\<lparr>p_state := (if n = SIGKILL then PROC_READY else PROC_STOPPED)\<rparr>) s4
      else if st = PROC_BLOCKED then sched_make_ready r s4 else s4)"
  have c2: "calm s s2" using calm_cont [OF s r] s by (simp add: s2_def)
  have c3: "calm s2 s3" using calm_inv [OF c2] by (auto simp: s3_def same_proc_def pinfo_of_def intro!: calm_proc)
  have c4: "calm s3 s4" using calm_inv [OF c3] by (auto simp: s4_def same_proc_def pinfo_of_def intro!: calm_proc)
  have c5: "calm s4 s5"
  proof (cases "st = PROC_STOPPED \<and> n \<noteq> SIGCONT")
    case True
    let ?st = "if n = SIGKILL then PROC_READY else PROC_STOPPED"
    have "\<exists>p'. same_proc p p' \<and> p\<lparr>p_state := ?st\<rparr> = p'\<lparr>p_state := ?st\<rparr>" for p :: "'a process"
      by (rule exI [of _ p]) (simp add: same_proc_def)
    with calm_state [OF calm_inv [OF c4] r, of ?st "\<lambda>p. p\<lparr>p_state := ?st\<rparr>"] True show ?thesis
      unfolding s5_def st_def by (cases "n = SIGKILL") simp_all
  next
    case False
    then show ?thesis using calm_make_ready [OF calm_inv [OF c4] r] calm_inv [OF c4] by (auto simp: s5_def)
  qed
  have "calm s (s5\<lparr>g_need_switch := True\<rparr>)"
    using calm_trans [OF calm_trans [OF calm_trans [OF calm_trans [OF c2 c3] c4] c5] calm_switch [OF calm_inv [OF c5]]] .
  then show ?thesis
    unfolding signal_recipient_def Let_def s2_def [symmetric] s3_def [symmetric] s4_def [symmetric] st_def [symmetric] s5_def [symmetric] .
qed

lemma signal_target_slot:
  assumes "signal_target s pid = (grp, rcp)"
  shows "rcp = Some r \<Longrightarrow> r < 8"
  using assms by (auto simp: signal_target_def sched_find_group_member_def split: option.splits if_splits prod.splits dest!: find_slots)

lemma calm_send_signal:
  assumes s: "sched_inv s"
  shows "calm s (sched_send_signal pid n s)"
proof -
  obtain grp rcp where t: "signal_target s pid = (grp, rcp)" by fastforce
  let ?s = "task_group_set_process_signal grp n s"
  have c: "calm s ?s" using calm_set_signal [OF s] .
  have r: "calm s (signal_recipient (nat n) b r ?s)" if "r < 8" for r b
    using calm_trans [OF c calm_signal_recipient [OF calm_inv [OF c] that]] .
  have m: "i < 8" if "sched_find_group_signal_recipient ?s g k = Some i" for g k i
    using that by (auto simp: sched_find_group_signal_recipient_def dest!: find_slots)
  show ?thesis using s c r m signal_target_slot [OF t]
    by (auto simp: sched_send_signal_def Let_def t split: option.splits)
qed

lemma calm_send_pgid: "sched_inv s \<Longrightarrow> calm s (sched_send_signal_to_pgid pgid n s)"
proof -
  assume s: "sched_inv s"
  have "calm s (fold (\<lambda>i s. if p_pgid (proc_table s ! i) = pgid \<and> live_slot s i
             then sched_send_signal (p_pid (proc_table s ! i)) n s else s) [0..<MAX_PROCS] s)"
    by (rule fold_invariant [where Q = "\<lambda>_. True"]) (use s in \<open>auto intro: calm_trans calm_send_signal calm_inv\<close>)
  with s show ?thesis by (simp add: sched_send_signal_to_pgid_def)
qed

lemma stop_state:
  assumes sinv: "sinv s Q {}" and c: "p_state (proc_table s ! c) = PROC_RUNNING" "c < 8"
  shows "sinv (upd_proc c (\<lambda>p. p\<lparr>p_state := PROC_STOPPED, p_exit_status := e\<rparr>) s) Q {}"
proof -
  let ?f = "\<lambda>p :: 'a process. p\<lparr>p_exit_status := e\<rparr>"
  have i1: "sinv (upd_proc c ?f s) Q {}" by (rule inv_proc [OF sinv]) (simp add: same_proc_def pinfo_of_def)
  have st: "p_state (proc_table (upd_proc c ?f s) ! c) = PROC_RUNNING" using c(1) by (simp add: proc_upd_proc)
  have "sinv (upd_proc c (\<lambda>p. p\<lparr>p_state := PROC_STOPPED\<rparr>) (upd_proc c ?f s)) Q {}"
    using inv_rest [OF i1 c(2) inv_waits_ready [OF i1 c(2)], of PROC_STOPPED] st by simp
  then show ?thesis using inv_len [OF sinv] c(2) by (cases "proc_table s ! c") (simp add: upd_proc_def)
qed

lemma inv_mark_stopped:
  assumes run: "runs s c"
  shows "sched_inv (sched_mark_stopped n s)" "g_current (sched_mark_stopped n s) = Some c"
proof -
  obtain Q where sinv: "sinv s Q {}" and c: "g_current s = Some c" "p_state (proc_table s ! c) = PROC_RUNNING" "c < 8"
    by (rule runsE [OF run])
  define t where "t = upd_proc c (\<lambda>p. p\<lparr>p_state := PROC_STOPPED, p_exit_status := push_bit 8 (of_nat n AND 0xFF) OR 0x7F\<rparr>) s"
  have t: "sched_inv t" unfolding t_def sched_inv_def using stop_state [OF sinv c(2,3)] by blast
  have ct: "g_current t = Some c" using c by (simp add: t_def)
  define u where "u = (if p_parent_pid (proc_table t ! c) \<noteq> 0 then sched_send_signal (p_parent_pid (proc_table t ! c)) (int SIGCHLD) t else t)"
  have u: "calm t u" using calm_send_signal [OF t] t by (simp add: u_def)
  have "calm t (sched_wake_all (QState c) u)" using calm_trans [OF u calm_wake [OF calm_inv [OF u]]] .
  moreover have "sched_mark_stopped n s = sched_wake_all (QState c) u" by (simp add: sched_mark_stopped_def c Let_def u_def t_def)
  ultimately show "sched_inv (sched_mark_stopped n s)" "g_current (sched_mark_stopped n s) = Some c" using ct by (auto simp: calm_def)
qed

lemma calm_tick: "sched_inv s \<Longrightarrow> calm s (sched_tick s)"
proof -
  assume s: "sched_inv s"
  have t: "calm s (s\<lparr>g_ticks := t\<rparr>)" for t using s by (simp add: calm_def sched_inv_other)
  have "calm s (fold (\<lambda>i s. if p_state (proc_table s ! i) = PROC_BLOCKED \<and> p_wait_deadline_set (proc_table s ! i) \<and>
          sint (g_ticks s - p_wait_deadline (proc_table s ! i)) \<ge> 0
        then sched_make_ready i s else s) [0..<MAX_PROCS] (s\<lparr>g_ticks := g_ticks s + 1\<rparr>))"
    by (rule fold_invariant [where Q = "\<lambda>i. i < 8"]) (auto simp: MAX_PROCS_def t intro: calm_trans calm_make_ready calm_inv)
  from calm_trans [OF this calm_switch [OF calm_inv [OF this]]] show ?thesis by (simp add: sched_tick_def Let_def)
qed

section \<open>Reaping\<close>

lemma set_empty_queue: "queues_are s Q \<Longrightarrow> Q q = [] \<Longrightarrow> set_queue q None None s = s"
proof -
  assume Q: "queues_are s Q" and e: "Q q = []"
  have "queue_is s q []" using Q e by (metis queues_are_def)
  then have "queues s q = \<lparr>wq_head = None, wq_tail = None\<rparr>" by (simp add: queue_is_def)
  then show ?thesis by (cases s) (simp add: set_queue_def fun_upd_idem)
qed

lemma put_group_eq:
  assumes sinv: "sinv s Q {}" and z: "z < 8" "p_state (proc_table s ! z) = PROC_ZOMBIE" "p_group (proc_table s ! z) = Some g"
    "g_current s \<noteq> Some z" and v: "pi_kind v = PROC_UNUSED"
  shows "ids_ok ((pinfos s)(z := v)) (ginfos (task_group_put (Some g) s)) (g_current s) (g_next_pid s)"
    and "\<exists>f. task_group_put (Some g) s = upd_group g f s" and "gq_ok (ginfos (task_group_put (Some g) s)) Q"
proof -
  have ids: "ids_ok (pinfos s) (ginfos s) (g_current s) (g_next_pid s)" and gq: "gq_ok (ginfos s) Q" and Q: "queues_are s Q"
    using sinv by (auto simp: inv_qinv qinv_def)
  have k: "pi_kind (pinfos s z) = PROC_ZOMBIE" "pi_group (pinfos s z) = Some g" using z by (simp_all add: pinfos_def pinfo_of_def kind_of_def)
  note r = ids_reap [OF ids z(1) k z(4) v]
  have len: "length (groups s) = 8" using inv_len [OF sinv] by simp
  have nz: "tg_refs (groups s ! g) \<noteq> 0" using r(2,3) by (auto simp: ginfos_def ginfo_of_def card_gt_0_iff)
  have e: "task_group_put (Some g) s = (if tg_refs (groups s ! g) = 1 then set_queue (QGroup g) None None (upd_group g (\<lambda>_. no_group) s)
      else upd_group g (\<lambda>x. x\<lparr>tg_refs := tg_refs x - 1\<rparr>) s)"
    using nz len r(4) by (auto simp: task_group_put_def Let_def group_upd_group) (simp_all add: upd_group_def set_queue_def)
  have gi: "ginfos (task_group_put (Some g) s) = group_less g (ginfos s)"
    using len r(4) by (auto simp: e group_less_def ginfos_upd) (auto simp: ginfos_def ginfo_of_def no_group_def)
  show "ids_ok ((pinfos s)(z := v)) (ginfos (task_group_put (Some g) s)) (g_current s) (g_next_pid s)" using r(1) by (simp add: gi)
  have lv: "gi_live (group_less g (ginfos s) h) = gi_live (ginfos s h)" if "Q (QGroup h) \<noteq> []" for h
  proof -
    have "gi_live (ginfos s h) \<noteq> 0" "h < 8" using gq that by (auto simp: gq_ok_def)
    moreover have "gi_refs (ginfos s g) = 1 \<Longrightarrow> gi_live (ginfos s g) = 0"
    proof -
      assume "gi_refs (ginfos s g) = 1"
      then have "card (members (pinfos s) g) = 1" using r(2) by simp
      then have "members (pinfos s) g = {z}" using r(3) by (metis card_1_singletonE singletonD)
      then have "lives (pinfos s) g = {}" using lives_members [of "pinfos s" g] k by (auto simp: lives_def)
      moreover have "unat (gi_live (ginfos s g)) = card (lives (pinfos s) g)" using ids r(4) by (simp add: ids_ok_def counts_ok_def)
      ultimately show ?thesis by (simp add: unat_eq_zero)
    qed
    ultimately show ?thesis by (auto simp: group_less_def)
  qed
  then show "gq_ok (ginfos (task_group_put (Some g) s)) Q" using gq by (simp add: gi gq_ok_def)
  have "Q (QGroup g) = []" if "tg_refs (groups s ! g) = 1"
    using lv [of g] that gq by (auto simp: gq_ok_def group_less_def ginfos_def ginfo_of_def)
  moreover have "queues_are (upd_group g (\<lambda>_. no_group) s) Q" using qinv_group_upd [of s Q "{}"] sinv by (simp add: inv_qinv qinv_def)
  ultimately show "\<exists>f. task_group_put (Some g) s = upd_group g f s" using set_empty_queue by (fastforce simp: e)
qed

text \<open>A task that is not asleep gives up its resources.\<close>

lemma inv_release:
  assumes sinv: "sinv s Q {}" and z: "z < 8" "p_state (proc_table s ! z) \<noteq> PROC_BLOCKED"
  shows "\<exists>Q2. sinv (put_res z f (sched_clear_wait z s)) Q2 {} \<and> no_group_loss Q Q2 \<and> quiet s (put_res z f (sched_clear_wait z s))"
proof -
  let ?s = "sched_clear_wait z s"
  note k = clear_wait_self [OF sinv z(1)]
  have Q: "queues_are s Q" using sinv by (simp add: sinv_def)
  have "waits s z = None" using inv_waits_ready [OF sinv z] .
  then have r: "remove1 z (Q q) = Q q" for q using Q by (auto simp: queues_are_def intro!: remove1_idem)
  have "sinv ?s (\<lambda>q. remove1 z (Q q)) ({z} - {z})" by (rule inv_drop [OF inv_clear [OF sinv z(1)]]) (simp add: k(2) z)
  then have i1: "sinv ?s Q {}" by (simp add: r)
  have e: "?s = s\<lparr>proc_table := (proc_table s)[z := cleared (proc_table s ! z)]\<rparr>"
    by (rule clear_wait_none) (use z inv_len [OF sinv] \<open>waits s z = None\<close> in auto)
  have "quiet s ?s" by (auto simp: quiet_def e pinfos_def nth_upd cleared_def pinfo_of_def waits_def)
  with inv_put_res [OF i1 z(1), of f] show ?thesis using quiet_trans by blast
qed

definition reap_release :: "('r, 'w) machine \<Rightarrow> nat \<Rightarrow> ('r, 'w) sched \<Rightarrow> ('r, 'w) sched" where
  "reap_release M z s =
     (let s1 = sched_wait_queue_init (QState z) (sched_clear_wait z s);
          s2 = put_res z (mc_put_all M) s1;
          s3 = (if mc_had_resources M (p_res (proc_table s ! z)) then s2 else on_res z (mc_release_user_space M) s2)
      in on_res z (mc_release_kstack M) s3)"

lemma inv_reap_release:
  assumes sinv: "sinv s Q {}" and z: "z < 8" "p_state (proc_table s ! z) = PROC_ZOMBIE"
  shows "\<exists>Q4. sinv (reap_release M z s) Q4 {} \<and> quiet s (reap_release M z s)"
proof -
  let ?s1 = "sched_clear_wait z s"
  define s2 where "s2 = put_res z (mc_put_all M) ?s1"
  define s3 where "s3 = (if mc_had_resources M (p_res (proc_table s ! z)) then s2 else on_res z (mc_release_user_space M) s2)"
  define s4 where "s4 = on_res z (mc_release_kstack M) s3"
  have "queues_are ?s1 (\<lambda>q. remove1 z (Q q))" by (rule clear_wait_queues) (use sinv z in \<open>auto simp: sinv_def\<close>)
  then have e1: "sched_wait_queue_init (QState z) ?s1 = ?s1" unfolding sched_wait_queue_init_def
    by (rule set_empty_queue) (use sinv in \<open>simp add: sinv_def\<close>)
  obtain Q2 where i2: "sinv s2 Q2 {}" and q2: "quiet s s2" using inv_release [OF sinv z(1), of "mc_put_all M"] z(2) by (auto simp: s2_def)
  have i3: "sinv s3 Q2 {}" and q3: "quiet s2 s3" using i2 quiet_on_res [OF z(1)] inv_len [OF i2] by (auto simp: s3_def intro!: inv_on_res)
  have i4: "sinv s4 Q2 {}" and q4: "quiet s3 s4" using i3 quiet_on_res [OF z(1)] inv_len [OF i3] by (auto simp: s4_def intro!: inv_on_res)
  have "reap_release M z s = s4" by (simp add: reap_release_def s4_def s3_def s2_def e1 Let_def)
  then show ?thesis using i4 quiet_trans [OF quiet_trans [OF q2 q3] q4] by auto
qed

lemma inv_reap:
  assumes run: "runs s c" and z: "z < 8"
  shows "runs (sched_reap M z s) c"
proof (cases "p_state (proc_table s ! z) = PROC_ZOMBIE")
  case True
  obtain Q where sinv: "sinv s Q {}" and c: "g_current s = Some c" "p_state (proc_table s ! c) = PROC_RUNNING" "c < 8"
    by (rule runsE [OF run])
  have zc: "z \<noteq> c" using True c by auto
  obtain g where g: "p_group (proc_table s ! z) = Some g" by (rule slot_group [OF sinv z]) (use True in simp_all)
  define s4 where "s4 = reap_release M z s"
  obtain Q2 where i4: "sinv s4 Q2 {}" and k4: "p_state (proc_table s4 ! z) = PROC_ZOMBIE" "p_group (proc_table s4 ! z) = Some g"
    "p_state (proc_table s4 ! c) = PROC_RUNNING" "g_current s4 = Some c" "waits s4 z = None"
    using inv_reap_release [OF sinv z True, of M] quiet_running [OF _ sinv z] quiet_running [OF _ sinv c(3)] True c g
    by (auto simp: s4_def quiet_infos(3))
  let ?f = "\<lambda>p :: 'a process. p\<lparr>p_group := None, p_state := PROC_UNUSED, p_pid := 0, p_tid := 0, p_tgid := 0\<rparr>"
  let ?v = "pinfo_of (?f (proc_table s4 ! z))"
  have v: "pi_kind ?v = PROC_UNUSED" "g_current s4 \<noteq> Some z" using k4(4) zc by (simp_all add: pinfo_of_def kind_of_def)
  note p = put_group_eq [OF i4 z k4(1,2) v(2,1)]
  obtain f where f: "task_group_put (Some g) s4 = upd_group g f s4" using p(2) by blast
  let ?t = "upd_proc z ?f (upd_group g f s4)"
  have "sinv ?t Q2 {}" unfolding inv_qinv
  proof (intro conjI)
    have "qinv (upd_group g f s4) Q2 {}" using i4 by (intro qinv_group_upd) (simp add: inv_qinv)
    from qinv_slot [OF this z, of ?f] k4(5) show "qinv ?t Q2 {}" by (simp add: waits_def)
    show "gq_ok (ginfos ?t) Q2" using p(3) by (simp add: f)
    have "pinfos ?t = (pinfos s4)(z := ?v)" using inv_len [OF i4] z by (auto simp: pinfos_def proc_upd_proc)
    then show "ids_ok (pinfos ?t) (ginfos ?t) (g_current ?t) (g_next_pid ?t)" using p(1) by (simp add: f)
  qed
  moreover have "sched_reap M z s = ?t" using True k4(2) f
    unfolding sched_reap_def s4_def reap_release_def Let_def by simp
  ultimately show ?thesis using k4 zc by (auto simp: runs_def sched_inv_def proc_upd_proc)
qed (use run in \<open>simp add: sched_reap_def\<close>)

lemma inv_reap_group: "runs s c \<Longrightarrow> runs (sched_reap_group M g s) c"
  unfolding sched_reap_group_def
  by (rule fold_invariant [where Q = "\<lambda>i. i < 8"]) (auto simp: MAX_PROCS_def intro: inv_reap)

section \<open>Adding tasks\<close>

definition fresh_desc :: "'r process \<Rightarrow> wait_queue \<Rightarrow> bool" where
  "fresh_desc p waiters \<longleftrightarrow> p_wait_queue p = None \<and> wq_head waiters = None \<and> wq_tail waiters = None"

lemma qinv_pid: "qinv s Q X \<Longrightarrow> qinv (s\<lparr>g_next_pid := n\<rparr>) Q X"
proof -
  assume q: "qinv s Q X"
  then have Q: "queues_are s Q" by (simp add: qinv_def)
  have "queues_are (s\<lparr>g_next_pid := n\<rparr>) Q"
    by (rule queues_are_cong [OF Q]) (use Q in \<open>auto simp: nexts_def waits_def queues_are_def\<close>)
  with q show ?thesis by (simp add: qinv_def sleepers_def waits_def)
qed

lemma inv_add_slot:
  assumes sinv: "sinv s Q {}" and i: "i < 8" "p_state (proc_table s ! i) = PROC_UNUSED"
    and v: "p_state v = PROC_READY" "p_pid v = g_next_pid s" "p_tid v = g_next_pid s" "p_group v = Some g" "g < 8" "p_wait_queue v = None"
    and f: "tg_used (f (groups s ! g))" "unat (tg_refs (f (groups s ! g))) = Suc (card (members (pinfos s) g))"
      "unat (tg_live_tasks (f (groups s ! g))) = Suc (card (lives (pinfos s) g))" "tg_tgid (f (groups s ! g)) = p_tgid v"
      "members (pinfos s) g \<noteq> {} \<Longrightarrow> tg_tgid (f (groups s ! g)) = tg_tgid (groups s ! g)"
    and n: "g_next_pid s + 1 \<noteq> 0"
  shows "sinv (upd_proc i (\<lambda>_. v) (upd_group g f (s\<lparr>g_next_pid := g_next_pid s + 1\<rparr>))) Q {}" (is "sinv ?t Q {}")
  unfolding inv_qinv
proof (intro conjI)
  have q: "qinv s Q {}" and gq: "gq_ok (ginfos s) Q" and ids: "ids_ok (pinfos s) (ginfos s) (g_current s) (g_next_pid s)"
    using sinv by (simp_all add: inv_qinv)
  have len: "length (proc_table s) = 8" "length (groups s) = 8" using inv_len [OF sinv] by simp_all
  have w: "waits s i = None" using inv_waits_ready [OF sinv i(1)] i(2) by simp
  have "qinv (upd_group g f (s\<lparr>g_next_pid := g_next_pid s + 1\<rparr>)) Q {}" by (intro qinv_group_upd qinv_pid q)
  from qinv_slot [OF this i(1), of "\<lambda>_. v"] w v(1,6) show "qinv ?t Q {}" by (simp add: waits_def)
  have gi: "ginfos ?t = (ginfos s)(g := ginfo_of (f (groups s ! g)))" using len v(5) by (simp add: ginfos_upd) (simp add: ginfos_def [abs_def])
  have "gi_live (ginfo_of (f (groups s ! g))) \<noteq> 0" using f(3) by (auto simp: ginfo_of_def)
  then show "gq_ok (ginfos ?t) Q" using gq unfolding gi by (auto simp: gq_ok_def)
  have pi: "pinfos ?t = (pinfos s)(i := pinfo_of v)" using len i(1) by (auto simp: pinfos_def proc_upd_proc)
  have "ids_ok ((pinfos s)(i := pinfo_of v)) ((ginfos s)(g := ginfo_of (f (groups s ! g)))) (g_current s) (g_next_pid s + 1)"
    by (rule ids_add [OF ids i(1)]) (use i(2) v f n in \<open>auto simp: pinfos_def pinfo_of_def kind_of_def ginfo_of_def ginfos_def\<close>)
  then show "ids_ok (pinfos ?t) (ginfos ?t) (g_current ?t) (g_next_pid ?t)" unfolding pi gi by simp
qed

text \<open>A free slot leaves a free group.\<close>

lemma free_group:
  assumes sinv: "sinv s Q X" and i: "i < 8" "p_state (proc_table s ! i) = PROC_UNUSED"
  shows "\<exists>g. find (\<lambda>j. \<not> tg_used (groups s ! j)) [0..<MAX_PROCS] = Some g"
proof (rule ccontr)
  assume "\<nexists>g. find (\<lambda>j. \<not> tg_used (groups s ! j)) [0..<MAX_PROCS] = Some g"
  then have "find (\<lambda>j. \<not> tg_used (groups s ! j)) [0..<MAX_PROCS] = None" by simp
  then have all: "tg_used (groups s ! g)" if "g < 8" for g using find_no_slot that by blast
  let ?P = "pinfos s"
  have "\<forall>g\<in>{..<8}. \<exists>j. used_slot ?P j \<and> pi_group (?P j) = Some g"
  proof
    fix g :: nat
    assume g: "g \<in> {..<8}"
    then have "gi_used (ginfos s g)" using all by (simp add: ginfos_def ginfo_of_def)
    then have "members ?P g \<noteq> {}" using sinv g by (simp add: sinv_def ids_ok_def counts_ok_def)
    then show "\<exists>j. used_slot ?P j \<and> pi_group (?P j) = Some g" by (auto simp: members_def)
  qed
  then obtain m where m: "\<And>g. g < 8 \<Longrightarrow> used_slot ?P (m g) \<and> pi_group (?P (m g)) = Some g" by (metis lessThan_iff)
  have "inj_on m {..<8}" by (rule inj_onI) (metis lessThan_iff m option.inject)
  moreover have "m ` {..<8} \<subseteq> {..<8} - {i}" using m i by (fastforce simp: used_slot_def pinfos_def pinfo_of_def kind_of_def)
  ultimately have "card {..<8::nat} \<le> card ({..<8} - {i})" by (intro card_inj_on_le) auto
  with i show False by simp
qed

lemma unused_group:
  assumes sinv: "sinv s Q X" and g: "g < 8" "\<not> tg_used (groups s ! g)"
  shows "members (pinfos s) g = {}" "lives (pinfos s) g = {}" "Q (QGroup g) = []"
proof -
  have ids: "counts_ok (pinfos s) (ginfos s)" and gq: "gq_ok (ginfos s) Q" using sinv by (auto simp: inv_qinv ids_ok_def)
  show m: "members (pinfos s) g = {}" using ids g by (auto simp: counts_ok_def ginfos_def ginfo_of_def)
  then show l: "lives (pinfos s) g = {}" using lives_members [of "pinfos s" g] by simp
  then have "gi_live (ginfos s g) = 0" using ids g by (auto simp: counts_ok_def unat_eq_zero)
  then show "Q (QGroup g) = []" using gq by (auto simp: gq_ok_def)
qed

text \<open>What \<open>sched_add\<close> puts into the table: the group of the task and its update, and the descriptor.\<close>

definition added :: "('r, 'w) sched \<Rightarrow> nat \<Rightarrow> 'r process \<Rightarrow> nat \<Rightarrow> (task_group \<Rightarrow> task_group) \<Rightarrow> ('r, 'w) sched" where
  "added s i v g f = upd_proc i (\<lambda>_. v) (upd_group g f (s\<lparr>g_next_pid := g_next_pid s + 1\<rparr>))"

lemma add_group_added:
  assumes sinv: "sinv s Q {}" and i: "i < 8" "p_state (proc_table s ! i) = PROC_UNUSED"
    and p: "p_wait_queue p = None" "p_pid p = g_next_pid s" "p_tid p = g_next_pid s" and n: "g_next_pid s + 1 \<noteq> 0"
    and g: "\<forall>g. p_group p = Some g \<longrightarrow> g < 8 \<and> tg_used (groups s ! g)"
  shows "\<exists>g p' s1 f. add_to_group p (s\<lparr>g_next_pid := g_next_pid s + 1\<rparr>) = (Some (g, p'), s1) \<and> p_pid p' = g_next_pid s \<and> g < 8 \<and>
    p_group p' = Some g \<and> (p_group p = None \<longrightarrow> \<not> tg_used (groups s ! g)) \<and>
    set_queue (QState i) None None (upd_proc i (\<lambda>_. p'\<lparr>p_state := PROC_READY\<rparr>) (task_group_add_task (Some g) s1)) =
      added s i (p'\<lparr>p_state := PROC_READY\<rparr>) g f \<and> sinv (added s i (p'\<lparr>p_state := PROC_READY\<rparr>) g f) Q {}"
proof (cases "p_group p")
  case None
  obtain g where g: "find (\<lambda>j. \<not> tg_used (groups s ! j)) [0..<MAX_PROCS] = Some g" using free_group [OF sinv i] by blast
  have g8: "g < 8" "\<not> tg_used (groups s ! g)" using find_slots [OF g] by simp_all
  note u = unused_group [OF sinv g8]
  define h where "h = no_group\<lparr>tg_used := True, tg_refs := 1, tg_tgid := p_tgid p, tg_leader_tid := p_tid p,
    tg_parent_tgid := p_parent_pid p, tg_pgid := p_pgid p, tg_sid := p_sid p, tg_tty_id := p_tty_id p, tg_exit_signal := of_nat SIGCHLD\<rparr>"
  let ?f = "\<lambda>_. h\<lparr>tg_live_tasks := 1\<rparr>" and ?v = "p\<lparr>p_group := Some g, p_state := PROC_READY\<rparr>"
  let ?s1 = "set_queue (QGroup g) None None (upd_group g (\<lambda>_. h) (s\<lparr>g_next_pid := g_next_pid s + 1\<rparr>))"
  have a: "add_to_group p (s\<lparr>g_next_pid := g_next_pid s + 1\<rparr>) = (Some (g, p\<lparr>p_group := Some g\<rparr>), ?s1)"
    using None g by (simp add: add_to_group_def task_group_create_def h_def)
  have t: "sinv (added s i ?v g ?f) Q {}" unfolding added_def
    by (rule inv_add_slot [OF sinv i]) (use p g8 u n in \<open>auto simp: h_def\<close>)
  have Q: "queues_are (added s i ?v g ?f) Q" using t by (simp add: sinv_def)
  have "set_queue (QState i) None None (upd_proc i (\<lambda>_. ?v) (task_group_add_task (Some g) ?s1)) =
      set_queue (QState i) None None (set_queue (QGroup g) None None (added s i ?v g ?f))"
    using inv_len [OF sinv] g8 by (simp add: task_group_add_task_def upd_group_def set_queue_def upd_proc_def added_def h_def no_group_def)
  also have "\<dots> = added s i ?v g ?f" using set_empty_queue [OF Q] sinv u(3) by (simp add: sinv_def)
  finally show ?thesis using a t g8 p None by (intro exI [of _ g] exI [of _ "p\<lparr>p_group := Some g\<rparr>"] exI [of _ ?s1] exI [of _ ?f]) simp
next
  case (Some g)
  have g8: "g < 8" "tg_used (groups s ! g)" using g Some by simp_all
  let ?f = "\<lambda>x. x\<lparr>tg_refs := tg_refs x + 1, tg_live_tasks := tg_live_tasks x + 1\<rparr>"
  let ?p = "p\<lparr>p_tgid := tg_tgid (groups s ! g), p_pgid := tg_pgid (groups s ! g), p_sid := tg_sid (groups s ! g), p_tty_id := tg_tty_id (groups s ! g)\<rparr>"
  let ?v = "?p\<lparr>p_state := PROC_READY\<rparr>"
  let ?s1 = "upd_group g (\<lambda>x. x\<lparr>tg_refs := tg_refs x + 1\<rparr>) (s\<lparr>g_next_pid := g_next_pid s + 1\<rparr>)"
  have len: "length (groups s) = 8" using inv_len [OF sinv] by simp
  have a: "add_to_group p (s\<lparr>g_next_pid := g_next_pid s + 1\<rparr>) = (Some (g, ?p), ?s1)"
    using Some len g8 by (simp add: add_to_group_def task_group_get_def task_group_tgid_def group_upd_group Let_def)
  have cnt: "unat (tg_refs (groups s ! g)) = card (members (pinfos s) g)" "unat (tg_live_tasks (groups s ! g)) = card (lives (pinfos s) g)"
    using sinv g8 by (auto simp: sinv_def ids_ok_def counts_ok_def ginfos_def ginfo_of_def)
  have t: "sinv (added s i ?v g ?f) Q {}" unfolding added_def
    by (rule inv_add_slot [OF sinv i])
      (use p g8 n cnt members_card [of "pinfos s" g] Some unat_inc [of "tg_refs (groups s ! g)"] unat_inc [of "tg_live_tasks (groups s ! g)"] in auto)
  have Q: "queues_are (added s i ?v g ?f) Q" using t by (simp add: sinv_def)
  have "set_queue (QState i) None None (upd_proc i (\<lambda>_. ?v) (task_group_add_task (Some g) ?s1)) = set_queue (QState i) None None (added s i ?v g ?f)"
    using len g8 by (simp add: task_group_add_task_def upd_group_def set_queue_def upd_proc_def added_def)
  also have "\<dots> = added s i ?v g ?f" using set_empty_queue [OF Q] sinv by (simp add: sinv_def)
  finally show ?thesis using a t g8 p Some by (intro exI [of _ g] exI [of _ ?p] exI [of _ ?s1] exI [of _ ?f]) simp
qed

lemma inv_add:
  assumes sinv: "sinv s Q {}" and p: "fresh_desc p wt" "\<forall>g. p_group p = Some g \<longrightarrow> g < 8 \<and> tg_used (groups s ! g)"
    and n: "g_next_pid s + 1 \<noteq> 0" and i: "find (\<lambda>i. p_state (proc_table s ! i) = PROC_UNUSED) [0..<MAX_PROCS] = Some i"
  shows "\<exists>s' g. sched_add M p wt ctx s = (Some (g_next_pid s), s') \<and> sinv s' Q {} \<and> g_current s' = g_current s \<and>
    (\<forall>k. k \<noteq> i \<longrightarrow> proc_table s' ! k = proc_table s ! k) \<and> p_state (proc_table s' ! i) = PROC_READY \<and>
    p_pid (proc_table s' ! i) = g_next_pid s \<and> p_group (proc_table s' ! i) = Some g \<and> g < 8 \<and>
    (if p_group p = None then Q (QGroup g) = [] else p_group p = Some g)"
proof -
  have i8: "i < 8" "p_state (proc_table s ! i) = PROC_UNUSED" using find_slots [OF i] by simp_all
  define q where "q = add_fill_ids (g_next_pid s) p"
  have q: "p_wait_queue q = None" "p_pid q = g_next_pid s" "p_tid q = g_next_pid s" "p_group q = p_group p"
    using p(1) by (simp_all add: q_def add_fill_ids_def fresh_desc_def Let_def)
  obtain g p' s1 f where a: "add_to_group q (s\<lparr>g_next_pid := g_next_pid s + 1\<rparr>) = (Some (g, p'), s1)" "p_pid p' = g_next_pid s" "g < 8"
      "p_group p' = Some g" "p_group q = None \<longrightarrow> \<not> tg_used (groups s ! g)"
      "set_queue (QState i) None None (upd_proc i (\<lambda>_. p'\<lparr>p_state := PROC_READY\<rparr>) (task_group_add_task (Some g) s1)) =
        added s i (p'\<lparr>p_state := PROC_READY\<rparr>) g f" "sinv (added s i (p'\<lparr>p_state := PROC_READY\<rparr>) g f) Q {}"
    using add_group_added [OF sinv i8 q(1-3) n] p(2) q(4) by auto
  let ?t = "added s i (p'\<lparr>p_state := PROC_READY\<rparr>) g f"
  define t where "t = (if ctx then ?t else on_res i (mc_build_frame M) ?t)"
  have len: "length (proc_table s) = 8" using inv_len [OF sinv] by simp
  have k: "proc_table t ! j = proc_table s ! j" if "j \<noteq> i" for j
    using that by (auto simp: t_def on_res_def added_def proc_upd_proc split: prod.splits)
  have ki: "p_state (proc_table t ! i) = PROC_READY" "p_pid (proc_table t ! i) = g_next_pid s" "p_group (proc_table t ! i) = Some g"
    using a(2,4) len i8 by (auto simp: t_def on_res_def added_def proc_upd_proc split: prod.splits)
  have e: "sched_add M p wt ctx s = (Some (p_pid (proc_table t ! i)), t)"
    using p(1) by (simp add: sched_add_def i a(1,6) fresh_desc_def Let_def t_def flip: q_def)
  have "sinv t Q {}" using a(7) inv_on_res by (auto simp: t_def)
  moreover have "g_current t = g_current s" by (auto simp: t_def on_res_def added_def split: prod.splits)
  moreover have "p_group p \<noteq> None \<Longrightarrow> p_group p = Some g"
    using a(1) q(4) by (auto simp: add_to_group_def Let_def)
  moreover have "p_group p = None \<Longrightarrow> Q (QGroup g) = []" using unused_group(3) [OF sinv a(3)] a(5) q(4) by simp
  ultimately show ?thesis using e k ki a(3) by (intro exI [of _ t] exI [of _ g]) simp
qed

lemma add_no_slot:
  "find (\<lambda>i. p_state (proc_table s ! i) = PROC_UNUSED) [0..<MAX_PROCS] = None \<Longrightarrow> sched_add M p wt ctx s = (None, s)"
  by (simp add: sched_add_def)

lemma put_upd_proc: "task_group_put (Some g) (upd_proc i f s) = upd_proc i f (task_group_put (Some g) s)"
  by (simp add: task_group_put_def upd_group_def upd_proc_def set_queue_def Let_def)

lemma upd_proc_twice: "upd_proc i (\<lambda>_. v) (upd_proc i f s) = upd_proc i (\<lambda>_. v) s"
  by (simp add: upd_proc_def)

lemma inv_remove_live:
  assumes sinv: "sinv s Q {}" and i: "i < 8" "p_state (proc_table s ! i) = PROC_READY" "p_group (proc_table s ! i) = Some g"
    "g_current s \<noteq> Some i" and other: "Q (QGroup g) = [] \<or> (\<exists>j. j \<noteq> i \<and> j \<in> lives (pinfos s) g)"
    and v: "p_state v = PROC_UNUSED" "p_wait_queue v = None"
  shows "sinv (upd_proc i (\<lambda>_. v) (task_group_put (Some g) (task_group_remove_task (Some g) s))) Q {}"
proof -
  have k: "pi_kind (pinfos s i) \<in> {PROC_READY, PROC_RUNNING}" "pi_group (pinfos s i) = Some g"
    using i by (simp_all add: pinfos_def pinfo_of_def kind_of_def)
  have ids: "ids_ok (pinfos s) (ginfos s) (g_current s) (g_next_pid s)" and q: "qinv s Q {}" and gq: "gq_ok (ginfos s) Q"
    using sinv by (auto simp: inv_qinv)
  note z = ids_zombie [OF ids i(1) k]
  have len: "length (proc_table s) = 8" "length (groups s) = 8" using inv_len [OF sinv] by simp_all
  have w: "waits s i = None" using inv_waits_ready [OF sinv i(1)] i(2) by simp
  have "gi_live (ginfos s g) \<noteq> 0" using z(2,3) by (auto simp: card_gt_0_iff)
  then have r: "task_group_remove_task (Some g) s = upd_group g (\<lambda>x. x\<lparr>tg_live_tasks := tg_live_tasks x - 1\<rparr>) s" (is "_ = ?t")
    by (simp add: task_group_remove_task_def ginfos_def ginfo_of_def word_gt_0)
  have gt: "ginfos ?t = (ginfos s)(g := (ginfos s g)\<lparr>gi_live := gi_live (ginfos s g) - 1\<rparr>)"
    using len z(4) by (simp add: ginfos_upd) (simp add: ginfos_def ginfo_of_def)
  let ?u = "upd_proc i (\<lambda>p. p\<lparr>p_state := PROC_ZOMBIE\<rparr>) ?t"
  have u: "sinv ?u Q {}" unfolding inv_qinv
  proof (intro conjI)
    show "qinv ?u Q {}" using qinv_zombie [OF qinv_group_upd [OF q] i(1)] w by (simp add: waits_def)
    have "pinfos ?u = (pinfos s)(i := (pinfos s i)\<lparr>pi_kind := PROC_ZOMBIE\<rparr>)"
      using len i(1) by (auto simp: pinfos_def proc_upd_proc pinfo_of_def kind_of_def)
    then show "ids_ok (pinfos ?u) (ginfos ?u) (g_current ?u) (g_next_pid ?u)" using z(1) gt by simp
    have "gi_live (ginfos s g) - 1 \<noteq> 0" if j: "j \<noteq> i" "j \<in> lives (pinfos s) g" for j
    proof -
      have "card {i, j} \<le> card (lives (pinfos s) g)" using z(3) j by (intro card_mono) auto
      then show ?thesis using z(2) j(1) by auto
    qed
    then show "gq_ok (ginfos ?u) Q" using gq other by (auto simp: gq_ok_def gt)
  qed
  have ku: "p_state (proc_table ?u ! i) = PROC_ZOMBIE" "p_group (proc_table ?u ! i) = Some g" "g_current ?u \<noteq> Some i" "waits ?u i = None"
    using len i w by (auto simp: proc_upd_proc waits_def)
  have kv: "pi_kind (pinfo_of v) = PROC_UNUSED" using v by (simp add: pinfo_of_def kind_of_def)
  note p = put_group_eq [OF u i(1) ku(1-3) kv]
  obtain f where f: "task_group_put (Some g) ?u = upd_group g f ?u" using p(2) by blast
  let ?w = "upd_proc i (\<lambda>_. v) (upd_group g f ?u)"
  have "sinv ?w Q {}" unfolding inv_qinv
  proof (intro conjI)
    have "qinv (upd_group g f ?u) Q {}" using u by (intro qinv_group_upd) (simp add: inv_qinv)
    from qinv_slot [OF this i(1), of "\<lambda>_. v"] ku(4) v show "qinv ?w Q {}" by (simp add: waits_def)
    show "gq_ok (ginfos ?w) Q" using p(3) by (simp add: f)
    have "pinfos ?w = (pinfos ?u)(i := pinfo_of v)" using len i(1) by (auto simp: pinfos_def proc_upd_proc)
    then show "ids_ok (pinfos ?w) (ginfos ?w) (g_current ?w) (g_next_pid ?w)" using p(1) by (simp add: f)
  qed
  moreover have "?w = upd_proc i (\<lambda>_. v) (task_group_put (Some g) ?t)"
    unfolding f [symmetric] put_upd_proc upd_proc_twice ..
  ultimately show ?thesis by (simp add: r)
qed

lemma used_pids: "sinv s Q X \<Longrightarrow> i < 8 \<Longrightarrow> j < 8 \<Longrightarrow> p_state (proc_table s ! i) \<noteq> PROC_UNUSED \<Longrightarrow> p_state (proc_table s ! j) \<noteq> PROC_UNUSED \<Longrightarrow>
    p_pid (proc_table s ! i) = p_pid (proc_table s ! j) \<Longrightarrow> i = j"
proof -
  assume a: "sinv s Q X" "i < 8" "j < 8" "p_state (proc_table s ! i) \<noteq> PROC_UNUSED" "p_state (proc_table s ! j) \<noteq> PROC_UNUSED"
    "p_pid (proc_table s ! i) = p_pid (proc_table s ! j)"
  have "used_slot (pinfos s) i" "used_slot (pinfos s) j" "pi_pid (pinfos s i) = pi_pid (pinfos s j)"
    using a by (simp_all add: used_slot_def pinfos_def pinfo_of_def kind_of_def)
  with a(1) show ?thesis unfolding sinv_def ids_ok_def slots_ok_def by blast
qed

lemma find_slot_pid:
  assumes sinv: "sinv s Q X" and i: "i < 8" "p_state (proc_table s ! i) \<noteq> PROC_UNUSED"
  shows "sched_find_slot s (p_pid (proc_table s ! i)) = Some i"
proof (cases "sched_find_slot s (p_pid (proc_table s ! i))")
  case None
  from find_no_slot [OF this [unfolded sched_find_slot_def] i(1)] i(2) show ?thesis by simp
next
  case (Some j)
  then have "j < 8" "p_pid (proc_table s ! j) = p_pid (proc_table s ! i)" "p_state (proc_table s ! j) \<noteq> PROC_UNUSED"
    using find_slots by (auto simp: sched_find_slot_def)
  with used_pids [OF sinv] i Some show ?thesis by blast
qed

lemma inv_force_remove:
  assumes run: "runs s c" and sinv: "sinv s Q {}" and i: "i < 8" "p_state (proc_table s ! i) = PROC_READY" "p_group (proc_table s ! i) = Some g"
    and other: "Q (QGroup g) = [] \<or> p_group (proc_table s ! c) = Some g"
  shows "\<exists>s'. sched_force_remove_task M (p_pid (proc_table s ! i)) s = (True, s') \<and> runs s' c"
proof -
  have c: "g_current s = Some c" "p_state (proc_table s ! c) = PROC_RUNNING" using run by (auto simp: runs_def)
  have c8: "c < 8" using current_slot [OF sinv c(1)] .
  have ic: "i \<noteq> c" using i c by auto
  define s1 where "s1 = put_res i (mc_put_all M) (sched_clear_wait i s)"
  define s2 where "s2 = on_res i (mc_release_kstack M) s1"
  obtain Q2 where i1: "sinv s1 Q2 {}" and l: "no_group_loss Q Q2" and q1: "quiet s s1"
    using inv_release [OF sinv i(1)] i(2) by (auto simp: s1_def)
  have i2: "sinv s2 Q2 {}" and q2: "quiet s s2"
    using inv_on_res [OF i1] quiet_trans [OF q1 quiet_on_res [OF i(1)]] inv_len [OF i1] by (auto simp: s2_def)
  have k: "p_state (proc_table s2 ! i) = PROC_READY" "p_group (proc_table s2 ! i) = Some g" "p_state (proc_table s2 ! c) = PROC_RUNNING"
    "g_current s2 = Some c" using quiet_running [OF q2 sinv] i c c8 quiet_infos(3) [OF q2] by auto
  have "Q2 (QGroup g) = [] \<or> (\<exists>j. j \<noteq> i \<and> j \<in> lives (pinfos s2) g)"
  proof (cases "Q (QGroup g) = []")
    case False
    then have "p_group (proc_table s2 ! c) = Some g" using other quiet_running(4) [OF q2 sinv c8] c by auto
    then have "c \<in> lives (pinfos s2) g" using k(3) c8 by (simp add: lives_def used_slot_def pinfos_def pinfo_of_def kind_of_def)
    with ic show ?thesis by metis
  qed (use l in \<open>simp add: no_group_loss_def\<close>)
  moreover have "g_current s2 \<noteq> Some i" using k(4) ic by simp
  ultimately have i3: "sinv (upd_proc i (\<lambda>_. zero_process (mc_zero M)) (task_group_put (Some g) (task_group_remove_task (Some g) s2))) Q2 {}" (is "sinv ?t _ _")
    by (intro inv_remove_live [OF i2 i(1) k(1,2)]) (simp_all add: zero_process_def)
  have "set_queue (QState i) None None ?t = ?t" by (rule set_empty_queue [of _ Q2]) (use i3 in \<open>auto simp: sinv_def\<close>)
  then have "sched_force_remove_task M (p_pid (proc_table s ! i)) s = (True, ?t)"
    using find_slot_pid [OF sinv i(1)] i(2) k(2)
    unfolding sched_force_remove_task_def by (simp add: Let_def flip: s1_def s2_def)
  moreover have "proc_table ?t ! c = proc_table s2 ! c" "g_current ?t = g_current s2"
    using ic by (auto simp: proc_upd_proc task_group_put_def task_group_remove_task_def Let_def)
  ultimately show ?thesis using i3 k by (auto simp: runs_def sched_inv_def)
qed

end
