(* ===== verification/Sched_Run.thy ===== *)
theory Sched_Run
  imports Sched_Steps
begin

text \<open>
  Runs of the scheduler: the events of kernel/proc/sched.c as a step relation, the states they
  reach, and what holds in all of them.
\<close>

section \<open>Waiting for a child\<close>

lemma group_live:
  assumes sinv: "sinv s Q X" and i: "i < 8" "live_slot s i" "p_group (proc_table s ! i) = Some g"
  shows "g < 8" "gi_live (ginfos s g) \<noteq> 0"
proof -
  show g: "g < 8" by (rule slot_group [OF sinv i(1)]) (use i in \<open>auto simp: live_slot_def\<close>)
  have "i \<in> lives (pinfos s) g" using i
    by (auto simp: lives_def used_slot_def pinfos_def pinfo_of_def kind_of_def live_slot_def)
  then have "card (lives (pinfos s) g) \<noteq> 0" by (auto simp: card_eq_0_iff)
  moreover have "unat (gi_live (ginfos s g)) = card (lives (pinfos s) g)" using sinv g by (simp add: sinv_def ids_ok_def counts_ok_def)
  ultimately show "gi_live (ginfos s g) \<noteq> 0" by auto
qed

definition wait_target :: "('r, 'w) sched \<Rightarrow> u32 \<Rightarrow> nat option" where
  "wait_target s pid = (case sched_find_slot s pid of Some i \<Rightarrow> Some i | None \<Rightarrow> sched_find_group_member s pid)"

lemma wait_target_slot: "wait_target s pid = Some i \<Longrightarrow> i < 8 \<and> p_state (proc_table s ! i) \<noteq> PROC_UNUSED"
  by (auto simp: wait_target_def sched_find_slot_def sched_find_group_member_def split: option.splits dest!: find_slots)

lemma has_live_slots: "sched_group_has_live_slots g s \<longleftrightarrow> (\<exists>i < 8. p_group (proc_table s ! i) = Some g \<and> live_slot s i)"
  by (auto simp: sched_group_has_live_slots_def list_ex_iff MAX_PROCS_def)

lemma inv_waitpid:
  assumes run: "runs s c"
  shows "sched_waitpid M pid opts s = (WaitReturn r, s') \<Longrightarrow> runs s' c"
    and "sched_waitpid M pid opts s = (WaitAgain, s') \<Longrightarrow> sched_inv s' \<and> g_current s' = Some c"
proof -
  obtain Q where sinv: "sinv s Q {}" and c: "g_current s = Some c" "p_state (proc_table s ! c) = PROC_RUNNING" "c < 8"
    by (rule runsE [OF run])
  note t = wait_target_slot [of s pid]
  have g: "\<exists>g. p_group (proc_table s ! i) = Some g" if "wait_target s pid = Some i" for i
    using slot_group [OF sinv] t [OF that] by metis
  show "runs s' c" if "sched_waitpid M pid opts s = (WaitReturn r, s')"
    using that run t g unfolding sched_waitpid_def wait_target_def [symmetric]
    by (auto simp: Let_def intro: inv_reap_group inv_reap split: option.splits if_splits)
  show "sched_inv s' \<and> g_current s' = Some c" if again: "sched_waitpid M pid opts s = (WaitAgain, s')"
  proof -
    obtain i where i: "wait_target s pid = Some i" using again unfolding sched_waitpid_def wait_target_def [symmetric]
      by (auto split: option.splits)
    obtain g where gi: "p_group (proc_table s ! i) = Some g" using g [OF i] by blast
    have live: "\<exists>j < 8. p_group (proc_table s ! j) = Some g \<and> live_slot s j" and e: "s' = sched_block (Some (QGroup g)) s"
      using again i gi t [OF i] unfolding sched_waitpid_def wait_target_def [symmetric]
      by (auto simp: Let_def has_live_slots live_slot_def split: if_splits)
    then have "g < 8" "gi_live (ginfos s g) \<noteq> 0" using group_live [OF sinv] by blast+
    then have "sched_inv s'" unfolding e using c by (intro inv_block [OF sinv c(1)]) (auto simp: live_slot_def)
    moreover have "g_current s' = Some c"
      by (auto simp: e sched_block_def c Let_def sched_wait_queue_enqueue_def clear_wait_self [OF sinv c(3)] split: option.splits)
    ultimately show ?thesis by blast
  qed
qed

section \<open>Replacing the image\<close>

lemma inv_exec:
  assumes run: "runs s c" and p: "fresh_desc p wt"
  shows "runs (sched_exec_current M p wt free s) c"
proof -
  obtain Q where sinv: "sinv s Q {}" and c: "g_current s = Some c" "p_state (proc_table s ! c) = PROC_RUNNING" "c < 8"
    by (rule runsE [OF run])
  let ?old = "proc_table s ! c"
  let ?v = "p\<lparr>p_tid := p_tid ?old, p_tgid := p_tgid ?old, p_pid := p_pid ?old, p_group := p_group ?old, p_state := PROC_RUNNING\<rparr>"
  let ?t = "upd_proc c (\<lambda>_. ?v) s"
  have len: "length (proc_table s) = 8" using inv_len [OF sinv] by simp
  have w: "waits s c = None" using inv_waits_ready [OF sinv c(3)] c(2) by simp
  have t: "sinv ?t Q {}" unfolding inv_qinv
  proof (intro conjI)
    have "qinv ?t Q ({} - {c})" by (rule qinv_slot) (use sinv w c p in \<open>auto simp: inv_qinv fresh_desc_def\<close>)
    then show "qinv ?t Q {}" by simp
    show "gq_ok (ginfos ?t) Q" using sinv by (simp add: inv_qinv)
    have "pinfos ?t = pinfos s" using c by (auto simp: pinfos_def proc_upd_proc pinfo_of_def)
    then show "ids_ok (pinfos ?t) (ginfos ?t) (g_current ?t) (g_next_pid ?t)" using sinv by (simp add: inv_qinv)
  qed
  have "set_queue (QState c) None None ?t = ?t" by (rule set_empty_queue [of _ Q]) (use t in \<open>auto simp: sinv_def\<close>)
  then have e: "sched_exec_current M p wt free s = ?t\<lparr>world := mc_prepare M (p_res (proc_table ?t ! c)) (free (world ?t))\<rparr>"
    using p c by (simp add: sched_exec_current_def fresh_desc_def Let_def)
  have "runs ?t c" using t c len by (auto simp: runs_def sched_inv_def proc_upd_proc)
  then show ?thesis unfolding e by (rule runs_other)
qed

section \<open>Delivering a signal\<close>

lemma sinv_sched: "sinv s Q {} \<Longrightarrow> sched_inv s"
  by (auto simp: sched_inv_def)

lemma runs_clear_crash: "runs s c \<Longrightarrow> runs (clear_crash c b s) c"
  by (auto simp: clear_crash_def same_proc_def pinfo_of_def intro!: runs_proc)

text \<open>After delivery the task still runs, or it has left the processor and the invariant holds.\<close>

definition delivered :: "signal_result \<Rightarrow> ('r, 'w) sched \<Rightarrow> nat \<Rightarrow> bool" where
  "delivered r s c \<longleftrightarrow> (case r of SigReturn \<Rightarrow> runs s c | SigEnter n h \<Rightarrow> runs s c | _ \<Rightarrow> sched_inv s \<and> g_current s = Some c)"

lemma enter_handler_delivered:
  assumes run: "runs s c" and e: "enter_handler M c n h s = (r, s')"
  shows "delivered r s' c"
proof -
  obtain b w where w: "mc_setup_frame M (p_res (proc_table s ! c)) n h (world s) = (b, w)" by fastforce
  have "runs (s\<lparr>world := w\<rparr>) c" by (rule runs_other [OF run])
  with inv_mark_signaled [OF this] e w show ?thesis by (cases b) (auto simp: enter_handler_def delivered_def)
qed

lemma mark_stopped_delivered: "runs s c \<Longrightarrow> delivered (SigStop n) (sched_mark_stopped m s) c"
  by (simp add: delivered_def inv_mark_stopped)

lemma deliver_signal_delivered:
  assumes run: "runs s c" and d: "deliver_signal M c n s = (r, s')"
  shows "delivered r s' c"
proof -
  have c: "runs (clear_crash c b s) c" for b by (rule runs_clear_crash [OF run])
  have k: "delivered (SigKill m) (sched_mark_signaled M m dc (clear_crash c b (s\<lparr>world := w\<rparr>))) c" for m b dc w
    using inv_mark_signaled [OF runs_clear_crash [OF runs_other(1) [OF run]]] by (simp add: delivered_def)
  have ret: "delivered SigReturn s c" "delivered SigReturn (clear_crash c b s) c" for b using run c by (simp_all add: delivered_def)
  have k': "delivered (SigKill m) (sched_mark_signaled M m dc (clear_crash c b s)) c" for m b dc
    using inv_mark_signaled [OF c] by (simp add: delivered_def)
  define fc where "fc = (p_crash_valid (proc_table s ! c) \<and> p_crash_signum (proc_table s ! c) = of_nat n)"
  define h where "h = (if fc \<and> sched_signal_handler M s c n = SIG_IGN then SIG_DFL else sched_signal_handler M s c n)"
  show ?thesis using d k k' ret mark_stopped_delivered [OF run] enter_handler_delivered [OF run] enter_handler_delivered [OF c]
    unfolding deliver_signal_def Let_def fc_def [symmetric] h_def [symmetric] by (auto split: if_splits prod.splits)
qed

lemma next_signal_runs: "runs s c \<Longrightarrow> next_signal c s = (x, s') \<Longrightarrow> runs s' c"
  by (auto simp: next_signal_def Let_def task_group_take_process_signal_def same_proc_def pinfo_of_def ginfo_of_def
      split: option.splits if_splits prod.splits intro!: runs_proc runs_group)

lemma signal_check_delivered:
  assumes run: "runs s c" and d: "sched_signal_check M s = (r, s')"
  shows "delivered r s' c"
proof -
  have c: "g_current s = Some c" using run by (simp add: runs_def)
  let ?s = "s\<lparr>world := mc_sanitize M (p_res (proc_table s ! c)) (world s)\<rparr>"
  have r1: "runs ?s c" by (rule runs_other [OF run])
  obtain x s2 where x: "next_signal c ?s = (x, s2)" by fastforce
  note r2 = next_signal_runs [OF r1 x]
  show ?thesis using d r1 r2 inv_mark_exit [OF r1] deliver_signal_delivered [OF r2]
    by (auto simp: sched_signal_check_def c Let_def x delivered_def split: if_splits option.splits)
qed

section \<open>Scheduling\<close>

datatype irq = IrqTick | IrqWake nat | IrqSignal u32 int | IrqSignalGroup u32 int

text \<open>What the interrupt handlers do to the scheduler: the clock, a device with data, the keyboard.\<close>

fun irq_run :: "irq \<Rightarrow> ('r, 'w) sched \<Rightarrow> ('r, 'w) sched" where
  "irq_run IrqTick s = sched_tick s"
| "irq_run (IrqWake n) s = sched_wake_all (QExt n) s"
| "irq_run (IrqSignal pid n) s = sched_send_signal pid n s"
| "irq_run (IrqSignalGroup pgid n) s = sched_send_signal_to_pgid pgid n s"

lemma calm_irq: "sched_inv s \<Longrightarrow> calm s (irq_run x s)"
  by (cases x) (simp_all add: calm_tick calm_wake calm_send_signal calm_send_pgid)

lemma calm_irqs: "sched_inv s \<Longrightarrow> calm s (fold irq_run xs s)"
  by (rule fold_invariant [where Q = "\<lambda>_. True"]) (auto intro: calm_trans calm_irq calm_inv)

lemma switch_to_runs:
  assumes s: "sched_inv s" and n: "sched_pick_next s = Some n"
  shows "runs (snd (switch_to M n s)) n"
proof -
  obtain Q where sinv: "sinv s Q {}" using s by (auto simp: sched_inv_def)
  note p = pick_next_ready [OF n]
  have len: "length (proc_table s) = 8" using inv_len [OF sinv] by simp
  have "sched_inv (snd (switch_to M n s))" using inv_switch_to [OF sinv p] by (auto simp: sched_inv_def)
  moreover have "g_current (snd (switch_to M n s)) = Some n" by (simp add: switch_to_def Let_def)
  moreover have "p_state (proc_table (snd (switch_to M n s)) ! n) = PROC_RUNNING"
    using p(1) len by (auto simp: switch_to_def Let_def proc_upd_proc on_res_def split: option.splits prod.splits)
  ultimately show ?thesis by (simp add: runs_def)
qed

lemma idle_loop_runs:
  "sched_inv s \<Longrightarrow> idle_loop M (map irq_run xs) s = Some (r, s') \<Longrightarrow> \<exists>c. runs s' c"
proof (induction xs arbitrary: s)
  case (Cons x xs)
  have i: "sched_inv (irq_run x s)" using calm_inv [OF calm_irq [OF Cons.prems(1)]] .
  show ?case
  proof (cases "sched_pick_next (irq_run x s)")
    case None
    then show ?thesis using Cons.IH [OF i] Cons.prems(2) by simp
  next
    case (Some n)
    then show ?thesis using switch_to_runs [OF i Some, of M] Cons.prems(2) by auto
  qed
qed simp

lemma schedule_runs:
  assumes s: "sched_inv s" and c: "g_current s = Some c" and r: "schedule M (map irq_run xs) s = Some (r, s')"
  shows "\<exists>c'. runs s' c'"
proof (cases "sched_pick_next s")
  case None
  then show ?thesis using r c s idle_loop_runs [OF s, of M xs r s'] by (auto simp: schedule_def runs_def split: if_splits)
next
  case (Some n)
  then show ?thesis using r switch_to_runs [OF s Some, of M] by (auto simp: schedule_def)
qed

lemma schedule_if_needed_runs:
  assumes run: "runs s c" and r: "schedule_if_needed M (map irq_run xs) s = Some (r, s')"
  shows "\<exists>c'. runs s' c'"
proof -
  have "runs (s\<lparr>g_need_switch := False\<rparr>) c" by (rule runs_other [OF run])
  with r run schedule_runs [of "s\<lparr>g_need_switch := False\<rparr>" c M xs r s'] show ?thesis
    by (auto simp: schedule_if_needed_def Let_def runs_def split: if_splits)
qed

section \<open>Start\<close>

definition zero_sched :: "'r \<Rightarrow> 'w \<Rightarrow> ('r, 'w) sched" where
  "zero_sched r w = \<lparr>proc_table = replicate MAX_PROCS (zero_process r), groups = replicate MAX_PROCS no_group,
     queues = (\<lambda>_. \<lparr>wq_head = None, wq_tail = None\<rparr>), g_current = None, g_need_switch = False, g_next_pid = 0, g_ticks = 0,
     g_display_owner_pid = 0, world = w\<rparr>"

lemma init_inv: "sched_inv (sched_init (zero_sched r w))"
proof -
  let ?s = "sched_init (zero_sched r w)"
  have p: "proc_table ?s = replicate 8 (zero_process r)" "groups ?s = replicate 8 no_group" "g_current ?s = None" "g_next_pid ?s = 1"
    by (simp_all add: sched_init_def zero_sched_def task_group_table_init_def MAX_PROCS_def zero_process_def)
  have q: "queues ?s q = \<lparr>wq_head = None, wq_tail = None\<rparr>" for q
    by (simp add: sched_init_def zero_sched_def task_group_table_init_def split: wq.splits)
  have w: "waits ?s i = None" if "i < 8" for i using that by (simp add: waits_def p zero_process_def)
  have "queues_are ?s (\<lambda>_. [])" using w by (auto simp: queues_are_def queue_is_def p q)
  moreover have u: "\<not> used_slot (pinfos ?s) i" for i by (auto simp: used_slot_def pinfos_def p pinfo_of_def zero_process_def kind_of_def)
  then have "ids_ok (pinfos ?s) (ginfos ?s) None 1"
    by (auto simp: ids_ok_def slots_ok_def counts_ok_def current_ok_def members_def lives_def ginfos_def p ginfo_of_def no_group_def)
      (auto simp: used_slot_def pinfos_def p pinfo_of_def zero_process_def kind_of_def)
  moreover have "sleepers ?s {}" by (auto simp: sleepers_def p zero_process_def)
  ultimately have "sinv ?s (\<lambda>_. []) {}" by (simp add: sinv_def p)
  then show ?thesis by (rule sinv_sched)
qed

lemma bootstrap_runs:
  assumes s: "sched_inv s" "g_current s = None" and b: "sched_bootstrap s = (Some i, s')"
  shows "runs s' i"
proof -
  obtain Q where sinv: "sinv s Q {}" using s by (auto simp: sched_inv_def)
  have i: "find (\<lambda>i. p_state (proc_table s ! i) = PROC_READY) [0..<MAX_PROCS] = Some i"
    "s' = (upd_proc i (\<lambda>p. p\<lparr>p_state := PROC_RUNNING\<rparr>) s)\<lparr>g_current := Some i\<rparr>"
    using b by (auto simp: sched_bootstrap_def split: option.splits)
  have i8: "i < 8" "p_state (proc_table s ! i) = PROC_READY" using find_slots [OF i(1)] by simp_all
  have "\<forall>k < 8. p_state (proc_table s ! k) = PROC_RUNNING \<longrightarrow> k = i" using running_current [OF sinv] s(2) by fastforce
  from inv_run [OF sinv i8 this] show ?thesis using inv_len [OF sinv] i8
    by (auto simp: runs_def i(2) sched_inv_def proc_upd_proc)
qed

section \<open>Steps\<close>

definition running :: "('r, 'w) sched \<Rightarrow> nat \<Rightarrow> bool" where
  "running s c \<longleftrightarrow> g_current s = Some c \<and> p_state (proc_table s ! c) = PROC_RUNNING"

text \<open>
  One event: an interrupt, the end of an interrupt, or a system call of the running task up to the
  point where a task runs in user mode again. New descriptors come without a wait queue and with no group
  or, for a thread, the group of its creator, as \<^verbatim>\<open>process_create_file\<close>, \<^verbatim>\<open>process_fork\<close> and
  \<^verbatim>\<open>process_clone\<close> leave them; the 32-bit process ids have not run out.
\<close>

inductive kstep :: "('r, 'w) machine \<Rightarrow> ('r, 'w) sched \<Rightarrow> ('r, 'w) sched \<Rightarrow> bool" for M :: "('r, 'w) machine" where
  k_irq: "kstep M s (irq_run x s)"
| k_end_irq: "running s c \<Longrightarrow> schedule_if_needed M (map irq_run xs) s = Some (r, s') \<Longrightarrow> kstep M s s'"
| k_spawn: "g_current s = None \<Longrightarrow> fresh_desc p wt \<Longrightarrow> p_group p = None \<Longrightarrow> g_next_pid s + 1 \<noteq> 0 \<Longrightarrow>
    sched_add M p wt ctx s = (r, s') \<Longrightarrow> kstep M s s'"
| k_boot: "g_current s = None \<Longrightarrow> sched_bootstrap s = (Some i, s') \<Longrightarrow> kstep M s s'"
| k_clone: "running s c \<Longrightarrow> fresh_desc p wt \<Longrightarrow> p_group p = None \<or> p_group p = p_group (proc_table s ! c) \<Longrightarrow>
    g_next_pid s + 1 \<noteq> 0 \<Longrightarrow> sched_add M p wt ctx s = (r, s') \<Longrightarrow> kstep M s s'"
| k_clone_undone: "running s c \<Longrightarrow> fresh_desc p wt \<Longrightarrow> p_group p = None \<or> p_group p = p_group (proc_table s ! c) \<Longrightarrow>
    g_next_pid s + 1 \<noteq> 0 \<Longrightarrow> sched_add M p wt ctx s = (Some tid, s1) \<Longrightarrow> sched_force_remove_task M tid s1 = (r, s') \<Longrightarrow> kstep M s s'"
| k_exec: "running s c \<Longrightarrow> p_wait_queue p = None \<Longrightarrow> kstep M s (sched_exec_current M p (queues s (QState c)) free s)"
| k_block: "running s c \<Longrightarrow> schedule M (map irq_run xs) (sched_block (Some (QExt n)) s) = Some (r, s') \<Longrightarrow> kstep M s s'"
| k_sleep: "running s c \<Longrightarrow> schedule M (map irq_run xs) (sched_block_until d s) = Some (r, s') \<Longrightarrow> kstep M s s'"
| k_wait: "running s c \<Longrightarrow> sched_waitpid M pid opts s = (WaitReturn r, s') \<Longrightarrow> kstep M s s'"
| k_wait_block: "running s c \<Longrightarrow> sched_waitpid M pid opts s = (WaitAgain, s1) \<Longrightarrow>
    schedule M (map irq_run xs) s1 = Some (r, s') \<Longrightarrow> kstep M s s'"
| k_exit: "running s c \<Longrightarrow> schedule M (map irq_run xs) (sched_mark_exit M (sched_set_exit_status st s)) = Some (r, s') \<Longrightarrow> kstep M s s'"
| k_exit_group: "running s c \<Longrightarrow> schedule M (map irq_run xs) (sched_mark_group_exit M st s) = Some (r, s') \<Longrightarrow> kstep M s s'"
| k_fault: "running s c \<Longrightarrow> kstep M s (sched_record_user_fault M a n s)"
| k_signal: "running s c \<Longrightarrow> sched_signal_check M s = (r, s') \<Longrightarrow> r = SigReturn \<or> (\<exists>n h. r = SigEnter n h) \<Longrightarrow> kstep M s s'"
| k_signal_off: "running s c \<Longrightarrow> sched_signal_check M s = (r, s1) \<Longrightarrow> r \<noteq> SigReturn \<Longrightarrow> (\<nexists>n h. r = SigEnter n h) \<Longrightarrow>
    schedule M (map irq_run xs) s1 = Some (r', s') \<Longrightarrow> kstep M s s'"
| k_claim: "running s c \<Longrightarrow> console_runtime_claim_display pid s = (b, s') \<Longrightarrow> kstep M s s'"
| k_release: "running s c \<Longrightarrow> console_runtime_release_display pid s = (b, s') \<Longrightarrow> kstep M s s'"

text \<open>Between two events no task is in the middle of the kernel.\<close>

definition kernel_ok :: "('r, 'w) sched \<Rightarrow> bool" where
  "kernel_ok s \<longleftrightarrow> sched_inv s \<and> (\<forall>c. g_current s = Some c \<longrightarrow> p_state (proc_table s ! c) = PROC_RUNNING)"

lemma runs_ok: "runs s c \<Longrightarrow> kernel_ok s"
  by (auto simp: runs_def kernel_ok_def)

lemma ok_runs: "kernel_ok s \<Longrightarrow> running s c \<Longrightarrow> runs s c"
  by (auto simp: runs_def kernel_ok_def running_def)

lemma calm_ok:
  assumes "calm s s'" "kernel_ok s"
  shows "kernel_ok s'"
proof (cases "g_current s")
  case None
  with assms show ?thesis by (auto simp: calm_def kernel_ok_def)
next
  case (Some c)
  with assms(2) have "runs s c" by (simp add: kernel_ok_def runs_def)
  from runs_ok [OF calm_runs [OF assms(1) this]] show ?thesis .
qed

lemma schedule_ok: "sched_inv s \<Longrightarrow> g_current s = Some c \<Longrightarrow> schedule M (map irq_run xs) s = Some (r, s') \<Longrightarrow> kernel_ok s'"
  using schedule_runs runs_ok by blast

lemma current_group:
  assumes sinv: "sinv s Q {}" and c: "g_current s = Some c"
  shows "\<exists>g < 8. p_group (proc_table s ! c) = Some g \<and> tg_used (groups s ! g)"
proof -
  have u: "used_slot (pinfos s) c" using inv_current [OF sinv] c by (simp add: current_ok_def)
  then obtain g where g: "g < 8" "pi_group (pinfos s c) = Some g" using sinv by (auto simp: sinv_def ids_ok_def slots_ok_def)
  have "members (pinfos s) g \<noteq> {}" using u g by (auto simp: members_def)
  then have "gi_used (ginfos s g)" using sinv g(1) by (auto simp: sinv_def ids_ok_def counts_ok_def)
  then show ?thesis using g by (auto simp: pinfos_def ginfos_def pinfo_of_def ginfo_of_def)
qed

lemma add_keeps:
  assumes ok: "kernel_ok s" and p: "fresh_desc p wt" "g_next_pid s + 1 \<noteq> 0" and a: "sched_add M p wt ctx s = (r, s')"
    and g: "p_group p = None \<or> (\<exists>c. running s c \<and> p_group p = p_group (proc_table s ! c))"
  shows "kernel_ok s'"
proof -
  obtain Q where sinv: "sinv s Q {}" using ok by (auto simp: kernel_ok_def sched_inv_def)
  have g': "\<forall>g. p_group p = Some g \<longrightarrow> g < 8 \<and> tg_used (groups s ! g)" using g current_group [OF sinv] by (fastforce simp: running_def)
  show ?thesis
  proof (cases "find (\<lambda>i. p_state (proc_table s ! i) = PROC_UNUSED) [0..<MAX_PROCS]")
    case None
    then show ?thesis using a ok by (simp add: add_no_slot)
  next
    case (Some i)
    have i: "p_state (proc_table s ! i) = PROC_UNUSED" using find_slots [OF Some] by simp
    have n: "sinv s' Q {}" "g_current s' = g_current s" "\<forall>k. k \<noteq> i \<longrightarrow> proc_table s' ! k = proc_table s ! k"
      using inv_add [OF sinv p(1) g' p(2) Some, of M ctx] a by auto
    have "p_state (proc_table s' ! c) = PROC_RUNNING" if c: "g_current s = Some c" for c
    proof -
      have "p_state (proc_table s ! c) = PROC_RUNNING" using ok c by (simp add: kernel_ok_def)
      moreover from this have "c \<noteq> i" using i by auto
      ultimately show ?thesis using n(3) by simp
    qed
    with n(2) sinv_sched [OF n(1)] show ?thesis by (simp add: kernel_ok_def)
  qed
qed

lemma add_remove_keeps:
  assumes run: "runs s c" and p: "fresh_desc p wt" "g_next_pid s + 1 \<noteq> 0" and a: "sched_add M p wt ctx s = (Some tid, s1)"
    and g: "p_group p = None \<or> p_group p = p_group (proc_table s ! c)" and f: "sched_force_remove_task M tid s1 = (r, s')"
  shows "runs s' c"
proof -
  obtain Q where sinv: "sinv s Q {}" and c: "g_current s = Some c" "p_state (proc_table s ! c) = PROC_RUNNING" "c < 8"
    by (rule runsE [OF run])
  have g': "\<forall>g. p_group p = Some g \<longrightarrow> g < 8 \<and> tg_used (groups s ! g)" using g current_group [OF sinv c(1)] by fastforce
  obtain i where i: "find (\<lambda>i. p_state (proc_table s ! i) = PROC_UNUSED) [0..<MAX_PROCS] = Some i"
    using a by (cases "find (\<lambda>i. p_state (proc_table s ! i) = PROC_UNUSED) [0..<MAX_PROCS]") (auto simp: add_no_slot)
  have i8: "i < 8" "p_state (proc_table s ! i) = PROC_UNUSED" using find_slots [OF i] by simp_all
  obtain h where h: "tid = g_next_pid s" "sinv s1 Q {}" "g_current s1 = g_current s" "\<forall>k. k \<noteq> i \<longrightarrow> proc_table s1 ! k = proc_table s ! k"
      "p_state (proc_table s1 ! i) = PROC_READY" "p_pid (proc_table s1 ! i) = g_next_pid s" "p_group (proc_table s1 ! i) = Some h"
      "if p_group p = None then Q (QGroup h) = [] else p_group p = Some h"
    using inv_add [OF sinv p(1) g' p(2) i, of M ctx] a by auto
  have ic: "c \<noteq> i" using i8 c by auto
  have r1: "runs s1 c" using h c ic by (auto simp: runs_def sched_inv_def)
  have "Q (QGroup h) = [] \<or> p_group (proc_table s1 ! c) = Some h" using h(8) g h(4) ic by (auto split: if_splits)
  from inv_force_remove [OF r1 h(2) i8(1) h(5,7) this, of M] show ?thesis using f h(1,6) by auto
qed

lemma exec_queue: "runs s c \<Longrightarrow> p_wait_queue p = None \<Longrightarrow> fresh_desc p (queues s (QState c))"
  by (erule runsE) (auto simp: fresh_desc_def sinv_def queues_are_def queue_is_def)

lemma fault_runs: "runs s c \<Longrightarrow> runs (sched_record_user_fault M a n s) c"
  by (auto simp: sched_record_user_fault_def runs_def [of s] same_proc_def pinfo_of_def split: option.splits intro!: runs_proc runs_other)

lemma block_current:
  assumes run: "runs s c"
  shows "g_current (sched_block (Some q) s) = Some c" "g_current (sched_block_until d s) = Some c"
proof -
  obtain Q where sinv: "sinv s Q {}" and c: "g_current s = Some c" "c < 8" by (rule runsE [OF run])
  note k = clear_wait_self [OF sinv c(2)]
  show "g_current (sched_block (Some q) s) = Some c" "g_current (sched_block_until d s) = Some c"
    using k c(1) by (auto simp: sched_block_def sched_block_until_def sched_wait_queue_enqueue_def Let_def split: option.splits)
qed

lemma block_ext: "runs s c \<Longrightarrow> sched_inv (sched_block (Some (QExt n)) s)"
  by (erule runsE) (rule inv_block, auto simp: live_slot_def)

lemma block_until: "runs s c \<Longrightarrow> sched_inv (sched_block_until d s)"
  by (erule runsE) (rule inv_block_until, auto simp: live_slot_def)

lemma kstep_ok:
  assumes "kstep M s s'" "kernel_ok s"
  shows "kernel_ok s'"
  using assms
proof (induction rule: kstep.induct)
  case (k_irq s x)
  then have "sched_inv s" by (simp add: kernel_ok_def)
  from calm_ok [OF calm_irq [OF this] k_irq] show ?case .
next
  case (k_end_irq s c xs r s')
  then show ?case using schedule_if_needed_runs [OF ok_runs] runs_ok by blast
next
  case (k_spawn s p wt ctx r s')
  then show ?case using add_keeps by blast
next
  case (k_boot s i s')
  then show ?case using bootstrap_runs [of s i s'] runs_ok by (auto simp: kernel_ok_def)
next
  case (k_clone s c p wt ctx r s')
  then show ?case using add_keeps by blast
next
  case (k_clone_undone s c p wt ctx tid s1 r s')
  then show ?case using add_remove_keeps [OF ok_runs] runs_ok by blast
next
  case (k_exec s c p free)
  then show ?case using inv_exec [OF ok_runs exec_queue [OF ok_runs]] runs_ok by blast
next
  case (k_block s c xs n r s')
  then show ?case using schedule_ok [OF block_ext block_current(1)] ok_runs by blast
next
  case (k_sleep s c xs d r s')
  then show ?case using schedule_ok [OF block_until block_current(2)] ok_runs by blast
next
  case (k_wait s c pid opts r s')
  then show ?case using inv_waitpid(1) [OF ok_runs] runs_ok by blast
next
  case (k_wait_block s c pid opts s1 xs r s')
  then show ?case using inv_waitpid(2) [OF ok_runs] schedule_ok by blast
next
  case (k_exit s c xs st r s')
  then show ?case using schedule_ok [OF inv_mark_exit(1,2)] set_exit_status_runs [OF ok_runs] by blast
next
  case (k_exit_group s c xs st r s')
  then show ?case using schedule_ok [OF inv_mark_group_exit(1,2)] ok_runs by blast
next
  case (k_fault s c a n)
  then show ?case using fault_runs [OF ok_runs] runs_ok by blast
next
  case (k_signal s c r s')
  then show ?case using signal_check_delivered [OF ok_runs, of s c M r s'] runs_ok by (auto simp: delivered_def)
next
  case (k_signal_off s c r s1 xs r' s')
  then have "delivered r s1 c" using signal_check_delivered [OF ok_runs] by blast
  then have "sched_inv s1 \<and> g_current s1 = Some c" using k_signal_off by (cases r) (auto simp: delivered_def)
  then show ?case using schedule_ok k_signal_off by blast
next
  case (k_claim s c pid b s')
  then show ?case by (auto simp: console_runtime_claim_display_def kernel_ok_def intro: sched_inv_other split: if_splits)
next
  case (k_release s c pid b s')
  then show ?case by (auto simp: console_runtime_release_display_def kernel_ok_def intro: sched_inv_other split: if_splits)
qed

inductive reachable :: "('r, 'w) machine \<Rightarrow> ('r, 'w) sched \<Rightarrow> bool" for M :: "('r, 'w) machine" where
  reach_init: "reachable M (sched_init (zero_sched r w))"
| reach_step: "reachable M s \<Longrightarrow> kstep M s s' \<Longrightarrow> reachable M s'"

lemma init_ok: "kernel_ok (sched_init (zero_sched r w))"
proof -
  have "g_current (sched_init (zero_sched r w)) = None" by (simp add: sched_init_def)
  with init_inv show ?thesis by (simp add: kernel_ok_def)
qed

lemma reachable_ok: "reachable M s \<Longrightarrow> kernel_ok s"
  by (induction rule: reachable.induct) (blast intro: init_ok kstep_ok)+

end
