(* ===== verification/Sched_Live.thy ===== *)
theory Sched_Live
  imports Sched_Run
begin

text \<open>
  What the tasks of kernel/proc/sched.c may rely on: the states of the table, wake-ups that are not
  lost, the processor for every ready task, and an exit status for the task that waits for it.
\<close>

section \<open>What operations keep\<close>

abbreviation in_state :: "('r, 'w) sched \<Rightarrow> nat \<Rightarrow> proc_state \<Rightarrow> bool" where
  "in_state s i x \<equiv> p_state (proc_table s ! i) = x"

abbreviation ready :: "('r, 'w) sched \<Rightarrow> nat \<Rightarrow> bool" where
  "ready s i \<equiv> in_state s i PROC_READY"

text \<open>What a task is, besides its place in the queues.\<close>

definition who :: "'r process \<Rightarrow> u32 \<times> u32 \<times> u32 \<times> nat option \<times> u32" where
  "who p = (p_pid p, p_tid p, p_tgid p, p_group p, p_exit_status p)"

lemma who_simps [simp]:
  "who (p\<lparr>p_wait_queue := x\<rparr>) = who p" "who (p\<lparr>p_wait_next := y\<rparr>) = who p" "who (p\<lparr>p_wait_deadline := d\<rparr>) = who p"
  "who (p\<lparr>p_wait_deadline_set := b\<rparr>) = who p" "who (p\<lparr>p_state := z\<rparr>) = who p" "who (p\<lparr>p_res := r\<rparr>) = who p"
  "who (p\<lparr>p_sig_pending := w\<rparr>) = who p" "who (p\<lparr>p_sig_blocked := w\<rparr>) = who p" "who (p\<lparr>p_crash_valid := b\<rparr>) = who p"
  by (simp_all add: who_def)

lemma remove_walk_who:
  "who (proc_table (remove_walk n q k pr c s) ! i) = who (proc_table s ! i)"
  "p_state (proc_table (remove_walk n q k pr c s) ! i) = p_state (proc_table s ! i)"
  "groups (remove_walk n q k pr c s) = groups s" "g_current (remove_walk n q k pr c s) = g_current s"
  by (induction n q k pr c s rule: remove_walk.induct) (auto simp: Let_def proc_upd_proc split: option.splits)

lemma queue_remove_who:
  "who (proc_table (sched_wait_queue_remove q k s) ! i) = who (proc_table s ! i)"
  "p_state (proc_table (sched_wait_queue_remove q k s) ! i) = p_state (proc_table s ! i)"
  "groups (sched_wait_queue_remove q k s) = groups s" "g_current (sched_wait_queue_remove q k s) = g_current s"
  by (simp_all add: sched_wait_queue_remove_def remove_walk_who del: remove_walk.simps)

lemma clear_wait_who [simp]:
  "who (proc_table (sched_clear_wait k s) ! i) = who (proc_table s ! i)"
  "p_state (proc_table (sched_clear_wait k s) ! i) = p_state (proc_table s ! i)"
  "groups (sched_clear_wait k s) = groups s" "g_current (sched_clear_wait k s) = g_current s"
  by (auto simp: sched_clear_wait_def Let_def queue_remove_who proc_upd_proc split: option.splits)

lemma wake_walk_who:
  "who (proc_table (snd (wake_walk n p s w)) ! i) = who (proc_table s ! i)"
  "groups (snd (wake_walk n p s w)) = groups s"
  by (induction n p s w rule: wake_walk.induct) (auto simp: Let_def proc_upd_proc split: option.splits)

lemma ready_upd: "in_state s i x \<Longrightarrow> i \<noteq> k \<or> (\<forall>p. p_state p = x \<longrightarrow> p_state (f p) = x) \<Longrightarrow> in_state (upd_proc k f s) i x"
  by (auto simp: proc_upd_proc)

lemma wake_walk_ready: "in_state s i x \<Longrightarrow> x \<noteq> PROC_BLOCKED \<Longrightarrow> in_state (snd (wake_walk n p s w)) i x"
proof (induction n arbitrary: p s w)
  case (Suc n)
  show ?case
  proof (cases p)
    case (Some k)
    define s1 where "s1 = upd_proc k (\<lambda>p. p\<lparr>p_wait_queue := None, p_wait_next := None, p_wait_deadline := 0, p_wait_deadline_set := False\<rparr>) s"
    have s1: "in_state s1 i x" unfolding s1_def by (rule ready_upd [OF Suc.prems(1)]) simp
    have "in_state (upd_proc k (\<lambda>p. p\<lparr>p_state := PROC_READY\<rparr>) s1) i x" if "in_state s1 k PROC_BLOCKED"
      by (rule ready_upd [OF s1]) (use s1 that Suc.prems(2) in auto)
    with s1 Suc.IH Suc.prems(2) show ?thesis unfolding wake_walk.simps Some option.case Let_def s1_def [symmetric] by simp
  qed (use Suc.prems in simp)
qed simp

lemma wake_all_who [simp]:
  "who (proc_table (sched_wake_all q s) ! i) = who (proc_table s ! i)"
  "groups (sched_wake_all q s) = groups s"
  using wake_walk_who [of "MAX_PROCS + 1" "wq_head (queues s q)" "set_queue q None None s" False]
  by (auto simp: sched_wake_all_def simp del: wake_walk.simps split: prod.splits)

lemma wake_all_ready: "in_state s i x \<Longrightarrow> x \<noteq> PROC_BLOCKED \<Longrightarrow> in_state (sched_wake_all q s) i x"
  using wake_walk_ready [of "set_queue q None None s" i x "MAX_PROCS + 1" "wq_head (queues s q)" False]
  by (auto simp: sched_wake_all_def simp del: wake_walk.simps split: prod.splits)

lemma make_ready_who [simp]:
  "who (proc_table (sched_make_ready k s) ! i) = who (proc_table s ! i)" "groups (sched_make_ready k s) = groups s"
  by (auto simp: sched_make_ready_def Let_def proc_upd_proc)

lemma make_ready_ready: "ready s i \<Longrightarrow> ready (sched_make_ready k s) i"
  by (auto simp: sched_make_ready_def Let_def proc_upd_proc)

definition same_who :: "nat \<Rightarrow> nat \<Rightarrow> ('r, 'w) sched \<Rightarrow> ('r, 'w) sched \<Rightarrow> bool" where
  "same_who i h s s' \<longleftrightarrow> who (proc_table s' ! i) = who (proc_table s ! i) \<and> tg_group_exit (groups s' ! h) = tg_group_exit (groups s ! h)"

lemma same_fold: "(\<And>x s. same_who i h s (f x s)) \<Longrightarrow> same_who i h s (fold f xs s)"
  by (induction xs arbitrary: s) (auto simp: same_who_def)

lemma same_refl [simp]: "same_who i h s s"
  by (simp add: same_who_def)

lemma same_upd: "same_who i h s t \<Longrightarrow> (\<And>p. who (f p) = who p) \<Longrightarrow> same_who i h s (upd_proc k f t)"
  by (auto simp: same_who_def proc_upd_proc)

lemma same_let:
  fixes a :: "('r, 'w) sched" and st :: proc_state
  shows "same_who i h s a \<Longrightarrow> (\<And>x. same_who i h s x \<Longrightarrow> same_who i h s (f x)) \<Longrightarrow> same_who i h s (Let a f)"
    "(\<And>x. same_who i h s (f' x)) \<Longrightarrow> same_who i h s (Let st f')"
  by (simp_all add: Let_def)

lemma same_if: "same_who i h s a \<Longrightarrow> same_who i h s b \<Longrightarrow> same_who i h s (if c then a else b)"
  by simp

lemma same_recipient: "same_who i h s (signal_recipient n b r s)"
  unfolding signal_recipient_def
  by (intro same_let same_if same_upd) (auto simp: same_who_def)

lemma set_signal_who [simp]:
  "proc_table (task_group_set_process_signal g n s) = proc_table s"
  "tg_group_exit (groups (task_group_set_process_signal g n s) ! h) = tg_group_exit (groups s ! h)"
  by (auto simp: task_group_set_process_signal_def group_upd_group split: option.splits)

lemma send_signal_who [simp]:
  "who (proc_table (sched_send_signal pid n s) ! i) = who (proc_table s ! i)"
  "tg_group_exit (groups (sched_send_signal pid n s) ! h) = tg_group_exit (groups s ! h)"
  by (auto simp: sched_send_signal_def Let_def same_recipient [unfolded same_who_def] split: prod.splits option.splits)

lemma same_tick: "same_who i h s (sched_tick s)"
proof -
  define f :: "nat \<Rightarrow> ('a, 'b) sched \<Rightarrow> ('a, 'b) sched" where
    "f = (\<lambda>i s. if p_state (proc_table s ! i) = PROC_BLOCKED \<and> p_wait_deadline_set (proc_table s ! i) \<and>
                   sint (g_ticks s - p_wait_deadline (proc_table s ! i)) \<ge> 0 then sched_make_ready i s else s)"
  have "same_who i h s (f x s)" for x s by (simp add: f_def same_who_def)
  from same_fold [of i h f, OF this, of "s\<lparr>g_ticks := g_ticks s + 1\<rparr>" "[0..<MAX_PROCS]"]
  show ?thesis unfolding sched_tick_def Let_def f_def [symmetric] same_who_def by simp
qed

lemma same_pgid: "same_who i h s (sched_send_signal_to_pgid pgid n s)"
proof -
  define f :: "nat \<Rightarrow> ('a, 'b) sched \<Rightarrow> ('a, 'b) sched" where
    "f = (\<lambda>i s. if p_pgid (proc_table s ! i) = pgid \<and> live_slot s i then sched_send_signal (p_pid (proc_table s ! i)) n s else s)"
  have "same_who i h s (f x s)" for x s by (simp add: f_def same_who_def)
  from same_fold [of i h f, OF this] show ?thesis unfolding sched_send_signal_to_pgid_def f_def [symmetric] by simp
qed

lemma irq_who: "same_who i h s (irq_run x s)"
  by (cases x) (auto simp: same_tick same_pgid, auto simp: same_who_def)

lemma irqs_who: "same_who i h s (fold irq_run xs s)"
  by (rule same_fold) (rule irq_who)

section \<open>A ready task stays ready\<close>

lemma on_res_ready: "in_state s i x \<Longrightarrow> in_state (on_res k f s) i x"
  by (auto simp: on_res_def intro!: ready_upd split: prod.splits)

lemma fold_ready: "(\<And>y s. in_state s i x \<Longrightarrow> in_state (f y s) i x) \<Longrightarrow> in_state s i x \<Longrightarrow> in_state (fold f xs s) i x"
  by (induction xs arbitrary: s) auto

lemma put_res_ready: "in_state s i x \<Longrightarrow> x \<noteq> PROC_BLOCKED \<Longrightarrow> in_state (put_res k f s) i x"
  by (auto simp: put_res_def intro!: fold_ready wake_all_ready ready_upd split: prod.splits)

lemma task_group_procs [simp]:
  "proc_table (task_group_put g s) = proc_table s" "proc_table (task_group_remove_task g s) = proc_table s"
  "proc_table (task_group_add_task g s) = proc_table s" "proc_table (task_group_get g s) = proc_table s"
  "proc_table (console_runtime_release_process pid s) = proc_table s"
  by (auto simp: task_group_put_def task_group_remove_task_def task_group_add_task_def task_group_get_def Let_def
      console_runtime_release_process_def split: option.splits)

lemma wake_group_ready: "in_state s i x \<Longrightarrow> x \<noteq> PROC_BLOCKED \<Longrightarrow> in_state (sched_wake_group_waiters g s) i x"
  by (auto simp: sched_wake_group_waiters_def intro!: fold_ready wake_all_ready)

lemma same_trans: "same_who k h s t \<Longrightarrow> same_who k h t u \<Longrightarrow> same_who k h s u"
  by (simp add: same_who_def)

lemma same_on_res: "same_who k h s (on_res i f s)"
  by (auto simp: on_res_def intro!: same_upd split: prod.splits) (simp add: same_who_def)

lemma same_put_res: "same_who k h s (put_res i f s)"
proof -
  obtain r w qs where f: "f (p_res (proc_table s ! i)) (world s) = (r, w, qs)" by (cases "f (p_res (proc_table s ! i)) (world s)") auto
  have "same_who k h s (upd_proc i (\<lambda>p. p\<lparr>p_res := r\<rparr>) (s\<lparr>world := w\<rparr>))" by (rule same_upd) (simp_all add: same_who_def)
  from same_trans [OF this same_fold [of k h "\<lambda>n. sched_wake_all (QExt n)"]] show ?thesis by (simp add: put_res_def f same_who_def)
qed

lemma same_remove: "same_who k h s (task_group_remove_task g s)"
  by (auto simp: same_who_def task_group_remove_task_def group_upd_group split: option.splits)

lemma same_release: "same_who k h s (console_runtime_release_process pid s)"
  by (auto simp: same_who_def console_runtime_release_process_def)

lemma same_wake_group: "same_who k h s (sched_wake_group_waiters g s)"
  unfolding sched_wake_group_waiters_def
  by (rule same_trans [OF _ same_fold]) (auto simp: same_who_def)

lemma reap_ready: "ready s i \<Longrightarrow> ready (sched_reap M z s) i"
proof (cases "z = i")
  case False
  assume "ready s i"
  with False show ?thesis
    by (auto simp: sched_reap_def Let_def sched_wait_queue_init_def intro!: ready_upd on_res_ready put_res_ready)
qed (simp add: sched_reap_def)

lemma reap_group_ready: "ready s i \<Longrightarrow> ready (sched_reap_group M g s) i"
  by (auto simp: sched_reap_group_def intro!: fold_ready reap_ready)

lemma mark_exit_keeps:
  assumes c: "g_current s = Some c"
  shows "in_state s i x \<Longrightarrow> x \<noteq> PROC_BLOCKED \<Longrightarrow> c \<noteq> i \<Longrightarrow> in_state (sched_mark_exit M s) i x"
    and "\<forall>g. p_group (proc_table s ! c) = Some g \<longrightarrow> \<not> tg_group_exit (groups s ! g) \<Longrightarrow> same_who k h s (sched_mark_exit M s)"
proof -
  define grp where "grp = p_group (proc_table s ! c)"
  define s1 where "s1 = (case grp of
      Some g \<Rightarrow> (if tg_group_exit (groups s ! g) then upd_proc c (\<lambda>p. p\<lparr>p_exit_status := tg_exit_status (groups s ! g)\<rparr>) s else s) | None \<Rightarrow> s)"
  define tidptr where "tidptr = p_clear_child_tid (proc_table s1 ! c)"
  define s2 where "s2 = (if tidptr \<noteq> 0 then on_res c (\<lambda>r. mc_clear_tid M r tidptr) s1 else s1)"
  define s3 where "s3 = console_runtime_release_process (p_pid (proc_table s2 ! c)) s2"
  define s4 where "s4 = task_group_remove_task grp (put_res c (mc_put_files M) s3)"
  define s5 where "s5 = (case grp of
      Some g \<Rightarrow>
        (if task_group_live_count grp s4 = 0
         then sched_wake_group_waiters g
           (if tg_group_exit (groups s4 ! g) then s4 else upd_group g (\<lambda>x. x\<lparr>tg_exit_status := p_exit_status (proc_table s4 ! c)\<rparr>) s4)
         else s4)
    | None \<Rightarrow> s4)"
  define s6 where "s6 = upd_proc c (\<lambda>p. p\<lparr>p_state := PROC_ZOMBIE\<rparr>) s5"
  have e: "sched_mark_exit M s = (if grp = None \<or> task_group_live_count grp s6 = 0 then sched_wake_all (QState c) s6 else s6)"
    unfolding sched_mark_exit_def c(1) option.case Let_def grp_def [symmetric] s1_def [symmetric] tidptr_def [symmetric] s2_def [symmetric]
      s3_def [symmetric] s4_def [symmetric] s5_def [symmetric] s6_def [symmetric] ..
  {
    assume r: "in_state s i x" "x \<noteq> PROC_BLOCKED" "c \<noteq> i"
    have "in_state s1 i x" using r by (auto simp: s1_def intro!: ready_upd split: option.splits)
    then have "in_state s2 i x" by (auto simp: s2_def intro!: on_res_ready)
    then have "in_state s4 i x" using r(2) by (auto simp: s3_def s4_def intro!: put_res_ready)
    then have "in_state s5 i x" using r(2) by (auto simp: s5_def intro!: wake_group_ready split: option.splits)
    then have "in_state s6 i x" using r(3) by (auto simp: s6_def intro!: ready_upd)
    then show "in_state (sched_mark_exit M s) i x" using r(2) unfolding e by (auto intro: wake_all_ready)
  }
  {
    assume g: "\<forall>g. p_group (proc_table s ! c) = Some g \<longrightarrow> \<not> tg_group_exit (groups s ! g)"
    have "same_who k h s s1" using g by (auto simp: s1_def grp_def split: option.splits)
    moreover have "same_who k h s1 s2" by (simp add: s2_def same_on_res)
    moreover have "same_who k h s2 s3" by (simp add: s3_def same_release)
    moreover have "same_who k h s3 s4" unfolding s4_def by (rule same_trans [OF same_put_res same_remove])
    moreover have "same_who k h s4 s5"
    proof (cases grp)
      case (Some g)
      have "same_who k h s4 (if tg_group_exit (groups s4 ! g) then s4 else upd_group g (\<lambda>x. x\<lparr>tg_exit_status := p_exit_status (proc_table s4 ! c)\<rparr>) s4)"
        by (auto simp: same_who_def group_upd_group)
      from same_trans [OF this same_wake_group [of k h _ g]] show ?thesis by (simp add: s5_def Some)
    qed (simp add: s5_def)
    moreover have "same_who k h s5 s6" unfolding s6_def by (auto intro!: same_upd)
    moreover have "same_who k h s6 (sched_mark_exit M s)" unfolding e by (auto simp: same_who_def)
    ultimately show "same_who k h s (sched_mark_exit M s)" using same_trans by blast
  }
qed

lemma mark_group_exit_ready:
  assumes r: "ready s i" and c: "g_current s = Some c" "c \<noteq> i"
  shows "ready (sched_mark_group_exit M st s) i"
proof (cases "p_group (proc_table s ! c)")
  case (Some g)
  define f :: "nat \<Rightarrow> ('a, 'b) sched \<Rightarrow> ('a, 'b) sched" where
    "f = (\<lambda>i s. if live_slot s i \<and> p_group (proc_table s ! i) = Some g \<and> i \<noteq> c
            then upd_proc i (\<lambda>p. p\<lparr>p_state := PROC_READY\<rparr>) (sched_clear_wait i s) else s)"
  have f: "ready (fold f xs t) i \<and> g_current (fold f xs t) = Some c" if "ready t i" "g_current t = Some c" for xs and t :: "('a, 'b) sched"
    using that by (induction xs arbitrary: t) (auto simp: f_def proc_upd_proc)
  show ?thesis
    using r c f by (auto simp: sched_mark_group_exit_def Some Let_def f_def [symmetric] intro!: mark_exit_keeps(1))
qed (use assms in \<open>simp add: sched_mark_group_exit_def\<close>)

lemma mark_signaled_ready: "ready s i \<Longrightarrow> g_current s = Some c \<Longrightarrow> c \<noteq> i \<Longrightarrow> ready (sched_mark_signaled M n d s) i"
  by (auto simp: sched_mark_signaled_def intro!: mark_exit_keeps(1) ready_upd)

lemma recipient_ready:
  assumes "ready s i"
  shows "ready (signal_recipient n b r s) i"
proof (cases "r = i")
  case False
  have let_ready: "ready a i \<Longrightarrow> (\<And>x. ready x i \<Longrightarrow> ready (f x) i) \<Longrightarrow> ready (Let a f) i"
    for a :: "('a, 'b) sched" and f :: "('a, 'b) sched \<Rightarrow> ('a, 'b) sched" by (simp add: Let_def)
  have let_state: "(\<And>x. ready (f x) i) \<Longrightarrow> ready (Let a f) i" for a :: proc_state and f :: "proc_state \<Rightarrow> ('a, 'b) sched" by (simp add: Let_def)
  have if_ready: "ready a i \<Longrightarrow> ready b i \<Longrightarrow> ready (if x then a else b) i" for a b :: "('a, 'b) sched" and x by simp
  show ?thesis unfolding signal_recipient_def using assms False
    by (intro let_ready let_state if_ready ready_upd make_ready_ready) (auto simp: if_ready)
next
  case True
  have st: "p_state p = PROC_READY \<Longrightarrow> (if p_state p = PROC_STOPPED then PROC_READY else p_state p) = PROC_READY" for p :: "'a process" by simp
  show ?thesis unfolding signal_recipient_def Let_def using assms True
    by (cases "n = SIGCONT"; cases "n = SIGSTOP \<or> n = SIGTSTP"; cases b) (simp_all add: proc_upd_proc ready_upd)
qed

lemma send_signal_ready: "ready s i \<Longrightarrow> ready (sched_send_signal pid n s) i"
  by (auto simp: sched_send_signal_def Let_def intro!: recipient_ready split: prod.splits option.splits)

lemma mark_stopped_ready: "ready s i \<Longrightarrow> g_current s = Some c \<Longrightarrow> c \<noteq> i \<Longrightarrow> ready (sched_mark_stopped n s) i"
  by (auto simp: sched_mark_stopped_def Let_def intro!: wake_all_ready send_signal_ready ready_upd)

lemma block_ready: "ready s i \<Longrightarrow> g_current s = Some c \<Longrightarrow> c \<noteq> i \<Longrightarrow> ready (sched_block q s) i"
  by (auto simp: sched_block_def Let_def sched_wait_queue_enqueue_def intro!: ready_upd split: option.splits)

lemma block_until_ready: "ready s i \<Longrightarrow> g_current s = Some c \<Longrightarrow> c \<noteq> i \<Longrightarrow> ready (sched_block_until d s) i"
  by (auto simp: sched_block_until_def intro!: ready_upd)

lemma waitpid_ready: "ready s i \<Longrightarrow> g_current s = Some c \<Longrightarrow> c \<noteq> i \<Longrightarrow> sched_waitpid M pid opts s = (x, s') \<Longrightarrow> ready s' i"
  by (auto simp: sched_waitpid_def Let_def intro!: reap_ready reap_group_ready block_ready split: option.splits if_splits)

lemma exec_ready: "ready s i \<Longrightarrow> g_current s = Some c \<Longrightarrow> c \<noteq> i \<Longrightarrow> ready (sched_exec_current M p wt free s) i"
  by (auto simp: sched_exec_current_def Let_def intro!: ready_upd)

lemma set_exit_status_ready: "ready s i \<Longrightarrow> ready (sched_set_exit_status st s) i"
  by (auto simp: sched_set_exit_status_def intro!: ready_upd split: option.splits)

lemma clear_crash_ready: "ready s i \<Longrightarrow> ready (clear_crash c b s) i" "g_current (clear_crash c b s) = g_current s"
  by (auto simp: clear_crash_def intro!: ready_upd)

lemma enter_handler_ready:
  "ready s i \<Longrightarrow> g_current s = Some c \<Longrightarrow> c \<noteq> i \<Longrightarrow> enter_handler M c n h s = (x, s') \<Longrightarrow> ready s' i"
  by (auto simp: enter_handler_def intro!: mark_signaled_ready split: prod.splits bool.splits)

lemma deliver_ready:
  assumes r: "ready s i" and c: "g_current s = Some c" "c \<noteq> i" and d: "deliver_signal M c n s = (x, s')"
  shows "ready s' i"
proof -
  have k: "ready (sched_mark_signaled M m dc (clear_crash c b (s\<lparr>world := w\<rparr>))) i" "ready (clear_crash c b s) i" for m b dc w
    using r c by (auto intro!: mark_signaled_ready simp: clear_crash_ready)
  have e: "enter_handler M c m h (clear_crash c b s) = (x, s') \<Longrightarrow> ready s' i" "enter_handler M c m h s = (x, s') \<Longrightarrow> ready s' i" for m h b
    using r c enter_handler_ready [of "clear_crash c b s" i c M m h x s'] enter_handler_ready [of s i c M m h x s']
    by (simp_all add: clear_crash_ready)
  define fc where "fc = (p_crash_valid (proc_table s ! c) \<and> p_crash_signum (proc_table s ! c) = of_nat n)"
  define h where "h = (if fc \<and> sched_signal_handler M s c n = SIG_IGN then SIG_DFL else sched_signal_handler M s c n)"
  have k': "ready (sched_mark_signaled M m dc (clear_crash c b s)) i" for m b dc
    using r c by (auto intro!: mark_signaled_ready simp: clear_crash_ready)
  show ?thesis using d k k' r mark_stopped_ready [OF r c] e
    unfolding deliver_signal_def Let_def fc_def [symmetric] h_def [symmetric] by (auto split: if_splits prod.splits)
qed

lemma next_signal_ready: "ready s i \<Longrightarrow> next_signal c s = (x, s') \<Longrightarrow> ready s' i \<and> g_current s' = g_current s"
  by (auto simp: next_signal_def Let_def task_group_take_process_signal_def split: option.splits if_splits prod.splits intro!: ready_upd)

lemma signal_check_ready:
  assumes r: "ready s i" and c: "g_current s = Some c" "c \<noteq> i" and d: "sched_signal_check M s = (x, s')"
  shows "ready s' i"
proof -
  let ?s = "s\<lparr>world := mc_sanitize M (p_res (proc_table s ! c)) (world s)\<rparr>"
  have r1: "ready ?s i" "g_current ?s = Some c" using r c by simp_all
  obtain y s2 where y: "next_signal c ?s = (y, s2)" by fastforce
  have r2: "ready s2 i" "g_current s2 = Some c" using next_signal_ready [OF r1(1) y] r1 by simp_all
  show ?thesis using d r1 r2 mark_exit_keeps(1) [OF r1(2,1) _ c(2)] deliver_ready [OF r2 c(2)]
    by (auto simp: sched_signal_check_def c Let_def y split: if_splits option.splits)
qed

lemma add_ready: 
  assumes r: "ready s i" and a: "sched_add M p wt ctx s = (x, s')"
  shows "ready s' i"
proof (cases "find (\<lambda>i. p_state (proc_table s ! i) = PROC_UNUSED) [0..<MAX_PROCS]")
  case (Some k)
  have "k \<noteq> i" using find_slots [OF Some] r by auto
  have g: "proc_table s1 = proc_table t" if "add_to_group q t = (y, s1)" for q y s1 and t :: "('a, 'b) sched"
    using that by (auto simp: add_to_group_def task_group_create_def Let_def split: option.splits prod.splits)
  show ?thesis using r a \<open>k \<noteq> i\<close>
    by (auto simp: sched_add_def Some Let_def split: option.splits prod.splits if_splits dest!: g intro!: on_res_ready ready_upd)
qed (use assms in \<open>simp add: sched_add_def\<close>)

lemma force_remove_ready:
  assumes "ready s i" "p_pid (proc_table s ! i) \<noteq> tid" "sched_force_remove_task M tid s = (x, s')"
  shows "ready s' i"
proof (cases "sched_find_slot s tid")
  case (Some k)
  have "k \<noteq> i" using find_slots [of _ k] Some assms(2) by (auto simp: sched_find_slot_def)
  then show ?thesis using assms(1,3) Some
    by (auto simp: sched_force_remove_task_def Let_def split: if_splits intro!: ready_upd on_res_ready put_res_ready)
qed (use assms in \<open>simp add: sched_force_remove_task_def\<close>)

section \<open>The round\<close>

text \<open>How many slots lie between the current task and slot \<open>i\<close> in the order in which slots are tried.\<close>

definition dist :: "nat \<Rightarrow> nat \<Rightarrow> nat" where
  "dist c i = nat ((int i - int c - 1) mod 8)"

lemma dist_step:
  assumes j: "j \<le> dist c i" and i: "i < 8" and n: "n = nat ((int c + 1 + int j) mod 8)"
  shows "n = i \<or> dist n i < dist c i"
proof -
  define D where "D = (int i - int c - 1) mod 8"
  have D: "0 \<le> D" "D < 8" "dist c i = nat D" by (simp_all add: D_def dist_def)
  have nn: "int n = (int c + 1 + int j) mod 8" using n by simp
  show ?thesis
  proof (cases "int j = D")
    case True
    have "(int c + 1 + int j) mod 8 = (int c + 1 + (int i - int c - 1)) mod 8" unfolding True D_def by (rule mod_add_right_eq)
    then have "int n = int i" using i nn by simp
    then show ?thesis by simp
  next
    case False
    then have less: "int j + 1 \<le> D" using j D by linarith
    have "(int i - int n - 1) mod 8 = (int i - (int c + 1 + int j) - 1) mod 8"
      unfolding nn by (metis mod_diff_left_eq mod_diff_right_eq)
    also have "\<dots> = ((int i - int c - 1) - (int j + 1)) mod 8" by (simp add: algebra_simps)
    also have "\<dots> = (D - (int j + 1)) mod 8" unfolding D_def by (rule mod_diff_left_eq [symmetric])
    also have "\<dots> = D - (int j + 1)" using less D by (intro mod_pos_pos_trivial) simp_all
    finally show ?thesis using less D by (simp add: dist_def)
  qed
qed

lemma dist_less: "dist c i < 8"
  by (simp add: dist_def nat_less_iff)

lemma dist_hits:
  assumes "i < 8"
  shows "(int c + int (1 + dist c i)) mod 8 = int i"
proof -
  have "(int c + int (1 + dist c i)) mod 8 = (int c + 1 + (int i - int c - 1) mod 8) mod 8" by (simp add: dist_def add.assoc)
  also have "\<dots> = (int c + 1 + (int i - int c - 1)) mod 8" by (rule mod_add_right_eq)
  finally show ?thesis using assms by simp
qed

lemma pick_next_dist:
  assumes p: "sched_pick_next s = Some n" and c: "g_current s = Some c" "c < 8" and i: "i < 8" "ready s i"
  shows "n = i \<or> dist n i < dist c i"
proof -
  let ?P = "\<lambda>k. ready s (nat ((int c + int k) mod int MAX_PROCS))"
  obtain k where k: "find ?P [1..<MAX_PROCS + 1] = Some k" "n = nat ((int c + int k) mod 8)"
    using p c(1) by (auto simp: sched_pick_next_def MAX_PROCS_def Let_def simp del: upt_rec_numeral)
  then obtain j where j: "j < length [1..<MAX_PROCS + 1]" "k = [1..<MAX_PROCS + 1] ! j" "\<forall>l < j. \<not> ?P ([1..<MAX_PROCS + 1] ! l)"
    by (auto simp: find_Some_iff)
  have len: "length [1..<MAX_PROCS + 1] = 8" by (simp add: MAX_PROCS_def)
  have nth: "[1..<MAX_PROCS + 1] ! l = 1 + l" if "l < 8" for l using that by (subst nth_upt) (simp_all add: MAX_PROCS_def)
  have d: "dist c i < 8" by (simp add: dist_def nat_less_iff)
  have "(int c + int (1 + dist c i)) mod 8 = int i" by (rule dist_hits [OF i(1)])
  then have "?P (1 + dist c i)" using i(2) by (simp add: MAX_PROCS_def)
  then have jd: "j \<le> dist c i" using j(3) nth [OF d] by (cases "dist c i < j") auto
  have j8: "j < 8" using j(1) len by simp
  have "n = nat ((int c + 1 + int j) mod 8)" using k(2) j(2) nth [OF j8] by (simp add: ac_simps)
  from dist_step [OF jd i(1) this] show ?thesis .
qed

lemma pick_next_some:
  assumes c: "g_current s = Some c" and i: "i < 8" "ready s i"
  shows "\<exists>n. sched_pick_next s = Some n"
proof (rule ccontr)
  assume "\<not> ?thesis"
  then have "find (\<lambda>k. ready s (nat ((int c + int k) mod int MAX_PROCS))) [1..<MAX_PROCS + 1] = None"
    using c by (auto simp: sched_pick_next_def Let_def simp del: upt_rec_numeral)
  then have no: "\<not> ready s (nat ((int c + int k) mod 8))" if "1 \<le> k" "k \<le> 8" for k
    using that by (auto simp: find_None_iff MAX_PROCS_def simp del: upt_rec_numeral)
  have d: "1 + dist c i \<le> 8" using dist_less [of c i] by simp
  have "(int c + int (1 + dist c i)) mod 8 = int i" by (rule dist_hits [OF i(1)])
  then show False using no [OF _ d] i(2) by simp
qed

lemma switch_to_ready:
  assumes "ready s i" "i \<noteq> n"
  shows "ready (snd (switch_to M n s)) i"
  using assms by (auto simp: switch_to_def Let_def intro!: ready_upd on_res_ready split: option.splits)

text \<open>Calling \<^verbatim>\<open>schedule\<close> runs a ready task or brings its turn nearer.\<close>

lemma schedule_nearer:
  assumes s: "sched_inv s" "g_current s = Some c" and i: "i < 8" "ready s i" and r: "schedule M irqs s = Some (x, s')"
  shows "\<exists>n. runs s' n \<and> (n = i \<or> ready s' i \<and> dist n i < dist c i)"
proof -
  have c8: "c < 8" using s current_slot by (auto simp: sched_inv_def)
  obtain n where n: "sched_pick_next s = Some n" using pick_next_some [OF s(2) i] by blast
  have s': "s' = snd (switch_to M n s)" using r n by (auto simp: schedule_def)
  have "n = i \<or> ready s' i \<and> dist n i < dist c i"
    using pick_next_dist [OF n s(2) c8 i] switch_to_ready [OF i(2), of n M] s' by (cases "n = i") simp_all
  moreover have "runs s' n" using switch_to_runs [OF s(1) n] s' by simp
  ultimately show ?thesis by blast
qed

text \<open>How the running task leaves the processor.\<close>

inductive leaves :: "('r, 'w) machine \<Rightarrow> ('r, 'w) sched \<Rightarrow> ('r, 'w) sched \<Rightarrow> bool" for M :: "('r, 'w) machine" where
  l_yield: "leaves M s s"
| l_preempt: "leaves M s (s\<lparr>g_need_switch := False\<rparr>)"
| l_block: "leaves M s (sched_block (Some (QExt n)) s)"
| l_sleep: "leaves M s (sched_block_until d s)"
| l_wait: "sched_waitpid M pid opts s = (WaitAgain, s') \<Longrightarrow> leaves M s s'"
| l_exit: "leaves M s (sched_mark_exit M (sched_set_exit_status st s))"
| l_exit_group: "leaves M s (sched_mark_group_exit M st s)"
| l_signal: "sched_signal_check M s = (r, s') \<Longrightarrow> r \<noteq> SigReturn \<Longrightarrow> (\<nexists>n h. r = SigEnter n h) \<Longrightarrow> leaves M s s'"

lemma leaves_ready:
  assumes "leaves M s s'" "runs s c" "ready s i" "c \<noteq> i"
  shows "sched_inv s' \<and> g_current s' = Some c \<and> ready s' i"
  using assms
proof (induction rule: leaves.induct)
  case (l_yield s)
  then show ?case by (simp add: runs_def)
next
  case (l_preempt s)
  then show ?case by (simp add: runs_def sched_inv_other)
next
  case (l_block s n)
  then show ?case using block_ext [OF l_block(1)] block_current(1) [OF l_block(1)] block_ready [of s i c] by (simp add: runs_def)
next
  case (l_sleep s d)
  then show ?case using block_until [OF l_sleep(1)] block_current(2) [OF l_sleep(1)] block_until_ready [of s i c] by (simp add: runs_def)
next
  case (l_wait pid opts s s')
  then show ?case using inv_waitpid(2) [OF l_wait(2,1)] waitpid_ready [OF l_wait(3) _ l_wait(4,1)] by (simp add: runs_def)
next
  case (l_exit s st)
  have r: "runs (sched_set_exit_status st s) c" by (rule set_exit_status_runs [OF l_exit(1)])
  then have "ready (sched_mark_exit M (sched_set_exit_status st s)) i"
    using mark_exit_keeps(1) [of "sched_set_exit_status st s" c i PROC_READY M] set_exit_status_ready [OF l_exit(2)] l_exit(3) by (simp add: runs_def)
  then show ?case using inv_mark_exit [OF r] by blast
next
  case (l_exit_group s st)
  then show ?case using inv_mark_group_exit [OF l_exit_group(1)] mark_group_exit_ready [of s i c] by (simp add: runs_def)
next
  case (l_signal s r s')
  have "delivered r s' c" using signal_check_delivered [OF l_signal(4,1)] .
  then have "sched_inv s' \<and> g_current s' = Some c" using l_signal(2,3) by (cases r) (auto simp: delivered_def)
  moreover have "ready s' i" using signal_check_ready [OF l_signal(5) _ l_signal(6,1)] l_signal(4) by (simp add: runs_def)
  ultimately show ?case by blast
qed

lemma running_not_ready: "runs s c \<Longrightarrow> ready s i \<Longrightarrow> c \<noteq> i"
  by (auto simp: runs_def)

lemma leave_nearer:
  assumes run: "runs s c" and i: "i < 8" "ready s i" and l: "leaves M s t" and r: "schedule M irqs t = Some (x, s')"
  shows "\<exists>n. runs s' n \<and> (n = i \<or> ready s' i \<and> dist n i < dist c i)"
proof -
  have t: "sched_inv t" "g_current t = Some c" "ready t i" using leaves_ready [OF l run i(2) running_not_ready [OF run i(2)]] by simp_all
  from schedule_nearer [OF t(1,2) i(1) t(3) r] show ?thesis .
qed

lemma leave_ready:
  assumes "kernel_ok s" "running s c" "i < 8" "ready s i" "leaves M s t" "schedule M irqs t = Some (x, s')"
  shows "ready s' i \<or> g_current s' = Some i"
  using leave_nearer [OF ok_runs [OF assms(1,2)] assms(3-6)] by (auto simp: runs_def)

lemma add_tid:
  assumes run: "runs s c" and p: "fresh_desc p wt" "g_next_pid s + 1 \<noteq> 0" and a: "sched_add M p wt ctx s = (Some tid, s1)"
    and g: "p_group p = None \<or> p_group p = p_group (proc_table s ! c)" and i: "i < 8" "ready s i"
  shows "p_pid (proc_table s1 ! i) \<noteq> tid"
proof -
  obtain Q where sinv: "sinv s Q {}" and c: "g_current s = Some c" by (rule runsE [OF run])
  have g': "\<forall>g. p_group p = Some g \<longrightarrow> g < 8 \<and> tg_used (groups s ! g)" using g current_group [OF sinv c(1)] by fastforce
  obtain k where k: "find (\<lambda>i. p_state (proc_table s ! i) = PROC_UNUSED) [0..<MAX_PROCS] = Some k"
    using a by (cases "find (\<lambda>i. p_state (proc_table s ! i) = PROC_UNUSED) [0..<MAX_PROCS]") (auto simp: add_no_slot)
  have "k \<noteq> i" using find_slots [OF k] i by auto
  then have "tid = g_next_pid s" "proc_table s1 ! i = proc_table s ! i" using inv_add [OF sinv p(1) g' p(2) k, of M ctx] a by auto
  moreover have "used_slot (pinfos s) i" using i by (simp add: used_slot_def pinfos_def pinfo_of_def kind_of_def)
  then have "pi_pid (pinfos s i) < g_next_pid s" using sinv unfolding sinv_def ids_ok_def slots_ok_def by blast
  ultimately show ?thesis by (simp add: pinfos_def pinfo_of_def)
qed

lemma kstep_ready:
  assumes "kstep M s s'" "kernel_ok s" "i < 8" "ready s i"
  shows "ready s' i \<or> g_current s' = Some i"
  using assms
proof (induction rule: kstep.induct)
  case (k_irq s x)
  then show ?case using calm_irq [of s x] by (simp add: calm_def kernel_ok_def)
next
  case (k_end_irq s c xs r s')
  then show ?case using leave_ready [OF k_end_irq(3,1,4,5) l_preempt, of M "map irq_run xs" r s']
    by (auto simp: schedule_if_needed_def Let_def split: if_splits)
next
  case (k_spawn s p wt ctx r s')
  then show ?case using add_ready by blast
next
  case (k_boot s j s')
  then show ?case by (auto simp: sched_bootstrap_def proc_upd_proc split: option.splits)
next
  case (k_clone s c p wt ctx r s')
  then show ?case using add_ready by blast
next
  case (k_clone_undone s c p wt ctx tid s1 r s')
  then show ?case using force_remove_ready [OF add_ready add_tid [OF ok_runs]] by blast
next
  case (k_exec s c p free)
  then show ?case using exec_ready [of s i c] by (cases "c = i") (simp_all add: running_def)
next
  case (k_block s c xs n r s')
  then show ?case using leave_ready [OF _ _ _ _ l_block] by blast
next
  case (k_sleep s c xs d r s')
  then show ?case using leave_ready [OF _ _ _ _ l_sleep] by blast
next
  case (k_wait s c pid opts r s')
  then show ?case using waitpid_ready [of s i c] by (cases "c = i") (auto simp: running_def)
next
  case (k_wait_block s c pid opts s1 xs r s')
  then show ?case using leave_ready [OF _ _ _ _ l_wait] by blast
next
  case (k_exit s c xs st r s')
  then show ?case using leave_ready [OF _ _ _ _ l_exit] by blast
next
  case (k_exit_group s c xs st r s')
  then show ?case using leave_ready [OF _ _ _ _ l_exit_group] by blast
next
  case (k_fault s c a n)
  then show ?case by (auto simp: sched_record_user_fault_def intro!: ready_upd split: option.splits)
next
  case (k_signal s c r s')
  then show ?case using signal_check_ready [of s i c] by (cases "c = i") (auto simp: running_def)
next
  case (k_signal_off s c r s1 xs r' s')
  then show ?case using leave_ready [OF _ _ _ _ l_signal] by blast
next
  case (k_claim s c pid b s')
  then show ?case by (auto simp: console_runtime_claim_display_def split: if_splits)
next
  case (k_release s c pid b s')
  then show ?case by (auto simp: console_runtime_release_display_def split: if_splits)
qed

text \<open>
  A turn of the running task: events that leave it the processor, then one that gives the processor
  away by a call of \<^verbatim>\<open>schedule\<close>.
\<close>

inductive turn :: "('r, 'w) machine \<Rightarrow> ('r, 'w) sched \<Rightarrow> ('r, 'w) sched \<Rightarrow> bool" for M :: "('r, 'w) machine" where
  turn_event: "kstep M s s1 \<Longrightarrow> g_current s1 = g_current s \<Longrightarrow> turn M s1 s' \<Longrightarrow> turn M s s'"
| turn_over: "running s c \<Longrightarrow> leaves M s t \<Longrightarrow> schedule M (map irq_run xs) t = Some (r, s') \<Longrightarrow> turn M s s'"

lemma turn_nearer:
  assumes "turn M s s'" "runs s c" "i < 8" "ready s i"
  shows "\<exists>n. runs s' n \<and> (n = i \<or> ready s' i \<and> dist n i < dist c i)"
  using assms
proof (induction rule: turn.induct)
  case (turn_event s s1 s')
  have ok: "kernel_ok s1" by (rule kstep_ok [OF turn_event(1) runs_ok [OF turn_event(5)]])
  have c: "g_current s1 = Some c" using turn_event(2,5) by (simp add: runs_def)
  then have "runs s1 c" using ok by (simp add: kernel_ok_def runs_def)
  moreover have "ready s1 i"
    using kstep_ready [OF turn_event(1) runs_ok [OF turn_event(5)] turn_event(6,7)] c running_not_ready [OF turn_event(5,7)] by auto
  ultimately show ?case using turn_event(4,6) by blast
next
  case (turn_over s c' t xs r s')
  then show ?case using leave_nearer by blast
qed

lemma turns_reach:
  assumes "\<forall>n < Suc m. turn M (f n) (f (Suc n))" "runs (f 0) c" "i < 8" "ready (f 0) i" "dist c i \<le> m"
  shows "\<exists>n. 0 < n \<and> n \<le> Suc m \<and> g_current (f n) = Some i"
  using assms
proof (induction m arbitrary: f c)
  case (0 f c)
  from turn_nearer [OF _ 0(2-4), of M "f 1"] 0(1,5) show ?case by (auto simp: runs_def)
next
  case (Suc m f c)
  from turn_nearer [OF _ Suc.prems(2-4), of M "f 1"] Suc.prems(1)
  obtain n where n: "runs (f 1) n" "n = i \<or> ready (f 1) i \<and> dist n i < dist c i" by auto
  show ?case
  proof (cases "n = i")
    case True
    with n(1) show ?thesis by (intro exI [of _ 1]) (simp add: runs_def)
  next
    case False
    have "\<exists>k. 0 < k \<and> k \<le> Suc m \<and> g_current (f (Suc k)) = Some i"
      by (rule Suc.IH [of "\<lambda>k. f (Suc k)" n]) (use Suc.prems n False in auto)
    then show ?thesis by auto
  qed
qed

end
