(* ===== verification/Sched_Exit.thy ===== *)
theory Sched_Exit
  imports Sched_Live
begin

text \<open>
  The properties of kernel/proc/sched.c: the task table in every reachable state, wake-ups, the
  round of the processor, an exit status and the call that collects it, and a stop that its waiter misses.
\<close>

section \<open>A zombie keeps its status\<close>

definition gone :: "proc_state \<Rightarrow> bool" where
  "gone x \<longleftrightarrow> x = PROC_ZOMBIE \<or> x = PROC_UNUSED"

lemma gone_live: "gone (p_state (proc_table s ! i)) \<longleftrightarrow> \<not> live_slot s i"
  by (auto simp: gone_def live_slot_def)

text \<open>Nothing happens to the tasks that are gone.\<close>

definition rests :: "('r, 'w) sched \<Rightarrow> ('r, 'w) sched \<Rightarrow> bool" where
  "rests s t \<longleftrightarrow> (\<forall>k < 8. (\<forall>h. same_who k h s t) \<and> (gone (p_state (proc_table s ! k)) \<longrightarrow> p_state (proc_table t ! k) = p_state (proc_table s ! k)))"

lemma rests_refl: "rests s s"
  by (simp add: rests_def)

lemma rests_trans: "rests s t \<Longrightarrow> rests t u \<Longrightarrow> rests s u"
  unfolding rests_def by (simp add: same_who_def)

lemma rests_calm: "calm s t \<Longrightarrow> (\<And>k h. same_who k h s t) \<Longrightarrow> rests s t"
  by (auto simp: rests_def calm_def gone_def)

lemma rests_switch:
  assumes "sched_pick_next s = Some n"
  shows "rests s (snd (switch_to M n s))"
proof -
  note n = pick_next_ready [OF assms]
  define s1 where "s1 = (case g_current s of
      Some prev \<Rightarrow> if p_state (proc_table s ! prev) \<noteq> PROC_ZOMBIE then on_res prev (mc_fpu_save M) s else s | None \<Rightarrow> s)"
  define s2 where "s2 = (case g_current s of
      Some prev \<Rightarrow> if p_state (proc_table s1 ! prev) = PROC_RUNNING then upd_proc prev (\<lambda>p. p\<lparr>p_state := PROC_READY\<rparr>) s1 else s1 | None \<Rightarrow> s1)"
  have r1: "rests s s1" by (auto simp: s1_def rests_def same_on_res on_res_ready split: option.splits)
  have r2: "rests s1 s2" by (auto simp: s2_def rests_def proc_upd_proc gone_def intro!: same_upd split: option.splits)
  have u: "rests t (upd_proc n (\<lambda>p. p\<lparr>p_state := PROC_RUNNING\<rparr>) t)" if "ready t n" for t :: "('a, 'b) sched"
    using that by (auto simp: rests_def same_who_def proc_upd_proc gone_def)
  have w: "rests t (t\<lparr>g_current := d\<rparr>)" "rests t (t\<lparr>world := v\<rparr>)" for t :: "('a, 'b) sched" and d v by (auto simp: rests_def same_who_def)
  have "ready s1 n" using n(2) by (auto simp: s1_def on_res_ready split: option.splits)
  then have r: "ready (s2\<lparr>g_current := Some n\<rparr>) n" by (auto simp: s2_def proc_upd_proc split: option.splits)
  have "rests s (upd_proc n (\<lambda>p. p\<lparr>p_state := PROC_RUNNING\<rparr>) (s2\<lparr>g_current := Some n\<rparr>))"
    by (rule rests_trans [OF rests_trans [OF rests_trans [OF r1 r2] w(1)] u [OF r]])
  from rests_trans [OF this w(2)] u [OF n(2)] show ?thesis
    unfolding switch_to_def Let_def s1_def [symmetric] s2_def [symmetric] by simp
qed

lemma rests_idle: "sched_inv s \<Longrightarrow> idle_loop M (map irq_run xs) s = Some (r, s') \<Longrightarrow> rests s s'"
proof (induction xs arbitrary: s)
  case (Cons x xs)
  have c: "calm s (irq_run x s)" by (rule calm_irq [OF Cons.prems(1)])
  have r: "rests s (irq_run x s)" by (rule rests_calm [OF c irq_who])
  show ?case
  proof (cases "sched_pick_next (irq_run x s)")
    case None
    then show ?thesis using Cons.IH [OF calm_inv [OF c]] Cons.prems(2) rests_trans [OF r] by simp
  next
    case (Some n)
    then show ?thesis using rests_trans [OF r rests_switch [OF Some, of M]] Cons.prems(2) by auto
  qed
qed simp

lemma rests_schedule:
  assumes "sched_inv s" "schedule M (map irq_run xs) s = Some (r, s')"
  shows "rests s s'"
proof (cases "sched_pick_next s")
  case None
  then show ?thesis using assms rests_idle [OF assms(1), of M xs r s'] by (auto simp: schedule_def rests_refl split: if_splits option.splits)
next
  case (Some n)
  then show ?thesis using assms rests_switch [OF Some, of M] by (auto simp: schedule_def)
qed

section \<open>Collecting a status\<close>

lemma reap_unused: "in_state s c PROC_UNUSED \<Longrightarrow> in_state (sched_reap M z s) c PROC_UNUSED"
proof (cases "in_state s z PROC_ZOMBIE")
  case True
  assume c: "in_state s c PROC_UNUSED"
  with True have "z \<noteq> c" by auto
  with c show ?thesis
    by (auto simp: sched_reap_def Let_def sched_wait_queue_init_def intro!: ready_upd on_res_ready put_res_ready)
qed (simp add: sched_reap_def)

lemma reap_other:
  assumes c: "in_state s c PROC_ZOMBIE" "z \<noteq> c"
  shows "in_state (sched_reap M z s) c PROC_ZOMBIE" "who (proc_table (sched_reap M z s) ! c) = who (proc_table s ! c)"
proof -
  show "in_state (sched_reap M z s) c PROC_ZOMBIE" using c
    by (auto simp: sched_reap_def Let_def sched_wait_queue_init_def intro!: ready_upd on_res_ready put_res_ready)
  have w: "who (proc_table (on_res z f t) ! c) = who (proc_table t ! c)" "who (proc_table (put_res z f' t) ! c) = who (proc_table t ! c)"
    for f f' and t :: "('a, 'b) sched" using same_on_res [of c 0 t z f] same_put_res [of c 0 t z f'] by (simp_all add: same_who_def)
  show "who (proc_table (sched_reap M z s) ! c) = who (proc_table s ! c)" using c(2)
    by (simp add: sched_reap_def Let_def sched_wait_queue_init_def w proc_upd_proc)
qed

lemma reap_self:
  assumes run: "runs s d" and c: "in_state s c PROC_ZOMBIE" "c < 8"
  shows "in_state (sched_reap M c s) c PROC_UNUSED"
proof -
  have "runs (sched_reap M c s) d" by (rule inv_reap [OF run c(2)])
  then have "length (proc_table (sched_reap M c s)) = 8" using inv_len by (auto simp: runs_def sched_inv_def)
  then show ?thesis using c by (simp add: sched_reap_def Let_def proc_upd_proc)
qed

lemma reap_group_unused:
  assumes "runs s d" "in_state s c PROC_ZOMBIE" "c < 8" "p_group (proc_table s ! c) = Some g"
  shows "in_state (sched_reap_group M g s) c PROC_UNUSED"
proof -
  define f where "f = (\<lambda>i (s :: ('a, 'b) sched).
    if p_group (proc_table s ! i) = Some g \<and> p_state (proc_table s ! i) = PROC_ZOMBIE then sched_reap M i s else s)"
  have u: "in_state t c PROC_UNUSED \<Longrightarrow> in_state (fold f xs t) c PROC_UNUSED" for xs t
    by (induction xs arbitrary: t) (auto simp: f_def reap_unused)
  have "c \<in> set xs \<Longrightarrow> set xs \<subseteq> {..<8} \<Longrightarrow> runs t d \<Longrightarrow> in_state t c PROC_ZOMBIE \<Longrightarrow> p_group (proc_table t ! c) = Some g \<Longrightarrow>
      in_state (fold f xs t) c PROC_UNUSED" for xs t
  proof (induction xs arbitrary: t)
    case (Cons i xs)
    show ?case
    proof (cases "i = c")
      case True
      then show ?thesis using Cons.prems reap_self [OF Cons.prems(3,4) assms(3)] u by (simp add: f_def)
    next
      case False
      have "who (proc_table (f i t) ! c) = who (proc_table t ! c)" "in_state (f i t) c PROC_ZOMBIE"
        using reap_other [OF Cons.prems(4) False] Cons.prems(4) by (simp_all add: f_def)
      moreover have "runs (f i t) d" using Cons.prems inv_reap by (auto simp: f_def)
      ultimately show ?thesis using Cons False by (auto simp: who_def)
    qed
  qed simp
  from this [of "[0..<MAX_PROCS]" s] assms show ?thesis unfolding sched_reap_group_def f_def by (simp add: MAX_PROCS_def atLeast0LessThan)
qed

lemma exit_wait:
  assumes run: "runs s c" and g: "p_group (proc_table s ! c) = Some g" "\<not> tg_group_exit (groups s ! g)"
    and leader: "p_tgid (proc_table s ! c) = p_tid (proc_table s ! c)"
    and last: "\<forall>i < 8. i \<noteq> c \<and> p_group (proc_table s ! i) = Some g \<longrightarrow> \<not> live_slot s i"
    and sch: "schedule M (map irq_run xs) (sched_mark_exit M (sched_set_exit_status st s)) = Some (r, s')"
  shows "\<exists>s''. sched_waitpid M (p_pid (proc_table s ! c)) opts s' = (WaitReturn (Some (push_bit 8 (st AND 0xFF))), s'') \<and>
    in_state s'' c PROC_UNUSED"
proof -
  let ?s = "sched_set_exit_status st s"
  have r0: "runs ?s c" by (rule set_exit_status_runs [OF run])
  have c: "g_current s = Some c" "c < 8" "length (proc_table s) = 8"
    using run current_slot inv_len by (auto simp: runs_def sched_inv_def)
  have s0: "proc_table ?s ! k = (if k = c then (proc_table s ! c)\<lparr>p_exit_status := push_bit 8 (st AND 0xFF)\<rparr> else proc_table s ! k)"
    "groups ?s = groups s" "g_current ?s = Some c" for k
    using c by (simp_all add: sched_set_exit_status_def proc_upd_proc)
  let ?t = "sched_mark_exit M ?s"
  note t = inv_mark_exit [OF r0, of M]
  have same: "same_who k h ?s ?t" for k h using mark_exit_keeps(2) [OF s0(3), of k h M] g by (simp add: s0)
  have rest: "rests ?t s'" by (rule rests_schedule [OF t(1) sch])
  obtain d where d: "runs s' d" using schedule_runs [OF t(1,2) sch] by blast
  obtain Q where sinv: "sinv s' Q {}" using d by (auto simp: runs_def sched_inv_def)
  have w: "who (proc_table s' ! k) = who (proc_table ?s ! k)" "tg_group_exit (groups s' ! h) = tg_group_exit (groups s ! h)" if "k < 8" for k h
    using rest same [of k h] that by (auto simp: rests_def same_who_def s0)
  have z: "in_state s' c PROC_ZOMBIE" using rest t(3) c(2) by (auto simp: rests_def gone_def)
  have wc: "p_pid (proc_table s' ! c) = p_pid (proc_table s ! c)" "p_tgid (proc_table s' ! c) = p_tid (proc_table s' ! c)"
    "p_group (proc_table s' ! c) = Some g" "p_exit_status (proc_table s' ! c) = push_bit 8 (st AND 0xFF)"
    using w(1) [OF c(2)] g(1) leader by (auto simp: who_def s0)
  have "\<not> live_slot s' i" if i: "i < 8" "p_group (proc_table s' ! i) = Some g" for i
  proof (cases "i = c")
    case False
    have p: "p_group (proc_table s ! i) = Some g" using w(1) [OF i(1)] i(2) False by (simp add: who_def s0)
    then have "gone (p_state (proc_table ?s ! i))" using last i(1) False by (simp add: s0 gone_live)
    moreover from this have "p_state (proc_table ?t ! i) = p_state (proc_table ?s ! i)"
      using mark_exit_keeps(1) [OF s0(3), of i _ M] False by (auto simp: gone_def)
    ultimately have "gone (p_state (proc_table s' ! i))" using rest i(1) by (simp add: rests_def)
    then show ?thesis by (simp add: gone_live)
  qed (use z in \<open>simp add: live_slot_def\<close>)
  then have "\<not> sched_group_has_live_slots g s'" by (auto simp: has_live_slots)
  moreover have "sched_find_slot s' (p_pid (proc_table s ! c)) = Some c" using find_slot_pid [OF sinv c(2)] z wc(1) by simp
  ultimately show ?thesis using z wc w(2) [OF c(2)] g(2) reap_group_unused [OF d z c(2) wc(3), of M]
    by (simp add: sched_waitpid_def Let_def)
qed

section \<open>Waking\<close>






section \<open>Stopping\<close>

lemma live_pid_find:
  assumes sinv: "sinv s Q {}" and i: "i < 8" "live_slot s i"
  shows "find (\<lambda>j. p_pid (proc_table s ! j) = p_pid (proc_table s ! i) \<and> live_slot s j) [0..<MAX_PROCS] = Some i"
proof (cases "find (\<lambda>j. p_pid (proc_table s ! j) = p_pid (proc_table s ! i) \<and> live_slot s j) [0..<MAX_PROCS]")
  case None
  from find_no_slot [OF None i(1)] i(2) show ?thesis by simp
next
  case (Some j)
  from find_slots [OF this] used_pids [OF sinv, of j i] i have "j = i" by (auto simp: live_slot_def)
  with Some show ?thesis by simp
qed

lemma pid_nonzero:
  assumes sinv: "sinv s Q {}" and i: "i < 8" "p_state (proc_table s ! i) \<noteq> PROC_UNUSED"
  shows "p_pid (proc_table s ! i) \<noteq> 0"
proof -
  have "used_slot (pinfos s) i" using i by (simp add: used_slot_def pinfos_def pinfo_of_def kind_of_def)
  then have "pi_pid (pinfos s i) \<noteq> 0" using sinv unfolding sinv_def ids_ok_def slots_ok_def by blast
  then show ?thesis by (simp add: pinfos_def pinfo_of_def)
qed

lemma send_to_deaf:
  assumes sinv: "sinv s Q {}" and i: "i < 8" "live_slot s i" "p_tgid (proc_table s ! i) = p_pid (proc_table s ! i)"
    and deaf: "\<forall>j < 8. p_group (proc_table s ! j) = p_group (proc_table s ! i) \<and> live_slot s j \<longrightarrow>
      p_sig_blocked (proc_table s ! j) AND sig_bit SIGCHLD \<noteq> 0"
  shows "\<exists>h f. sched_send_signal (p_pid (proc_table s ! i)) (int SIGCHLD) s = upd_group h f s"
proof -
  obtain h where h: "p_group (proc_table s ! i) = Some h" by (rule slot_group [OF sinv i(1)]) (use i(2) in \<open>auto simp: live_slot_def\<close>)
  have t: "signal_target s (p_pid (proc_table s ! i)) = (Some h, None)"
    using live_pid_find [OF sinv i(1,2)] i(3) h by (simp add: signal_target_def)
  let ?u = "task_group_set_process_signal (Some h) (int SIGCHLD) s"
  have "sched_find_group_signal_recipient ?u h SIGCHLD = None"
    using deaf h unfolding sched_find_group_signal_recipient_def find_None_iff
    by (auto simp: live_slot_def MAX_PROCS_def SIGCHLD_def SIGKILL_def)
  then show ?thesis
    by (auto simp: sched_send_signal_def t Let_def NSIG_def SIGCHLD_def task_group_set_process_signal_def)
qed

lemma stop_unheard:
  assumes run: "runs s c" and g: "p_group (proc_table s ! c) = Some g" "p_tgid (proc_table s ! c) = p_tid (proc_table s ! c)"
    and i: "i < 8" "in_state s i PROC_BLOCKED" "p_wait_queue (proc_table s ! i) = Some (QGroup g)"
    and par: "p_parent_pid (proc_table s ! c) = p_pid (proc_table s ! i)" "p_tgid (proc_table s ! i) = p_pid (proc_table s ! i)"
    and deaf: "\<forall>j < 8. p_group (proc_table s ! j) = p_group (proc_table s ! i) \<and> live_slot s j \<longrightarrow>
      p_sig_blocked (proc_table s ! j) AND sig_bit SIGCHLD \<noteq> 0"
  shows "in_state (sched_mark_stopped n s) i PROC_BLOCKED"
    "p_wait_queue (proc_table (sched_mark_stopped n s) ! i) = Some (QGroup g)"
    "fst (sched_waitpid M (p_pid (proc_table s ! c)) WUNTRACED (sched_mark_stopped n s)) =
       WaitReturn (Some (push_bit 8 (of_nat n AND 0xFF) OR 0x7F))"
proof -
  obtain Q where sinv: "sinv s Q {}" and c: "g_current s = Some c" "p_state (proc_table s ! c) = PROC_RUNNING" "c < 8"
    by (rule runsE [OF run])
  have len: "length (proc_table s) = 8" using inv_len [OF sinv] by simp
  have ic: "i \<noteq> c" using i c by auto
  define t where "t = upd_proc c (\<lambda>p. p\<lparr>p_state := PROC_STOPPED, p_exit_status := push_bit 8 (of_nat n AND 0xFF) OR 0x7F\<rparr>) s"
  have tinv: "sinv t Q {}" unfolding t_def by (rule stop_state [OF sinv c(2,3)])
  have tp: "proc_table t ! k = (if k = c then (proc_table s ! c)\<lparr>p_state := PROC_STOPPED, p_exit_status := push_bit 8 (of_nat n AND 0xFF) OR 0x7F\<rparr>
      else proc_table s ! k)" for k using len c(3) by (simp add: t_def proc_upd_proc)
  have live: "live_slot t k = live_slot s k" for k using c(2) by (simp add: live_slot_def tp)
  have il: "live_slot t i" using i ic by (simp add: tp live_slot_def)
  have deaf': "\<forall>j < 8. p_group (proc_table t ! j) = p_group (proc_table t ! i) \<and> live_slot t j \<longrightarrow> p_sig_blocked (proc_table t ! j) AND sig_bit SIGCHLD \<noteq> 0"
    using deaf ic by (simp add: tp live)
  obtain h f where u: "sched_send_signal (p_pid (proc_table t ! i)) (int SIGCHLD) t = upd_group h f t"
    using send_to_deaf [OF tinv i(1) il _ deaf'] par(2) ic by (auto simp: tp)
  have "p_pid (proc_table s ! i) \<noteq> 0" using pid_nonzero [OF sinv i(1)] i(2) by simp
  moreover have e: "wq_head (queues t (QState c)) = None" using tinv by (simp add: sinv_def queues_are_def queue_is_def)
  ultimately have "sched_mark_stopped n s = set_queue (QState c) None None (upd_group h f t)"
    using u par(1) ic unfolding sched_mark_stopped_def c option.case Let_def t_def [symmetric] by (simp add: tp sched_wake_all_def)
  then have p: "proc_table (sched_mark_stopped n s) = proc_table t" by simp
  show "in_state (sched_mark_stopped n s) i PROC_BLOCKED" "p_wait_queue (proc_table (sched_mark_stopped n s) ! i) = Some (QGroup g)"
    using i ic by (simp_all add: p tp)
  have "sched_find_slot t (p_pid (proc_table s ! c)) = Some c" using find_slot_pid [OF tinv c(3)] by (simp add: tp)
  then have fs: "sched_find_slot (sched_mark_stopped n s) (p_pid (proc_table s ! c)) = Some c" by (simp add: sched_find_slot_def p)
  show "fst (sched_waitpid M (p_pid (proc_table s ! c)) WUNTRACED (sched_mark_stopped n s)) =
       WaitReturn (Some (push_bit 8 (of_nat n AND 0xFF) OR 0x7F))"
    using g by (simp add: sched_waitpid_def fs Let_def p tp WUNTRACED_def)
qed

section \<open>Properties\<close>

lemma tasks_explicit:
  assumes "sinv s Q {}"
  shows "\<forall>i < 8. p_state (proc_table s ! i) \<noteq> PROC_UNUSED \<longrightarrow>
      p_pid (proc_table s ! i) \<noteq> 0 \<and> p_tid (proc_table s ! i) = p_pid (proc_table s ! i) \<and>
      (\<exists>g < 8. p_group (proc_table s ! i) = Some g \<and> tg_used (groups s ! g) \<and> tg_tgid (groups s ! g) = p_tgid (proc_table s ! i))"
    and "\<forall>i < 8. \<forall>j < 8. p_state (proc_table s ! i) \<noteq> PROC_UNUSED \<and> p_state (proc_table s ! j) \<noteq> PROC_UNUSED \<and> i \<noteq> j \<longrightarrow>
      p_pid (proc_table s ! i) \<noteq> p_pid (proc_table s ! j)"
    and "\<forall>g < 8. unat (tg_refs (groups s ! g)) = card {i. i < 8 \<and> p_state (proc_table s ! i) \<noteq> PROC_UNUSED \<and> p_group (proc_table s ! i) = Some g} \<and>
      unat (tg_live_tasks (groups s ! g)) = card {i. i < 8 \<and> live_slot s i \<and> p_group (proc_table s ! i) = Some g}"
proof -
  have u: "used_slot (pinfos s) i \<longleftrightarrow> i < 8 \<and> p_state (proc_table s ! i) \<noteq> PROC_UNUSED" for i
    by (auto simp: used_slot_def pinfos_def pinfo_of_def kind_of_def)
  have m: "members (pinfos s) g = {i. i < 8 \<and> p_state (proc_table s ! i) \<noteq> PROC_UNUSED \<and> p_group (proc_table s ! i) = Some g}" for g
    by (auto simp: members_def u) (auto simp: pinfos_def pinfo_of_def)
  have l: "lives (pinfos s) g = {i. i < 8 \<and> live_slot s i \<and> p_group (proc_table s ! i) = Some g}" for g
    by (auto simp: lives_def u live_slot_def) (auto simp: pinfos_def pinfo_of_def kind_of_def split: if_splits)
  note ids = assms [unfolded sinv_def ids_ok_def]
  show "\<forall>g < 8. unat (tg_refs (groups s ! g)) = card {i. i < 8 \<and> p_state (proc_table s ! i) \<noteq> PROC_UNUSED \<and> p_group (proc_table s ! i) = Some g} \<and>
      unat (tg_live_tasks (groups s ! g)) = card {i. i < 8 \<and> live_slot s i \<and> p_group (proc_table s ! i) = Some g}"
    using ids by (simp add: counts_ok_def m l ginfos_def ginfo_of_def)
  show "\<forall>i < 8. \<forall>j < 8. p_state (proc_table s ! i) \<noteq> PROC_UNUSED \<and> p_state (proc_table s ! j) \<noteq> PROC_UNUSED \<and> i \<noteq> j \<longrightarrow>
      p_pid (proc_table s ! i) \<noteq> p_pid (proc_table s ! j)"
    using used_pids [OF assms] by blast
  have used: "tg_used (groups s ! g)" if "i < 8" "p_state (proc_table s ! i) \<noteq> PROC_UNUSED" "p_group (proc_table s ! i) = Some g" "g < 8" for i g
  proof -
    have "members (pinfos s) g \<noteq> {}" using that by (auto simp: m)
    then have "gi_used (ginfos s g)" using ids that(4) unfolding counts_ok_def by blast
    then show ?thesis by (simp add: ginfos_def ginfo_of_def)
  qed
  show "\<forall>i < 8. p_state (proc_table s ! i) \<noteq> PROC_UNUSED \<longrightarrow>
      p_pid (proc_table s ! i) \<noteq> 0 \<and> p_tid (proc_table s ! i) = p_pid (proc_table s ! i) \<and>
      (\<exists>g < 8. p_group (proc_table s ! i) = Some g \<and> tg_used (groups s ! g) \<and> tg_tgid (groups s ! g) = p_tgid (proc_table s ! i))"
  proof (intro allI impI)
    fix i :: nat
    assume i: "i < 8" "p_state (proc_table s ! i) \<noteq> PROC_UNUSED"
    then have "used_slot (pinfos s) i" by (simp add: u)
    then have "pi_pid (pinfos s i) = pi_tid (pinfos s i)" using ids unfolding slots_ok_def by blast
    moreover obtain g where "p_group (proc_table s ! i) = Some g" "g < 8" "tg_tgid (groups s ! g) = p_tgid (proc_table s ! i)"
      by (rule slot_group [OF assms i])
    ultimately show "p_pid (proc_table s ! i) \<noteq> 0 \<and> p_tid (proc_table s ! i) = p_pid (proc_table s ! i) \<and>
      (\<exists>g < 8. p_group (proc_table s ! i) = Some g \<and> tg_used (groups s ! g) \<and> tg_tgid (groups s ! g) = p_tgid (proc_table s ! i))"
      using pid_nonzero [OF assms i] used [OF i] by (auto simp: pinfos_def pinfo_of_def)
  qed
qed

lemma reachable_inv:
  assumes "reachable M s"
  obtains Q where "sinv s Q {}"
  using reachable_ok [OF assms] by (auto simp: kernel_ok_def sched_inv_def)

text \<open>A machine whose other components do nothing, and a run of it.\<close>

definition quiet_machine :: "(unit, unit) machine" where
  "quiet_machine = \<lparr>mc_put_all = (\<lambda>r w. (r, w, [])), mc_put_files = (\<lambda>r w. (r, w, [])), mc_had_resources = (\<lambda>_. True),
     mc_release_user_space = Pair, mc_release_kstack = Pair, mc_zero = (), mc_build_frame = Pair, mc_clear_tid = (\<lambda>r _ w. (r, w)),
     mc_actions = (\<lambda>_ _. None), mc_fpu_save = Pair, mc_prepare = (\<lambda>_ w. w), mc_crash_frame = (\<lambda>_ r. r), mc_sanitize = (\<lambda>_ w. w),
     mc_user_frame = (\<lambda>_. True), mc_setup_frame = (\<lambda>_ _ _ w. (True, w)), mc_core_dump = (\<lambda>_ _ w. (False, w))\<rparr>"

definition info :: "unit process \<Rightarrow> proc_state \<times> wq option \<times> bool \<times> nat option \<times> (u32 \<times> u32 \<times> u32) \<times> u32" where
  "info p = (p_state p, p_wait_queue p, p_wait_deadline_set p, p_group p, (p_pid p, p_tid p, p_tgid p), p_parent_pid p)"

definition spawned :: "u32 \<Rightarrow> u32 \<Rightarrow> (unit, unit) sched \<Rightarrow> (unit, unit) sched" where
  "spawned parent blocked s = snd (sched_add quiet_machine
     ((zero_process ())\<lparr>p_parent_pid := parent, p_sig_blocked := blocked\<rparr>) \<lparr>wq_head = None, wq_tail = None\<rparr> True s)"

definition two_tasks :: "(unit, unit) sched" where
  "two_tasks = snd (sched_bootstrap (spawned 1 0 (spawned 0 (sig_bit SIGCHLD) (sched_init (zero_sched () ())))))"

lemma spawn_reach:
  assumes "reachable quiet_machine s" "g_current s = None" "g_next_pid s + 1 \<noteq> 0"
  shows "reachable quiet_machine (spawned p b s)"
proof -
  let ?p = "(zero_process ())\<lparr>p_parent_pid := p, p_sig_blocked := b\<rparr>" and ?w = "\<lparr>wq_head = None, wq_tail = None\<rparr>"
  obtain r s' where a: "sched_add quiet_machine ?p ?w True s = (r, s')" by fastforce
  have "kstep quiet_machine s s'" by (rule k_spawn [OF assms(2) _ _ assms(3) a]) (simp_all add: fresh_desc_def zero_process_def)
  from reach_step [OF assms(1) this] show ?thesis by (simp add: spawned_def a)
qed

lemma two_tasks_info:
  "info (proc_table two_tasks ! 0) = (PROC_RUNNING, None, False, Some 0, (1, 1, 1), 0)"
  "info (proc_table two_tasks ! 1) = (PROC_READY, None, False, Some 1, (2, 2, 2), 1)"
  "g_current two_tasks = Some 0" "tg_group_exit (groups two_tasks ! 0) = False"
  by code_simp+

lemmas two_tasks_facts = two_tasks_info [unfolded info_def, simplified]

lemma boot_reach: "reachable M s \<Longrightarrow> g_current s = None \<Longrightarrow> fst (sched_bootstrap s) \<noteq> None \<Longrightarrow> reachable M (snd (sched_bootstrap s))"
  by (erule reach_step, cases "sched_bootstrap s") (auto intro: k_boot)

lemma two_tasks_reach: "reachable quiet_machine two_tasks"
proof -
  let ?s0 = "sched_init (zero_sched () ())"
  let ?s1 = "spawned 0 (sig_bit SIGCHLD) ?s0"
  let ?s2 = "spawned 1 0 ?s1"
  have e0: "g_current ?s0 = None \<and> g_next_pid ?s0 + 1 \<noteq> 0" by code_simp
  have e1: "g_current ?s1 = None \<and> g_next_pid ?s1 + 1 \<noteq> 0" by code_simp
  have e2: "g_current ?s2 = None \<and> fst (sched_bootstrap ?s2) \<noteq> None" by code_simp
  have "reachable quiet_machine ?s1" using spawn_reach [OF reach_init] e0 by blast
  then have "reachable quiet_machine ?s2" using spawn_reach e1 by blast
  from boot_reach [OF this] e2 show ?thesis by (simp add: two_tasks_def)
qed

text \<open>
  C32: in every state the scheduler reaches from \<^verbatim>\<open>sched_init\<close> by interrupts and system calls, the task
  that runs is the current one and no other; every task has an id of its own and a group in use with
  its group id; and a group counts exactly its tasks and its live tasks.\<close>

theorem reachable_tasks:
  assumes "reachable M s"
  shows "(\<forall>i < 8. p_state (proc_table s ! i) = PROC_RUNNING \<longleftrightarrow> g_current s = Some i) \<and>
    (\<forall>i < 8. p_state (proc_table s ! i) \<noteq> PROC_UNUSED \<longrightarrow>
      p_pid (proc_table s ! i) \<noteq> 0 \<and> p_tid (proc_table s ! i) = p_pid (proc_table s ! i) \<and>
      (\<exists>g < 8. p_group (proc_table s ! i) = Some g \<and> tg_used (groups s ! g) \<and> tg_tgid (groups s ! g) = p_tgid (proc_table s ! i))) \<and>
    (\<forall>i < 8. \<forall>j < 8. p_state (proc_table s ! i) \<noteq> PROC_UNUSED \<and> p_state (proc_table s ! j) \<noteq> PROC_UNUSED \<and> i \<noteq> j \<longrightarrow>
      p_pid (proc_table s ! i) \<noteq> p_pid (proc_table s ! j)) \<and>
    (\<forall>g < 8. unat (tg_refs (groups s ! g)) = card {i. i < 8 \<and> p_state (proc_table s ! i) \<noteq> PROC_UNUSED \<and> p_group (proc_table s ! i) = Some g} \<and>
      unat (tg_live_tasks (groups s ! g)) = card {i. i < 8 \<and> live_slot s i \<and> p_group (proc_table s ! i) = Some g})"
proof -
  obtain Q where sinv: "sinv s Q {}" by (rule reachable_inv [OF assms])
  have "p_state (proc_table s ! i) = PROC_RUNNING \<longleftrightarrow> g_current s = Some i" if "i < 8" for i
    using running_current [OF sinv that] reachable_ok [OF assms] by (auto simp: kernel_ok_def)
  with tasks_explicit [OF sinv] show ?thesis by blast
qed

theorem reachable_tasks_witness:
  "p_state (proc_table two_tasks ! 0) = PROC_RUNNING \<longleftrightarrow> g_current two_tasks = Some 0"
  using reachable_tasks [OF two_tasks_reach] by simp


text \<open>A state in which the first task waits for the second, which runs.\<close>

definition waiting :: "(unit, unit) sched" where
  "waiting = snd (the (schedule quiet_machine (map irq_run []) (snd (sched_waitpid quiet_machine 2 WUNTRACED two_tasks))))"

lemma waiting_info:
  "info (proc_table waiting ! 0) = (PROC_BLOCKED, Some (QGroup 1), False, Some 0, (1, 1, 1), 0)"
  "info (proc_table waiting ! 1) = (PROC_RUNNING, None, False, Some 1, (2, 2, 2), 1)" "g_current waiting = Some 1"
  by code_simp+

lemmas waiting_facts = waiting_info [unfolded info_def, simplified]

lemma waiting_reach: "reachable quiet_machine waiting"
proof -
  obtain x s1 where w: "sched_waitpid quiet_machine 2 WUNTRACED two_tasks = (x, s1)" by fastforce
  have "fst (sched_waitpid quiet_machine 2 WUNTRACED two_tasks) = WaitAgain" by code_simp
  then have x: "x = WaitAgain" using w by simp
  have "schedule quiet_machine (map irq_run []) (snd (sched_waitpid quiet_machine 2 WUNTRACED two_tasks)) \<noteq> None"
    unfolding option.map_disc_iff [of fst, symmetric] by code_simp
  then obtain r s' where s: "schedule quiet_machine (map irq_run []) s1 = Some (r, s')" using w by auto
  have "running two_tasks 0" using two_tasks_facts by (simp add: running_def)
  from reach_step [OF two_tasks_reach k_wait_block [OF this w [unfolded x] s]] show ?thesis by (simp add: waiting_def w s [simplified])
qed


lemma dist_other:
  assumes "c \<noteq> i" "c < 8" "i < 8"
  shows "dist c i \<le> 6"
proof (rule ccontr)
  assume "\<not> dist c i \<le> 6"
  then have "dist c i = 7" using dist_less [of c i] by simp
  with dist_hits [OF assms(3), of c] have "(int c + 8) mod 8 = int i" by simp
  then show False using assms by simp
qed

text \<open>
  C33: the processor goes round. If a task is ready, and the running task and its successors end their
  turns (by giving up the processor, by the tick, by blocking, sleeping, waiting, exiting or stopping, with
  any interrupts and system calls before), then the ready task runs within \<^verbatim>\<open>MAX_PROCS\<close> - 1 turns.\<close>

theorem ready_task_runs:
  assumes "reachable M (f 0)" "g_current (f 0) \<noteq> None" "i < 8" "p_state (proc_table (f 0) ! i) = PROC_READY"
    and "\<forall>n < MAX_PROCS - 1. turn M (f n) (f (Suc n))"
  shows "\<exists>n. 0 < n \<and> n < MAX_PROCS \<and> g_current (f n) = Some i"
proof -
  obtain c where c: "runs (f 0) c" using reachable_ok [OF assms(1)] assms(2) by (auto simp: kernel_ok_def runs_def)
  then have "c < 8" by (auto elim: runsE)
  then have "dist c i \<le> 6" using dist_other [OF running_not_ready [OF c assms(4)]] assms(3) by simp
  moreover have "\<forall>n < Suc 6. turn M (f n) (f (Suc n))" using assms(5) by (simp add: MAX_PROCS_def)
  ultimately obtain n where "0 < n" "n \<le> Suc 6" "g_current (f n) = Some i" using turns_reach [of 6 M f c i] c assms(3,4) by blast
  then show ?thesis by (intro exI [of _ n]) (simp add: MAX_PROCS_def)
qed

fun yields :: "nat \<Rightarrow> (unit, unit) sched" where
  "yields 0 = two_tasks"
| "yields (Suc n) = snd (the (schedule quiet_machine (map irq_run []) (yields n)))"

lemma yield_turn:
  assumes "runs s c"
  shows "turn M s (snd (the (schedule M (map irq_run []) s)))" "\<exists>d. runs (snd (the (schedule M (map irq_run []) s))) d"
proof -
  have c: "running s c" "sched_inv s" "g_current s = Some c" using assms by (simp_all add: runs_def running_def)
  obtain r s' where s: "schedule M (map irq_run []) s = Some (r, s')"
    using assms by (cases "sched_pick_next s"; cases "switch_to M (the (sched_pick_next s)) s") (auto simp: schedule_def runs_def)
  show "turn M s (snd (the (schedule M (map irq_run []) s)))" using turn_over [OF c(1) l_yield s] s by simp
  show "\<exists>d. runs (snd (the (schedule M (map irq_run []) s))) d" using schedule_runs [OF c(2,3) s] s by simp
qed

lemma yields_run: "\<exists>c. runs (yields n) c"
proof (induction n)
  case 0
  show ?case using reachable_ok [OF two_tasks_reach] two_tasks_facts by (auto simp: runs_def kernel_ok_def)
next
  case (Suc n)
  then show ?case using yield_turn(2) by (simp del: list.map) blast
qed

lemma yields_turn: "turn quiet_machine (yields n) (yields (Suc n))"
  using yields_run [of n] yield_turn(1) by auto

theorem ready_task_runs_witness: "\<exists>n. 0 < n \<and> n < MAX_PROCS \<and> g_current (yields n) = Some 1"
  using ready_task_runs [of quiet_machine yields 1] two_tasks_reach two_tasks_facts yields_turn by simp

text \<open>
  C35: exit and wait are inverse. When the leader and last live task of a process exits with a status,
  then after the switch to the next task (with any interrupts in between) \<^verbatim>\<open>sched_waitpid\<close> returns
  the low byte of that status in bits 8 to 15 and the slot is free again.\<close>

theorem exit_status_collected:
  assumes "reachable M s" "running s c" "p_group (proc_table s ! c) = Some g" "\<not> tg_group_exit (groups s ! g)"
    and "p_tgid (proc_table s ! c) = p_tid (proc_table s ! c)"
    and "\<forall>i < 8. i \<noteq> c \<and> p_group (proc_table s ! i) = Some g \<longrightarrow> \<not> live_slot s i"
    and "schedule M (map irq_run xs) (sched_mark_exit M (sched_set_exit_status status s)) = Some (r, s')"
  shows "\<exists>s''. sched_waitpid M (p_pid (proc_table s ! c)) options s' = (WaitReturn (Some (push_bit 8 (status AND 0xFF))), s'') \<and>
    p_state (proc_table s'' ! c) = PROC_UNUSED"
  using exit_wait [OF ok_runs [OF reachable_ok [OF assms(1)] assms(2)] assms(3-7)] .

theorem exit_status_collected_witness:
  "\<exists>r s' s''. schedule quiet_machine (map irq_run []) (sched_mark_exit quiet_machine (sched_set_exit_status 7 two_tasks)) = Some (r, s') \<and>
    sched_waitpid quiet_machine 1 0 s' = (WaitReturn (Some 0x700), s'') \<and> p_state (proc_table s'' ! 0) = PROC_UNUSED"
proof -
  let ?s = "sched_mark_exit quiet_machine (sched_set_exit_status 7 two_tasks)"
  have "map_option fst (schedule quiet_machine (map irq_run []) ?s) = Some (SwitchTo 1)" by code_simp
  then obtain r s' where s: "schedule quiet_machine (map irq_run []) ?s = Some (r, s')" by auto
  have "list_all (\<lambda>i. i \<noteq> 0 \<and> p_group (proc_table two_tasks ! i) = Some 0 \<longrightarrow> \<not> live_slot two_tasks i) [0..<8]" by code_simp
  then have others: "\<forall>i < 8. i \<noteq> 0 \<and> p_group (proc_table two_tasks ! i) = Some 0 \<longrightarrow> \<not> live_slot two_tasks i"
    by (simp add: list_all_iff del: upt_rec_numeral)
  have "running two_tasks 0" using two_tasks_facts by (simp add: running_def)
  from exit_status_collected [OF two_tasks_reach this _ _ _ others s, of 0] s show ?thesis
    using two_tasks_facts by (auto simp del: list.map)
qed

text \<open>
  C36: a stop is missed by its waiter. A parent that blocks SIGCHLD and sleeps in
  \<^verbatim>\<open>sched_waitpid\<close> with \<^verbatim>\<open>WUNTRACED\<close> stays asleep when the child stops, although the call would return the
  stop status if it ran: the waiters are on the queue of the group, and \<^verbatim>\<open>sched_mark_stopped\<close>
  wakes the queue of the task, which is always empty.\<close>

theorem stop_missed_by_waiter:
  assumes "reachable M s" "running s c" "p_group (proc_table s ! c) = Some g" "p_tgid (proc_table s ! c) = p_tid (proc_table s ! c)"
    and "i < 8" "p_state (proc_table s ! i) = PROC_BLOCKED" "p_wait_queue (proc_table s ! i) = Some (QGroup g)"
    and "p_parent_pid (proc_table s ! c) = p_pid (proc_table s ! i)" "p_tgid (proc_table s ! i) = p_pid (proc_table s ! i)"
    and "\<forall>j < 8. p_group (proc_table s ! j) = p_group (proc_table s ! i) \<and> live_slot s j \<longrightarrow>
      p_sig_blocked (proc_table s ! j) AND sig_bit SIGCHLD \<noteq> 0"
  shows "p_state (proc_table (sched_mark_stopped n s) ! i) = PROC_BLOCKED \<and>
    p_wait_queue (proc_table (sched_mark_stopped n s) ! i) = Some (QGroup g) \<and>
    fst (sched_waitpid M (p_pid (proc_table s ! c)) WUNTRACED (sched_mark_stopped n s)) =
      WaitReturn (Some (push_bit 8 (of_nat n AND 0xFF) OR 0x7F))"
  using stop_unheard [OF ok_runs [OF reachable_ok [OF assms(1)] assms(2)] assms(3-10)] by blast

theorem stop_missed_by_waiter_witness:
  "p_state (proc_table (sched_mark_stopped SIGSTOP waiting) ! 0) = PROC_BLOCKED \<and>
   fst (sched_waitpid quiet_machine 2 WUNTRACED (sched_mark_stopped SIGSTOP waiting)) = WaitReturn (Some 0x137F)"
proof -
  have "list_all (\<lambda>j. p_group (proc_table waiting ! j) = Some 0 \<and> live_slot waiting j \<longrightarrow>
      p_sig_blocked (proc_table waiting ! j) AND sig_bit SIGCHLD \<noteq> 0) [0..<8]" by code_simp
  then have deaf: "\<forall>j < 8. p_group (proc_table waiting ! j) = p_group (proc_table waiting ! 0) \<and> live_slot waiting j \<longrightarrow>
      p_sig_blocked (proc_table waiting ! j) AND sig_bit SIGCHLD \<noteq> 0"
    using waiting_facts by (simp add: list_all_iff del: upt_rec_numeral)
  have r: "running waiting 1" using waiting_facts by (simp add: running_def)
  from stop_missed_by_waiter [OF waiting_reach r _ _ _ _ _ _ _ deaf, of 1 SIGSTOP] show ?thesis
    using waiting_facts by (simp add: SIGSTOP_def)
qed

end
