(* ===== verification/Ring.thy ===== *)
theory Ring
  imports Drunix_Prelude
begin

text \<open>
  Byte rings, which pipes (kernel/proc/pipe.c), pseudo-terminals (kernel/proc/pty.c) and the raw
  input of terminals (kernel/drivers/tty.c) have in common: the stored bytes as a window of an array, and
  the contract of a bounded queue with what its users may conclude.
\<close>

section \<open>A window of an array\<close>

definition window :: "'a list \<Rightarrow> nat \<Rightarrow> nat \<Rightarrow> 'a list" where
  "window buf t n = map (\<lambda>k. buf ! ((t + k) mod length buf)) [0..<n]"

lemma window_length [simp]: "length (window buf t n) = n"
  by (simp add: window_def)

lemma window_0 [simp]: "window buf t 0 = []"
  by (simp add: window_def)

lemma window_nil [simp]: "window buf t n = [] \<longleftrightarrow> n = 0"
  by (metis length_0_conv window_length)

lemma mod_add_inj:
  assumes "k < N" "j < N" "(t + k) mod N = (t + j) mod N"
  shows "k = (j :: nat)"
proof -
  have "(int t + int k) mod int N = (int t + int j) mod int N" using assms(3) by (metis of_nat_add of_nat_mod)
  then have "int N dvd int k - int j" by (simp add: mod_eq_dvd_iff)
  then have "int k - int j = 0 \<or> int N \<le> \<bar>int k - int j\<bar>" using dvd_imp_le_int [of "int k - int j" "int N"] by auto
  then show ?thesis using assms(1,2) by linarith
qed

lemma window_push:
  assumes "n < length buf"
  shows "window (buf[(t + n) mod length buf := b]) t (Suc n) = window buf t n @ [b]"
proof -
  have N: "buf \<noteq> []" using assms by auto
  have "(t + n) mod length buf \<noteq> (t + k) mod length buf" if "k < n" for k
    using mod_add_inj [of n "length buf" k t] that assms by auto
  then have "map (\<lambda>k. buf[(t + n) mod length buf := b] ! ((t + k) mod length buf)) [0..<n] = map (\<lambda>k. buf ! ((t + k) mod length buf)) [0..<n]"
    by (intro map_cong) (simp_all add: nth_list_update_neq)
  then show ?thesis using N by (simp add: window_def)
qed

lemma window_pop:
  assumes "t < length buf"
  shows "window buf t (Suc n) = buf ! t # window buf (Suc t mod length buf) n"
proof -
  have "[0..<Suc n] = 0 # map Suc [0..<n]" by (simp add: upt_conv_Cons map_Suc_upt del: upt_Suc)
  then have "window buf t (Suc n) = buf ! (t mod length buf) # map (\<lambda>k. buf ! ((t + Suc k) mod length buf)) [0..<n]"
    by (simp add: window_def comp_def del: upt_Suc)
  moreover have "(t + Suc k) mod length buf = (Suc t mod length buf + k) mod length buf" for k
    by (simp add: mod_add_left_eq)
  ultimately show ?thesis using assms by (simp add: window_def)
qed

section \<open>The contract of a bounded queue\<close>

locale byte_queue =
  fixes ok :: "'q \<Rightarrow> bool" and contents :: "'q \<Rightarrow> 'b list" and cap :: nat
    and push :: "'b \<Rightarrow> 'q \<Rightarrow> 'q" and pop :: "'q \<Rightarrow> 'b \<times> 'q"
  assumes bound: "ok q \<Longrightarrow> length (contents q) \<le> cap"
    and push_law: "ok q \<Longrightarrow> length (contents q) < cap \<Longrightarrow> ok (push b q) \<and> contents (push b q) = contents q @ [b]"
    and pop_law: "ok q \<Longrightarrow> contents q \<noteq> [] \<Longrightarrow>
      ok (snd (pop q)) \<and> contents q = fst (pop q) # contents (snd (pop q))"
begin

text \<open>Putting a list of bytes that fits.\<close>

lemma push_list:
  "ok q \<Longrightarrow> length (contents q) + length bs \<le> cap \<Longrightarrow> ok (fold push bs q) \<and> contents (fold push bs q) = contents q @ bs"
proof (induction bs arbitrary: q)
  case (Cons b bs)
  have "ok (push b q) \<and> contents (push b q) = contents q @ [b]" using push_law [OF Cons.prems(1)] Cons.prems(2) by simp
  then show ?case using Cons.IH [of "push b q"] Cons.prems(2) by simp
qed simp

text \<open>Taking \<open>n\<close> bytes.\<close>

fun pops :: "nat \<Rightarrow> 'q \<Rightarrow> 'b list \<times> 'q" where
  "pops 0 q = ([], q)"
| "pops (Suc n) q = (case pop q of (b, q1) \<Rightarrow> case pops n q1 of (bs, q2) \<Rightarrow> (b # bs, q2))"

lemma pops_law: "ok q \<Longrightarrow> n \<le> length (contents q) \<Longrightarrow> ok (snd (pops n q)) \<and> fst (pops n q) = take n (contents q) \<and>
    contents (snd (pops n q)) = drop n (contents q)"
proof (induction n arbitrary: q)
  case (Suc n)
  obtain b q1 where p: "pop q = (b, q1)" by fastforce
  have "contents q \<noteq> []" using Suc.prems(2) by auto
  then have q1: "ok q1" "contents q = b # contents q1" using pop_law [OF Suc.prems(1)] p by auto
  then show ?case using Suc.IH [OF q1(1)] Suc.prems(2) by (cases "pops n q1") (simp add: p)
qed simp

end

end
