(* ===== verification/Pipe.thy ===== *)
theory Pipe
  imports Ring Sched
begin

text \<open>
  Kernel pipes: the table of kernel/proc/pipe.c and the pipe branches of the read and write system
  calls in kernel/proc/syscall/fd.c, with the reference counts of kernel/proc/resources.c and
  kernel/proc/syscall/helpers.c.

  The waiters of pipe \<open>i\<close> are the queue \<open>QExt (pipe_queue i)\<close> of the scheduler. A call that blocks ends a
  round with \<open>IoSleep\<close> and what it still has to do; when the task runs again it goes on from there. User
  memory is the list of bytes a write offers, and a predicate that says which copies fail.
\<close>

definition PIPE_BUF_SIZE :: nat where "PIPE_BUF_SIZE = 4096"
definition MAX_PIPES :: nat where "MAX_PIPES = 8"
definition USER_IO_CHUNK :: nat where "USER_IO_CHUNK = 512"
definition LINUX_EAGAIN :: int where "LINUX_EAGAIN = 11"

record pipe_buf =
  pb_buf :: "u8 list"
  pb_read_idx :: nat
  pb_write_idx :: nat
  pb_count :: nat
  pb_read_open :: u32
  pb_write_open :: u32
  pb_in_use :: bool

text \<open>The queues of the objects outside the scheduler: four terminals, then the pipes, then the rings.\<close>

definition tty_queue :: "nat \<Rightarrow> nat" where "tty_queue i = i"
definition pipe_queue :: "nat \<Rightarrow> nat" where "pipe_queue i = 4 + i"
definition pty_queue :: "nat \<Rightarrow> bool \<Rightarrow> nat" where "pty_queue i to_master = 12 + 2 * i + (if to_master then 1 else 0)"

section \<open>The table\<close>

definition pipe_alloc :: "pipe_buf list \<Rightarrow> ('r, 'w) sched \<Rightarrow> nat option \<times> pipe_buf list \<times> ('r, 'w) sched" where
  "pipe_alloc ps s =
     (case find (\<lambda>i. \<not> pb_in_use (ps ! i)) [0..<MAX_PIPES] of
        None \<Rightarrow> (None, ps, s)
      | Some i \<Rightarrow>
          (Some i,
           ps[i := (ps ! i)\<lparr>pb_read_idx := 0, pb_write_idx := 0, pb_count := 0, pb_read_open := 1, pb_write_open := 1, pb_in_use := True\<rparr>],
           set_queue (QExt (pipe_queue i)) None None s))"

definition pipe_free :: "int \<Rightarrow> pipe_buf list \<Rightarrow> pipe_buf list" where
  "pipe_free idx ps = (if 0 \<le> idx \<and> idx < int MAX_PIPES then ps[nat idx := (ps ! nat idx)\<lparr>pb_in_use := False\<rparr>] else ps)"

definition pipe_get :: "int \<Rightarrow> pipe_buf list \<Rightarrow> nat option" where
  "pipe_get idx ps =
     (if idx < 0 \<or> idx \<ge> int MAX_PIPES then None else if \<not> pb_in_use (ps ! nat idx) then None else Some (nat idx))"

section \<open>Writing\<close>

definition pipe_push :: "u8 \<Rightarrow> pipe_buf \<Rightarrow> pipe_buf" where
  "pipe_push b p = p\<lparr>pb_buf := (pb_buf p)[pb_write_idx p := b], pb_write_idx := (pb_write_idx p + 1) mod PIPE_BUF_SIZE,
     pb_count := pb_count p + 1\<rparr>"

datatype 'k io = IoReturn int | IoSleep 'k

text \<open>How a writer stands: it returns, it must wait with some bytes of the chunk left, or the chunk is done.\<close>

datatype write_step = WFail int | WBlock nat "u8 list" | WNext nat

definition pipe_full :: "bool \<Rightarrow> bool \<Rightarrow> pipe_buf \<Rightarrow> nat \<Rightarrow> u8 list \<Rightarrow> write_step" where
  "pipe_full nonblock signal p copied kbuf =
     (if nonblock then WFail (if copied \<noteq> 0 then int copied else - LINUX_EAGAIN)
      else if pb_read_open p = 0 \<or> signal then WFail (if copied \<noteq> 0 then int copied else -1)
      else WBlock copied kbuf)"

fun pipe_put :: "bool \<Rightarrow> bool \<Rightarrow> pipe_buf \<Rightarrow> nat \<Rightarrow> u8 list \<Rightarrow> write_step \<times> pipe_buf" where
  "pipe_put nonblock signal p copied [] = (WNext copied, p)"
| "pipe_put nonblock signal p copied (b # bs) =
     (if pb_count p = PIPE_BUF_SIZE then (pipe_full nonblock signal p copied (b # bs), p)
      else pipe_put nonblock signal (pipe_push b p) (copied + 1) bs)"

lemma pipe_put_next: "pipe_put nb sg p copied bs = (WNext copied', p') \<Longrightarrow> copied' = copied + length bs"
  by (induction nb sg p copied bs rule: pipe_put.induct) (auto simp: pipe_full_def split: if_splits)

function pipe_write_loop ::
  "(nat \<Rightarrow> nat \<Rightarrow> bool) \<Rightarrow> bool \<Rightarrow> bool \<Rightarrow> u8 list \<Rightarrow> nat \<Rightarrow> pipe_buf \<Rightarrow> write_step \<times> pipe_buf" where
  "pipe_write_loop fault nonblock signal user_buf copied p =
     (if copied < length user_buf then
        let chunk = min (length user_buf - copied) USER_IO_CHUNK; kbuf = take chunk (drop copied user_buf) in
        if fault copied chunk then (WFail (if copied \<noteq> 0 then int copied else -1), p)
        else if pb_count p = PIPE_BUF_SIZE then (pipe_full nonblock signal p copied kbuf, p)
        else case pipe_put nonblock signal p copied kbuf of
          (WNext copied1, p1) \<Rightarrow> pipe_write_loop fault nonblock signal user_buf copied1 p1
        | r \<Rightarrow> r
      else (WNext copied, p))"
  by pat_completeness auto

termination
  by (relation "measure (\<lambda>(_, _, _, u, c, _). length u - c)") (auto dest!: pipe_put_next sym [of "(_, _)"] simp: USER_IO_CHUNK_def)

declare pipe_write_loop.simps [simp del]

text \<open>The end of a round.\<close>

definition pipe_write_end ::
  "nat \<Rightarrow> write_step \<times> pipe_buf \<Rightarrow> ('r, 'w) sched \<Rightarrow> (nat \<times> u8 list) io \<times> pipe_buf \<times> ('r, 'w) sched" where
  "pipe_write_end idx r s =
     (case r of
        (WFail n, p) \<Rightarrow> (IoReturn n, p, s)
      | (WBlock copied kbuf, p) \<Rightarrow> (IoSleep (copied, kbuf), p, sched_block (Some (QExt (pipe_queue idx))) s)
      | (WNext copied, p) \<Rightarrow> (IoReturn (int copied), p, sched_wake_all (QExt (pipe_queue idx)) s))"

definition pipe_write ::
  "(nat \<Rightarrow> nat \<Rightarrow> bool) \<Rightarrow> bool \<Rightarrow> bool \<Rightarrow> nat \<Rightarrow> u8 list \<Rightarrow> nat \<Rightarrow> pipe_buf \<Rightarrow> ('r, 'w) sched \<Rightarrow>
     (nat \<times> u8 list) io \<times> pipe_buf \<times> ('r, 'w) sched" where
  "pipe_write fault prepared nonblock cur user_buf idx p s =
     (if \<not> pb_in_use p \<or> pb_read_open p = 0 then (IoReturn (-1), p, s)
      else if \<not> prepared then (IoReturn (-1), p, s)
      else pipe_write_end idx (pipe_write_loop fault nonblock (sched_process_has_unblocked_signal s cur) user_buf 0 p) s)"

definition pipe_write_resume ::
  "(nat \<Rightarrow> nat \<Rightarrow> bool) \<Rightarrow> bool \<Rightarrow> nat \<Rightarrow> u8 list \<Rightarrow> nat \<Rightarrow> nat \<times> u8 list \<Rightarrow> pipe_buf \<Rightarrow> ('r, 'w) sched \<Rightarrow>
     (nat \<times> u8 list) io \<times> pipe_buf \<times> ('r, 'w) sched" where
  "pipe_write_resume fault nonblock cur user_buf idx k p s =
     (case k of (copied, kbuf) \<Rightarrow>
        pipe_write_end idx
          (case pipe_put nonblock (sched_process_has_unblocked_signal s cur) p copied kbuf of
             (WNext copied1, p1) \<Rightarrow> pipe_write_loop fault nonblock (sched_process_has_unblocked_signal s cur) user_buf copied1 p1
           | r \<Rightarrow> r) s)"

section \<open>Reading\<close>

fun pipe_take :: "nat \<Rightarrow> pipe_buf \<Rightarrow> u8 list \<times> pipe_buf" where
  "pipe_take 0 p = ([], p)"
| "pipe_take (Suc n) p =
     (let b = pb_buf p ! pb_read_idx p; p1 = p\<lparr>pb_read_idx := (pb_read_idx p + 1) mod PIPE_BUF_SIZE\<rparr>
      in case pipe_take n p1 of (bs, p2) \<Rightarrow> (b # bs, p2))"

text \<open>The copied bytes reach the user one chunk at a time; \<open>None\<close> is the end of the loop.\<close>

function pipe_read_loop :: "(nat \<Rightarrow> nat \<Rightarrow> bool) \<Rightarrow> nat \<Rightarrow> nat \<Rightarrow> u8 list \<Rightarrow> pipe_buf \<Rightarrow> int option \<times> u8 list \<times> pipe_buf" where
  "pipe_read_loop fault to_read copied out p =
     (if copied < to_read then
        let chunk = min (to_read - copied) USER_IO_CHUNK in
        case pipe_take chunk p of (kbuf, p1) \<Rightarrow>
          if fault copied chunk then (Some (if copied \<noteq> 0 then int copied else -1), out, p1)
          else pipe_read_loop fault to_read (copied + chunk) (out @ kbuf) p1
      else (None, out, p))"
  by pat_completeness auto

termination
  by (relation "measure (\<lambda>(_, n, c, _). n - c)") (auto simp: USER_IO_CHUNK_def)

declare pipe_read_loop.simps [simp del]

definition pipe_read ::
  "(nat \<Rightarrow> nat \<Rightarrow> bool) \<Rightarrow> bool \<Rightarrow> bool \<Rightarrow> nat \<Rightarrow> nat \<Rightarrow> nat \<Rightarrow> pipe_buf \<Rightarrow> ('r, 'w) sched \<Rightarrow>
     unit io \<times> u8 list \<times> pipe_buf \<times> ('r, 'w) sched" where
  "pipe_read fault prepared nonblock cur count idx p s =
     (if \<not> pb_in_use p then (IoReturn (-1), [], p, s)
      else if pb_count p = 0 then
        (if pb_write_open p = 0 then (IoReturn 0, [], p, s)
         else if nonblock then (IoReturn (- LINUX_EAGAIN), [], p, s)
         else if sched_process_has_unblocked_signal s cur then (IoReturn (-1), [], p, s)
         else (IoSleep (), [], p, sched_block (Some (QExt (pipe_queue idx))) s))
      else
        let to_read = min count (pb_count p) in
        if \<not> prepared then (IoReturn (-1), [], p, s)
        else case pipe_read_loop fault to_read 0 [] p of
          (Some n, out, p1) \<Rightarrow> (IoReturn n, out, p1, s)
        | (None, out, p1) \<Rightarrow>
            (IoReturn (int to_read), out, p1\<lparr>pb_count := pb_count p1 - to_read\<rparr>, sched_wake_all (QExt (pipe_queue idx)) s))"

section \<open>Opening and closing ends\<close>

definition pipe_open_read :: "int \<Rightarrow> pipe_buf list \<Rightarrow> pipe_buf list" where
  "pipe_open_read idx ps = (case pipe_get idx ps of None \<Rightarrow> ps | Some i \<Rightarrow> ps[i := (ps ! i)\<lparr>pb_read_open := pb_read_open (ps ! i) + 1\<rparr>])"

definition pipe_open_write :: "int \<Rightarrow> pipe_buf list \<Rightarrow> pipe_buf list" where
  "pipe_open_write idx ps = (case pipe_get idx ps of None \<Rightarrow> ps | Some i \<Rightarrow> ps[i := (ps ! i)\<lparr>pb_write_open := pb_write_open (ps ! i) + 1\<rparr>])"

definition pipe_close_end :: "(pipe_buf \<Rightarrow> pipe_buf) \<Rightarrow> int \<Rightarrow> pipe_buf list \<Rightarrow> ('r, 'w) sched \<Rightarrow> pipe_buf list \<times> ('r, 'w) sched" where
  "pipe_close_end dec idx ps s =
     (case pipe_get idx ps of
        None \<Rightarrow> (ps, s)
      | Some i \<Rightarrow>
          (let ps1 = ps[i := dec (ps ! i)]; s1 = sched_wake_all (QExt (pipe_queue i)) s in
           (if pb_read_open (ps1 ! i) = 0 \<and> pb_write_open (ps1 ! i) = 0 then pipe_free idx ps1 else ps1, s1)))"

definition pipe_close_read :: "int \<Rightarrow> pipe_buf list \<Rightarrow> ('r, 'w) sched \<Rightarrow> pipe_buf list \<times> ('r, 'w) sched" where
  "pipe_close_read = pipe_close_end (\<lambda>p. if pb_read_open p > 0 then p\<lparr>pb_read_open := pb_read_open p - 1\<rparr> else p)"

definition pipe_close_write :: "int \<Rightarrow> pipe_buf list \<Rightarrow> ('r, 'w) sched \<Rightarrow> pipe_buf list \<times> ('r, 'w) sched" where
  "pipe_close_write = pipe_close_end (\<lambda>p. if pb_write_open p > 0 then p\<lparr>pb_write_open := pb_write_open p - 1\<rparr> else p)"

end
