(* ===== verification/Pipe_Run.thy ===== *)
theory Pipe_Run
  imports Pipe Sched_Exit
begin

text \<open>
  What pipes promise: the bytes that readers get are the bytes that writers put, once and in order;
  and where they fail: a writer of more than a buffer's worth that finds its reader asleep.
\<close>

section \<open>The ring of a pipe\<close>

definition pipe_ok :: "pipe_buf \<Rightarrow> bool" where
  "pipe_ok p \<longleftrightarrow> length (pb_buf p) = PIPE_BUF_SIZE \<and> pb_read_idx p < PIPE_BUF_SIZE \<and> pb_count p \<le> PIPE_BUF_SIZE \<and>
     pb_write_idx p = (pb_read_idx p + pb_count p) mod PIPE_BUF_SIZE"

definition pipe_data :: "pipe_buf \<Rightarrow> u8 list" where
  "pipe_data p = window (pb_buf p) (pb_read_idx p) (pb_count p)"

definition pipe_pop :: "pipe_buf \<Rightarrow> u8 \<times> pipe_buf" where
  "pipe_pop p = (case pipe_take 1 p of (bs, p1) \<Rightarrow> (hd bs, p1\<lparr>pb_count := pb_count p1 - 1\<rparr>))"

lemma pipe_data_length [simp]: "length (pipe_data p) = pb_count p"
  by (simp add: pipe_data_def)

lemma pipe_push_law:
  assumes "pipe_ok p" "pb_count p < PIPE_BUF_SIZE"
  shows "pipe_ok (pipe_push b p)" "pipe_data (pipe_push b p) = pipe_data p @ [b]"
proof -
  show "pipe_ok (pipe_push b p)" using assms by (auto simp: pipe_ok_def pipe_push_def mod_Suc_eq)
  show "pipe_data (pipe_push b p) = pipe_data p @ [b]"
    using assms window_push [of "pb_count p" "pb_buf p" "pb_read_idx p" b] by (simp add: pipe_ok_def pipe_push_def pipe_data_def)
qed

lemma pipe_pop_law:
  assumes "pipe_ok p" "pipe_data p \<noteq> []"
  shows "pipe_ok (snd (pipe_pop p)) \<and> pipe_data p = fst (pipe_pop p) # pipe_data (snd (pipe_pop p))"
proof -
  obtain n where n: "pb_count p = Suc n" using assms(2) by (cases "pb_count p") (auto simp: pipe_data_def)
  have "(Suc (pb_read_idx p) mod PIPE_BUF_SIZE + n) mod PIPE_BUF_SIZE = (pb_read_idx p + Suc n) mod PIPE_BUF_SIZE"
    by (simp add: mod_add_left_eq)
  then show ?thesis using assms(1) n window_pop [of "pb_read_idx p" "pb_buf p" n]
    by (auto simp: pipe_ok_def pipe_pop_def pipe_data_def PIPE_BUF_SIZE_def)
qed

interpretation pq: byte_queue pipe_ok pipe_data PIPE_BUF_SIZE pipe_push pipe_pop
  by unfold_locales (simp add: pipe_ok_def, simp add: pipe_push_law, rule pipe_pop_law)

section \<open>Writing\<close>

text \<open>The bytes a writer has put when it stands at \<open>r\<close>, and the rest it holds.\<close>

definition put_step :: "bool \<Rightarrow> bool \<Rightarrow> bool \<Rightarrow> u8 list \<Rightarrow> nat \<Rightarrow> pipe_buf \<Rightarrow> write_step \<times> pipe_buf \<Rightarrow> bool" where
  "put_step faulty nb sg user copied p r \<longleftrightarrow> (\<exists>k. copied + k \<le> length user \<and> pipe_ok (snd r) \<and>
     pipe_data (snd r) = pipe_data p @ take k (drop copied user) \<and>
     pb_read_open (snd r) = pb_read_open p \<and> pb_write_open (snd r) = pb_write_open p \<and> pb_in_use (snd r) = pb_in_use p \<and>
     (case fst r of
        WNext c \<Rightarrow> c = copied + k \<and> c = length user
      | WBlock c rest \<Rightarrow> c = copied + k \<and> rest \<noteq> [] \<and> rest = take (length rest) (drop c user) \<and> pb_count (snd r) = PIPE_BUF_SIZE
      | WFail n \<Rightarrow> nat n = copied + k \<and> (faulty \<or> nb \<or> sg \<or> pb_read_open p = 0)))"

lemma pipe_put_step:
  assumes "pipe_ok p" "pipe_put nb sg p copied bs = (r, p')"
  shows "\<exists>k \<le> length bs. pipe_ok p' \<and> pipe_data p' = pipe_data p @ take k bs \<and>
     pb_read_open p' = pb_read_open p \<and> pb_write_open p' = pb_write_open p \<and> pb_in_use p' = pb_in_use p \<and>
     (case r of
        WNext c \<Rightarrow> c = copied + k \<and> k = length bs
      | WBlock c rest \<Rightarrow> c = copied + k \<and> rest \<noteq> [] \<and> rest = drop k bs \<and> pb_count p' = PIPE_BUF_SIZE
      | WFail n \<Rightarrow> nat n = copied + k \<and> (nb \<or> sg \<or> pb_read_open p = 0))"
  using assms
proof (induction bs arbitrary: p copied)
  case (Cons b bs)
  show ?case
  proof (cases "pb_count p = PIPE_BUF_SIZE")
    case True
    with Cons.prems show ?thesis
      by (intro exI [of _ 0]) (auto simp: pipe_full_def LINUX_EAGAIN_def split: if_splits)
  next
    case False
    then have lt: "pb_count p < PIPE_BUF_SIZE" using Cons.prems(1) by (simp add: pipe_ok_def)
    note push = pipe_push_law [OF Cons.prems(1) lt, of b]
    have keep: "pb_read_open (pipe_push b p) = pb_read_open p" "pb_write_open (pipe_push b p) = pb_write_open p"
      "pb_in_use (pipe_push b p) = pb_in_use p" by (simp_all add: pipe_push_def)
    have "pipe_put nb sg (pipe_push b p) (copied + 1) bs = (r, p')" using Cons.prems(2) False by simp
    from Cons.IH [OF push(1) this] obtain k where "k \<le> length bs" "pipe_ok p'"
      "pipe_data p' = pipe_data (pipe_push b p) @ take k bs" "pb_read_open p' = pb_read_open p" "pb_write_open p' = pb_write_open p"
      "pb_in_use p' = pb_in_use p"
      "case r of WNext c \<Rightarrow> c = copied + 1 + k \<and> k = length bs
        | WBlock c rest \<Rightarrow> c = copied + 1 + k \<and> rest \<noteq> [] \<and> rest = drop k bs \<and> pb_count p' = PIPE_BUF_SIZE
        | WFail n \<Rightarrow> nat n = copied + 1 + k \<and> (nb \<or> sg \<or> pb_read_open p = 0)"
      unfolding keep by blast
    then show ?thesis using push(2) by (intro exI [of _ "Suc k"]) (auto split: write_step.splits)
  qed
next
  case Nil
  then show ?case by (intro exI [of _ 0]) (cases r, simp_all)
qed

lemma pipe_put_of:
  assumes p: "pipe_ok p" and kb: "kb = take n (drop copied user)" and r: "pipe_put nb sg p copied kb = (r, p')" and x: "\<nexists>c. r = WNext c"
  shows "put_step faulty nb sg user copied p (r, p')"
proof -
  from pipe_put_step [OF p r] obtain k where k: "k \<le> length kb" "pipe_ok p'" "pipe_data p' = pipe_data p @ take k kb"
     "pb_read_open p' = pb_read_open p" "pb_write_open p' = pb_write_open p" "pb_in_use p' = pb_in_use p"
     "case r of WNext c \<Rightarrow> c = copied + k \<and> k = length kb
      | WBlock c rest \<Rightarrow> c = copied + k \<and> rest \<noteq> [] \<and> rest = drop k kb \<and> pb_count p' = PIPE_BUF_SIZE
      | WFail n \<Rightarrow> nat n = copied + k \<and> (nb \<or> sg \<or> pb_read_open p = 0)" by blast
  have tk: "take k kb = take k (drop copied user)" using k(1) by (simp add: kb min.absorb1)
  show ?thesis
  proof (cases "k = 0 \<and> kb = []")
    case True
    then have "r = WNext copied" using r by simp
    with x show ?thesis by simp
  next
    case False
    then have c: "copied + k \<le> length user" using k(1) by (auto simp: kb)
    have d: "drop k kb = take (length (drop k kb)) (drop (copied + k) user)"
      using k(1) by (simp add: kb drop_take add.commute min_def)
    have "case r of WNext c \<Rightarrow> c = copied + k \<and> c = length user
      | WBlock c rest \<Rightarrow> c = copied + k \<and> rest \<noteq> [] \<and> rest = take (length rest) (drop c user) \<and> pb_count p' = PIPE_BUF_SIZE
      | WFail n \<Rightarrow> nat n = copied + k \<and> (faulty \<or> nb \<or> sg \<or> pb_read_open p = 0)"
    proof (cases r)
      case (WBlock b rest)
      have "b = copied + k \<and> rest \<noteq> [] \<and> rest = drop k kb \<and> pb_count p' = PIPE_BUF_SIZE" using k(7) unfolding WBlock write_step.case .
      then have b: "b = copied + k" "rest \<noteq> []" "rest = drop k kb" "pb_count p' = PIPE_BUF_SIZE" by blast+
      have "rest = take (length rest) (drop b user)" unfolding b(1,3) by (rule d)
      with b(1,2,4) show ?thesis unfolding WBlock write_step.case by blast
    qed (use k(7) x in auto)
    then show ?thesis unfolding put_step_def fst_conv snd_conv using k(2-6) c tk by (intro exI [of _ k] conjI) simp_all
  qed
qed

lemma put_step_0:
  assumes "pipe_ok p" "copied \<le> length user"
    "case r of WNext c \<Rightarrow> c = copied \<and> c = length user
      | WBlock c rest \<Rightarrow> c = copied \<and> rest \<noteq> [] \<and> rest = take (length rest) (drop c user) \<and> pb_count p = PIPE_BUF_SIZE
      | WFail n \<Rightarrow> nat n = copied \<and> (faulty \<or> nb \<or> sg \<or> pb_read_open p = 0)"
  shows "put_step faulty nb sg user copied p (r, p)"
proof -
  have "case r of WNext c \<Rightarrow> c = copied + 0 \<and> c = length user
      | WBlock c rest \<Rightarrow> c = copied + 0 \<and> rest \<noteq> [] \<and> rest = take (length rest) (drop c user) \<and> pb_count p = PIPE_BUF_SIZE
      | WFail n \<Rightarrow> nat n = copied + 0 \<and> (faulty \<or> nb \<or> sg \<or> pb_read_open p = 0)"
    using assms(3) unfolding add_0_right .
  with assms(1,2) show ?thesis unfolding put_step_def fst_conv snd_conv by (intro exI [of _ 0] conjI) simp_all
qed

lemma put_step_trans:
  assumes "pipe_data p1 = pipe_data p @ take j (drop copied user)" "copied + j \<le> length user"
    "pb_read_open p1 = pb_read_open p" "pb_write_open p1 = pb_write_open p" "pb_in_use p1 = pb_in_use p"
    and "put_step faulty nb sg user (copied + j) p1 r"
  shows "put_step faulty nb sg user copied p r"
proof -
  from assms(6) obtain k where k: "copied + j + k \<le> length user" "pipe_ok (snd r)" "pipe_data (snd r) = pipe_data p1 @ take k (drop (copied + j) user)"
     "pb_read_open (snd r) = pb_read_open p1" "pb_write_open (snd r) = pb_write_open p1" "pb_in_use (snd r) = pb_in_use p1"
     "case fst r of
        WNext c \<Rightarrow> c = copied + j + k \<and> c = length user
      | WBlock c rest \<Rightarrow> c = copied + j + k \<and> rest \<noteq> [] \<and> rest = take (length rest) (drop c user) \<and> pb_count (snd r) = PIPE_BUF_SIZE
      | WFail n \<Rightarrow> nat n = copied + j + k \<and> (faulty \<or> nb \<or> sg \<or> pb_read_open p1 = 0)" by (auto simp: put_step_def)
  have "take j (drop copied user) @ take k (drop (copied + j) user) = take (j + k) (drop copied user)" by (simp add: take_add add.commute)
  then show ?thesis unfolding put_step_def using k assms(1,3-5) by (intro exI [of _ "j + k"]) (auto simp: ac_simps split: write_step.splits)
qed

lemma pipe_write_loop_step:
  "pipe_ok p \<Longrightarrow> copied \<le> length user \<Longrightarrow> put_step (\<exists>a b. fault a b) nb sg user copied p (pipe_write_loop fault nb sg user copied p)"
proof (induction fault nb sg user copied p rule: pipe_write_loop.induct)
  case (1 fault nb sg user copied p)
  show ?case
  proof (cases "copied < length user")
    case False
    then show ?thesis using "1.prems" by (subst pipe_write_loop.simps) (auto simp: put_step_def)
  next
    case True
    define n where "n = min (length user - copied) USER_IO_CHUNK"
    define kb where "kb = take n (drop copied user)"
    have kn: "length kb = n" "kb \<noteq> []" using True by (auto simp: kb_def n_def USER_IO_CHUNK_def)
    have e: "pipe_write_loop fault nb sg user copied p =
        (if fault copied n then (WFail (if copied \<noteq> 0 then int copied else -1), p)
         else if pb_count p = PIPE_BUF_SIZE then (pipe_full nb sg p copied kb, p)
         else case pipe_put nb sg p copied kb of
           (WNext copied1, p1) \<Rightarrow> pipe_write_loop fault nb sg user copied1 p1 | r \<Rightarrow> r)"
      using True by (subst pipe_write_loop.simps) (simp add: Let_def n_def kb_def)
    show ?thesis
    proof (cases "fault copied n \<or> pb_count p = PIPE_BUF_SIZE")
      case True
      then show ?thesis unfolding e using "1.prems" kn
        by (cases "fault copied n") (auto simp: pipe_full_def LINUX_EAGAIN_def kb_def intro!: put_step_0 split: if_splits)
    next
      case False
      obtain r p1 where put: "pipe_put nb sg p copied kb = (r, p1)" by fastforce
      show ?thesis
      proof (cases r)
        case (WNext c)
        from pipe_put_step [OF "1.prems"(1) put] WNext have s: "pipe_ok p1" "pipe_data p1 = pipe_data p @ take n (drop copied user)"
            "pb_read_open p1 = pb_read_open p" "pb_write_open p1 = pb_write_open p" "pb_in_use p1 = pb_in_use p" "c = copied + n"
          using kn by (auto simp: kb_def)
        have l: "copied + n \<le> length user" by (simp add: n_def True le_diff_conv2 less_imp_le min_def)
        have "put_step (\<exists>a b. fault a b) nb sg user c p1 (pipe_write_loop fault nb sg user c p1)"
          using "1.IH" [OF True n_def kb_def _ _ put [unfolded WNext, symmetric] refl s(1)] False l s(6) by simp
        then have "put_step (\<exists>a b. fault a b) nb sg user (copied + n) p1 (pipe_write_loop fault nb sg user c p1)" using s(6) by simp
        from put_step_trans [OF s(2) l s(3-5) this] show ?thesis unfolding e using False put WNext by simp
      next
        case (WFail m)
        then show ?thesis unfolding e using False put pipe_put_of [OF "1.prems"(1) kb_def put] by simp
      next
        case (WBlock c rest)
        then show ?thesis unfolding e using False put pipe_put_of [OF "1.prems"(1) kb_def put] by simp
      qed
    qed
  qed
qed

section \<open>Reading\<close>

lemma pipe_take_form:
  "pb_read_idx p < PIPE_BUF_SIZE \<Longrightarrow> length (pb_buf p) = PIPE_BUF_SIZE \<Longrightarrow>
   pipe_take n p = (window (pb_buf p) (pb_read_idx p) n, p\<lparr>pb_read_idx := (pb_read_idx p + n) mod PIPE_BUF_SIZE\<rparr>)"
proof (induction n arbitrary: p)
  case (Suc n)
  from Suc.IH [of "p\<lparr>pb_read_idx := Suc (pb_read_idx p) mod PIPE_BUF_SIZE\<rparr>"] Suc.prems window_pop [of "pb_read_idx p" "pb_buf p" n]
  show ?case by (simp add: Let_def mod_add_left_eq PIPE_BUF_SIZE_def)
qed simp

lemma pipe_size_pos: "0 < PIPE_BUF_SIZE"
  by (simp add: PIPE_BUF_SIZE_def)

lemma pipe_pops_form:
  "pb_read_idx p < PIPE_BUF_SIZE \<Longrightarrow> length (pb_buf p) = PIPE_BUF_SIZE \<Longrightarrow>
   pq.pops n p = (window (pb_buf p) (pb_read_idx p) n,
     p\<lparr>pb_read_idx := (pb_read_idx p + n) mod PIPE_BUF_SIZE, pb_count := pb_count p - n\<rparr>)"
proof (induction n arbitrary: p)
  case (Suc n)
  have pop: "pipe_pop p = (pb_buf p ! pb_read_idx p, p\<lparr>pb_read_idx := Suc (pb_read_idx p) mod PIPE_BUF_SIZE, pb_count := pb_count p - 1\<rparr>)"
    by (simp add: pipe_pop_def)
  from Suc.IH [of "p\<lparr>pb_read_idx := Suc (pb_read_idx p) mod PIPE_BUF_SIZE, pb_count := pb_count p - 1\<rparr>"] Suc.prems
    window_pop [of "pb_read_idx p" "pb_buf p" n]
  show ?case by (simp add: pq.pops.simps pop mod_add_left_eq pipe_size_pos)
qed simp

text \<open>A read of \<open>n\<close> bytes takes them one by one off the queue.\<close>

lemma pipe_read_pops:
  assumes "pipe_ok p"
  shows "fst (pipe_take n p) = fst (pq.pops n p)" "(snd (pipe_take n p))\<lparr>pb_count := pb_count p - n\<rparr> = snd (pq.pops n p)"
    "pb_count (snd (pipe_take n p)) = pb_count p"
  using assms by (simp_all add: pipe_ok_def pipe_take_form pipe_pops_form)

lemma pipe_take_add:
  "pipe_take (a + b) p = (case pipe_take a p of (x, p1) \<Rightarrow> case pipe_take b p1 of (y, p2) \<Rightarrow> (x @ y, p2))"
  by (induction a arbitrary: p) (auto simp: Let_def split: prod.splits)

lemma pipe_read_loop_take:
  assumes "\<forall>a b. \<not> fault a b"
  shows "copied \<le> n \<Longrightarrow> pipe_read_loop fault n copied out p = (None, out @ fst (pipe_take (n - copied) p), snd (pipe_take (n - copied) p))"
proof (induction "n - copied" arbitrary: copied out p rule: less_induct)
  case less
  show ?case
  proof (cases "copied < n")
    case False
    then show ?thesis by (subst pipe_read_loop.simps) simp
  next
    case True
    define c where "c = min (n - copied) USER_IO_CHUNK"
    obtain kb p1 where t: "pipe_take c p = (kb, p1)" by fastforce
    have c: "0 < c" "copied + c \<le> n" "n - copied = c + (n - (copied + c))" using True by (auto simp: c_def USER_IO_CHUNK_def)
    have "pipe_read_loop fault n copied out p = pipe_read_loop fault n (copied + c) (out @ kb) p1"
      using True assms(1) t by (subst pipe_read_loop.simps) (simp add: Let_def c_def)
    also have "\<dots> = (None, (out @ kb) @ fst (pipe_take (n - (copied + c)) p1), snd (pipe_take (n - (copied + c)) p1))"
      by (rule less) (use c True in auto)
    finally show ?thesis using pipe_take_add [of c "n - (copied + c)" p] t c(3) by (simp split: prod.splits)
  qed
qed

lemma pipe_read_queue:
  assumes p: "pipe_ok p" and f: "\<forall>a b. \<not> fault a b" and r: "pipe_read fault prep nb cur count idx p s = (x, out, p', s')"
  shows "pipe_ok p' \<and> pipe_data p = out @ pipe_data p'"
proof (cases "pb_in_use p \<and> pb_count p \<noteq> 0 \<and> prep")
  case True
  define n where "n = min count (pb_count p)"
  have l: "pipe_read_loop fault n 0 [] p = (None, fst (pipe_take n p), snd (pipe_take n p))" using pipe_read_loop_take [OF f] by simp
  have "pipe_read fault prep nb cur count idx p s = (IoReturn (int n), fst (pipe_take n p),
      (snd (pipe_take n p))\<lparr>pb_count := pb_count (snd (pipe_take n p)) - n\<rparr>, sched_wake_all (QExt (pipe_queue idx)) s)"
    using True by (cases "pipe_take n p") (simp add: pipe_read_def Let_def n_def [symmetric] l)
  then have "out = fst (pq.pops n p)" "p' = snd (pq.pops n p)" using r pipe_read_pops [OF p, of n] by simp_all
  then show ?thesis using pq.pops_law [OF p, of n] by (simp add: n_def)
next
  case False
  then show ?thesis using r p by (auto simp: pipe_read_def Let_def split: if_splits)
qed

section \<open>The stream\<close>

text \<open>How many bytes of its buffer a writer has put when a round ends.\<close>

fun io_put :: "(nat \<times> u8 list) io \<Rightarrow> nat" where
  "io_put (IoReturn n) = nat n"
| "io_put (IoSleep k) = fst k"

text \<open>
  A history of one pipe: any rounds of any writers and readers, with anything happening to the
  scheduler in between. \<open>sent\<close> collects what writers report as put, \<open>got\<close> what readers receive. A read whose copy to
  the user fails is not part of it: it loses the bytes it had taken.
\<close>

inductive pipe_stream :: "pipe_buf \<Rightarrow> ('r, 'w) sched \<Rightarrow> u8 list \<Rightarrow> u8 list \<Rightarrow> bool" where
  ps_start: "length (pb_buf p) = PIPE_BUF_SIZE \<Longrightarrow> pb_read_idx p = 0 \<Longrightarrow> pb_write_idx p = 0 \<Longrightarrow> pb_count p = 0 \<Longrightarrow> pipe_stream p s [] []"
| ps_other: "pipe_stream p s sent got \<Longrightarrow> pipe_stream (p\<lparr>pb_read_open := a, pb_write_open := b\<rparr>) s' sent got"
| ps_write: "pipe_stream p s sent got \<Longrightarrow> pipe_write fault prep nb cur user idx p s = (r, p', s') \<Longrightarrow>
    pipe_stream p' s' (sent @ take (io_put r) user) got"
| ps_resume: "pipe_stream p s sent got \<Longrightarrow> rest = take (length rest) (drop copied user) \<Longrightarrow> copied + length rest \<le> length user \<Longrightarrow>
    pipe_write_resume fault nb cur user idx (copied, rest) p s = (r, p', s') \<Longrightarrow>
    pipe_stream p' s' (sent @ drop copied (take (io_put r) user)) got"
| ps_read: "pipe_stream p s sent got \<Longrightarrow> \<forall>a b. \<not> fault a b \<Longrightarrow> pipe_read fault prep nb cur count idx p s = (x, out, p', s') \<Longrightarrow>
    pipe_stream p' s' sent (got @ out)"

lemma put_step_end:
  assumes st: "put_step faulty nb sg user copied p r" and e: "pipe_write_end idx r s = (x, p', s')"
  shows "pipe_ok p' \<and> pipe_data p' = pipe_data p @ drop copied (take (io_put x) user)"
proof -
  obtain k where k: "copied + k \<le> length user" "pipe_ok (snd r)" "pipe_data (snd r) = pipe_data p @ take k (drop copied user)"
     "case fst r of
        WNext c \<Rightarrow> c = copied + k \<and> c = length user
      | WBlock c rest \<Rightarrow> c = copied + k \<and> rest \<noteq> [] \<and> rest = take (length rest) (drop c user) \<and> pb_count (snd r) = PIPE_BUF_SIZE
      | WFail n \<Rightarrow> nat n = copied + k \<and> (faulty \<or> nb \<or> sg \<or> pb_read_open p = 0)"
    using st unfolding put_step_def by blast
  have p: "p' = snd r" using e by (auto simp: pipe_write_end_def split: write_step.splits prod.splits)
  have "io_put x = copied + k"
  proof (cases "fst r")
    case (WBlock c rest)
    then have "c = copied + k" using k(4) unfolding WBlock write_step.case by blast
    then show ?thesis using e WBlock by (cases r) (auto simp: pipe_write_end_def)
  qed (use k(4) e in \<open>cases r; auto simp: pipe_write_end_def\<close>)+
  then show ?thesis using k(2,3) p by (simp add: drop_take)
qed

lemma pipe_write_queue:
  assumes p: "pipe_ok p" and w: "pipe_write fault prep nb cur user idx p s = (r, p', s')"
  shows "pipe_ok p' \<and> pipe_data p' = pipe_data p @ take (io_put r) user"
proof (cases "pb_in_use p \<and> pb_read_open p \<noteq> 0 \<and> prep")
  case True
  then have "pipe_write_end idx (pipe_write_loop fault nb (sched_process_has_unblocked_signal s cur) user 0 p) s = (r, p', s')"
    using w by (simp add: pipe_write_def)
  from put_step_end [OF pipe_write_loop_step [OF p] this] show ?thesis by simp
next
  case False
  then show ?thesis using w p by (auto simp: pipe_write_def split: if_splits)
qed

lemma pipe_resume_queue:
  assumes p: "pipe_ok p" and rest: "rest = take (length rest) (drop copied user)" "copied + length rest \<le> length user"
    and w: "pipe_write_resume fault nb cur user idx (copied, rest) p s = (r, p', s')"
  shows "pipe_ok p' \<and> pipe_data p' = pipe_data p @ drop copied (take (io_put r) user)"
proof -
  define sg where "sg = sched_process_has_unblocked_signal s cur"
  obtain x p1 where put: "pipe_put nb sg p copied rest = (x, p1)" by fastforce
  define res where "res = (case (x, p1) of (WNext c, p1) \<Rightarrow> pipe_write_loop fault nb sg user c p1 | r \<Rightarrow> r)"
  have e: "pipe_write_end idx res s = (r, p', s')" using w unfolding pipe_write_resume_def prod.case sg_def [symmetric] put res_def .
  have "put_step (\<exists>a b. fault a b) nb sg user copied p res"
  proof (cases x)
    case (WNext c)
    from pipe_put_step [OF p put] WNext have s: "pipe_ok p1" "pipe_data p1 = pipe_data p @ take (length rest) rest"
        "pb_read_open p1 = pb_read_open p" "pb_write_open p1 = pb_write_open p" "pb_in_use p1 = pb_in_use p" "c = copied + length rest"
      by auto
    have d: "pipe_data p1 = pipe_data p @ take (length rest) (drop copied user)" using s(2) rest(1) by simp
    have "put_step (\<exists>a b. fault a b) nb sg user (copied + length rest) p1 res"
      using pipe_write_loop_step [OF s(1) rest(2)] by (simp add: res_def WNext s(6))
    from put_step_trans [OF d rest(2) s(3-5) this] show ?thesis .
  next
    case (WFail m)
    then show ?thesis using pipe_put_of [OF p rest(1) put] by (simp add: res_def)
  next
    case (WBlock c rs)
    then show ?thesis using pipe_put_of [OF p rest(1) put] by (simp add: res_def)
  qed
  from put_step_end [OF this e] show ?thesis .
qed

lemma pipe_stream_queue: "pipe_stream p s sent got \<Longrightarrow> pipe_ok p \<and> sent = got @ pipe_data p"
proof (induction rule: pipe_stream.induct)
  case (ps_start p s)
  then show ?case by (simp add: pipe_ok_def pipe_data_def pipe_size_pos)
next
  case (ps_other p s sent got a b s')
  then show ?case by (simp add: pipe_ok_def pipe_data_def)
next
  case (ps_write p s sent got fault prep nb cur user idx r p' s')
  then show ?case using pipe_write_queue [OF _ ps_write(2)] by simp
next
  case (ps_resume p s sent got rest copied user fault nb cur idx r p' s')
  then show ?case using pipe_resume_queue [OF _ ps_resume(2,3,4)] by simp
next
  case (ps_read p s sent got fault prep nb cur count idx x out p' s')
  then show ?case using pipe_read_queue [OF _ ps_read(2,3)] by simp
qed

lemma block_others:
  assumes run: "runs s c" and i: "i \<noteq> c"
  shows "p_state (proc_table (sched_block (Some q) s) ! i) = p_state (proc_table s ! i)"
    "p_wait_queue (proc_table (sched_block (Some q) s) ! i) = p_wait_queue (proc_table s ! i)"
    "p_state (proc_table (sched_block (Some q) s) ! c) = PROC_BLOCKED"
    "p_wait_queue (proc_table (sched_block (Some q) s) ! c) = Some q"
proof -
  obtain Q where sinv: "sinv s Q {}" and c: "g_current s = Some c" "p_state (proc_table s ! c) = PROC_RUNNING" "c < 8" by (rule runsE [OF run])
  have "waits s c = None" using inv_waits_ready [OF sinv c(3)] c(2) by simp
  then have w: "sched_clear_wait c s = upd_proc c (\<lambda>p. p\<lparr>p_wait_queue := None, p_wait_next := None, p_wait_deadline := 0, p_wait_deadline_set := False\<rparr>) s"
    by (simp add: sched_clear_wait_def waits_def)
  have len: "length (proc_table s) = 8" using inv_len [OF sinv] by simp
  show "p_state (proc_table (sched_block (Some q) s) ! i) = p_state (proc_table s ! i)"
    "p_wait_queue (proc_table (sched_block (Some q) s) ! i) = p_wait_queue (proc_table s ! i)"
    "p_state (proc_table (sched_block (Some q) s) ! c) = PROC_BLOCKED"
    "p_wait_queue (proc_table (sched_block (Some q) s) ! c) = Some q"
    using i c(3) len by (simp_all add: sched_block_def c w Let_def sched_wait_queue_enqueue_def proc_upd_proc split: option.splits)
qed

lemma long_write_sleeps:
  assumes p: "pipe_ok p" "pb_in_use p" "pb_count p = 0" "pb_read_open p \<noteq> 0" and u: "PIPE_BUF_SIZE < length user"
    and f: "\<forall>a b. \<not> fault a b" and sg: "\<not> sched_process_has_unblocked_signal s cur"
  shows "\<exists>rest p'. pipe_write fault True False cur user idx p s =
    (IoSleep (PIPE_BUF_SIZE, rest), p', sched_block (Some (QExt (pipe_queue idx))) s) \<and> pb_count p' = PIPE_BUF_SIZE \<and> pipe_ok p'"
proof -
  define r where "r = pipe_write_loop fault False (sched_process_has_unblocked_signal s cur) user 0 p"
  have "put_step (\<exists>a b. fault a b) False (sched_process_has_unblocked_signal s cur) user 0 p r"
    unfolding r_def by (rule pipe_write_loop_step [OF p(1)]) simp
  then obtain k where k: "k \<le> length user" "pipe_ok (snd r)" "pipe_data (snd r) = pipe_data p @ take k user"
     "case fst r of
        WNext c \<Rightarrow> c = k \<and> c = length user
      | WBlock c rest \<Rightarrow> c = k \<and> rest \<noteq> [] \<and> rest = take (length rest) (drop c user) \<and> pb_count (snd r) = PIPE_BUF_SIZE
      | WFail n \<Rightarrow> nat n = k \<and> ((\<exists>a b. fault a b) \<or> False \<or> sched_process_has_unblocked_signal s cur \<or> pb_read_open p = 0)"
    unfolding put_step_def add_0 drop_0 by blast
  have cnt: "pb_count (snd r) = k" using arg_cong [OF k(3), of length] p(3) k(1) by simp
  have le: "k \<le> PIPE_BUF_SIZE" using k(2) cnt by (simp add: pipe_ok_def)
  show ?thesis
  proof (cases "fst r")
    case (WBlock c rest)
    then have "c = k" "pb_count (snd r) = PIPE_BUF_SIZE" using k(4) unfolding WBlock write_step.case by blast+
    then show ?thesis using WBlock k(2) cnt p by (cases r) (auto simp: pipe_write_def pipe_write_end_def r_def [symmetric])
  next
    case (WNext c)
    then show ?thesis using k(4) le u by simp
  next
    case (WFail n)
    then show ?thesis using k(4) f sg p(4) by auto
  qed
qed

section \<open>Properties\<close>

text \<open>
  C37: a pipe is a queue of bytes. After any rounds of any readers and writers, interrupted and resumed
  as the scheduler likes, what readers received followed by what the ring still holds is exactly what
  writers put, in order, and the ring holds at most its size.\<close>

theorem pipe_refines_queue:
  assumes "pipe_stream p s sent got"
  shows "sent = got @ pipe_data p \<and> length (pipe_data p) \<le> PIPE_BUF_SIZE"
  using pipe_stream_queue [OF assms] pq.bound by blast

definition fresh_pipe :: pipe_buf where
  "fresh_pipe = \<lparr>pb_buf = replicate PIPE_BUF_SIZE 0, pb_read_idx = 0, pb_write_idx = 0, pb_count = 0, pb_read_open = 1,
     pb_write_open = 1, pb_in_use = True\<rparr>"

lemma fresh_stream: "pipe_stream fresh_pipe s [] []"
  by (rule ps_start) (simp_all add: fresh_pipe_def)

theorem pipe_refines_queue_witness:
  "\<exists>r p s. pipe_write (\<lambda>_ _. False) True False 0 [1, 2, 3] 0 fresh_pipe two_tasks = (r, p, s) \<and> take (io_put r) [1, 2, 3] = pipe_data p"
proof -
  obtain r p s where w: "pipe_write (\<lambda>_ _. False) True False 0 [1, 2, 3] 0 fresh_pipe two_tasks = (r, p, s)" by (cases "pipe_write (\<lambda>_ _. False) True False 0 [1, 2, 3] 0 fresh_pipe two_tasks") auto
  from pipe_refines_queue [OF ps_write [OF fresh_stream w]] w show ?thesis by auto
qed

text \<open>
  C38: a reader that sleeps on an empty pipe and a writer of more than a buffer's worth wait for each
  other. The writer fills the ring, finds it full and sleeps on the queue the reader sleeps on without having
  woken it, so that both are blocked on the pipe that has 4096 bytes for the reader.\<close>

theorem pipe_long_write_deadlocks:
  assumes "reachable M s" "running s c" "i < 8" "p_state (proc_table s ! i) = PROC_BLOCKED"
    and "p_wait_queue (proc_table s ! i) = Some (QExt (pipe_queue idx))"
    and "pipe_ok p" "pb_in_use p" "pb_count p = 0" "pb_read_open p \<noteq> 0" "PIPE_BUF_SIZE < length user"
    and "\<forall>a b. \<not> fault a b" "\<not> sched_process_has_unblocked_signal s c"
  shows "\<exists>rest p' s'. pipe_write fault True False c user idx p s = (IoSleep (PIPE_BUF_SIZE, rest), p', s') \<and> pb_count p' = PIPE_BUF_SIZE \<and>
    p_state (proc_table s' ! i) = PROC_BLOCKED \<and> p_wait_queue (proc_table s' ! i) = Some (QExt (pipe_queue idx)) \<and>
    p_state (proc_table s' ! c) = PROC_BLOCKED \<and> p_wait_queue (proc_table s' ! c) = Some (QExt (pipe_queue idx))"
proof -
  have run: "runs s c" by (rule ok_runs [OF reachable_ok [OF assms(1)] assms(2)])
  then have ic: "i \<noteq> c" using assms(4) by (auto simp: runs_def)
  from long_write_sleeps [OF assms(6-12), of idx] block_others [OF run ic, of "QExt (pipe_queue idx)"] assms(4,5) show ?thesis by auto
qed

text \<open>The first task sleeps on the empty pipe 0, the second runs.\<close>

definition reader_asleep :: "(unit, unit) sched" where
  "reader_asleep = snd (the (schedule quiet_machine (map irq_run []) (sched_block (Some (QExt (pipe_queue 0))) two_tasks)))"

lemma reader_asleep_info:
  "info (proc_table reader_asleep ! 0) = (PROC_BLOCKED, Some (QExt 4), False, Some 0, (1, 1, 1), 0)"
  "info (proc_table reader_asleep ! 1) = (PROC_RUNNING, None, False, Some 1, (2, 2, 2), 1)" "g_current reader_asleep = Some 1"
  "sched_process_has_unblocked_signal reader_asleep 1 = False"
  by code_simp+

lemma reader_asleep_reach: "reachable quiet_machine reader_asleep"
proof -
  have "map_option fst (schedule quiet_machine (map irq_run []) (sched_block (Some (QExt (pipe_queue 0))) two_tasks)) = Some (SwitchTo 1)" by code_simp
  then obtain r s' where s: "schedule quiet_machine (map irq_run []) (sched_block (Some (QExt (pipe_queue 0))) two_tasks) = Some (r, s')" by auto
  have "running two_tasks 0" using two_tasks_facts by (simp add: running_def)
  from reach_step [OF two_tasks_reach k_block [OF this s]] show ?thesis by (simp add: reader_asleep_def s [simplified])
qed

theorem pipe_long_write_deadlocks_witness:
  "\<exists>rest p' s'. pipe_write (\<lambda>_ _. False) True False 1 (replicate 5000 0) 0 fresh_pipe reader_asleep =
     (IoSleep (PIPE_BUF_SIZE, rest), p', s') \<and> p_state (proc_table s' ! 0) = PROC_BLOCKED \<and> p_state (proc_table s' ! 1) = PROC_BLOCKED"
proof -
  note facts = reader_asleep_info [unfolded info_def, simplified]
  have r: "running reader_asleep 1" using facts by (simp add: running_def)
  have p: "pipe_ok fresh_pipe" "pb_in_use fresh_pipe" "pb_count fresh_pipe = 0" "pb_read_open fresh_pipe \<noteq> 0"
    by (simp_all add: pipe_ok_def fresh_pipe_def pipe_size_pos)
  have u: "PIPE_BUF_SIZE < length (replicate 5000 (0 :: u8))" by (simp add: PIPE_BUF_SIZE_def)
  have q: "p_wait_queue (proc_table reader_asleep ! 0) = Some (QExt (pipe_queue 0))" using facts by (simp add: pipe_queue_def)
  from pipe_long_write_deadlocks [OF reader_asleep_reach r _ _ q p u, of "\<lambda>_ _. False"] facts show ?thesis by auto
qed

end
