(* ===== verification/Pty.thy ===== *)
theory Pty
  imports Pipe
begin

text \<open>
  Pseudo-terminals of kernel/proc/pty.c: a pool of pairs of byte rings. The waiters of a ring are the
  queue \<open>QExt (pty_queue i to_master)\<close>. A round of a blocking call ends with \<open>IoSleep\<close> and the number of bytes
  already copied.
\<close>

definition PTY_RING_BYTES :: nat where "PTY_RING_BYTES = 1024"
definition PTY_MAX :: nat where "PTY_MAX = 4"

record pty_ring =
  pr_buf :: "u8 list"
  pr_head :: nat
  pr_tail :: nat
  pr_count :: nat
  pr_closed :: bool

record pty =
  pt_in_use :: bool
  pt_master_open :: u32
  pt_slave_open :: u32
  pt_to_slave :: pty_ring
  pt_to_master :: pty_ring

section \<open>Rings\<close>

definition pty_ring_reset :: "nat \<Rightarrow> pty_ring \<Rightarrow> ('r, 'w) sched \<Rightarrow> pty_ring \<times> ('r, 'w) sched" where
  "pty_ring_reset q r s = (r\<lparr>pr_head := 0, pr_tail := 0, pr_count := 0, pr_closed := False\<rparr>, sched_wait_queue_init (QExt q) s)"

definition pty_push :: "u8 \<Rightarrow> pty_ring \<Rightarrow> pty_ring" where
  "pty_push b r = r\<lparr>pr_buf := (pr_buf r)[pr_head r := b], pr_head := (pr_head r + 1) mod PTY_RING_BYTES, pr_count := pr_count r + 1\<rparr>"

definition pty_pop :: "pty_ring \<Rightarrow> u8 \<times> pty_ring" where
  "pty_pop r = (pr_buf r ! pr_tail r, r\<lparr>pr_tail := (pr_tail r + 1) mod PTY_RING_BYTES, pr_count := pr_count r - 1\<rparr>)"

text \<open>The inner loop of the writer: put bytes while there is room.\<close>

fun pty_fill :: "u8 list \<Rightarrow> pty_ring \<Rightarrow> u8 list \<times> pty_ring" where
  "pty_fill [] r = ([], r)"
| "pty_fill (b # bs) r = (if pr_count r < PTY_RING_BYTES then pty_fill bs (pty_push b r) else (b # bs, r))"

lemma pty_fill_length: "pty_fill bs r = (bs', r') \<Longrightarrow> length bs' \<le> length bs"
  by (induction bs r rule: pty_fill.induct) (auto split: if_splits)

lemma pty_fill_less: "pr_count r < PTY_RING_BYTES \<Longrightarrow> bs \<noteq> [] \<Longrightarrow> pty_fill bs r = (bs', r') \<Longrightarrow> length bs' < length bs"
  by (cases bs) (auto dest!: pty_fill_length)

text \<open>
  One round from the bytes still to write; the flag says whether the waiters were woken. The code
  compares the count with the size of the ring for equality; it is never above it (\<open>ring_ok\<close>).
\<close>

function pty_write_loop :: "u8 list \<Rightarrow> pty_ring \<Rightarrow> bool \<Rightarrow> (u8 list \<times> bool) \<times> pty_ring \<times> bool" where
  "pty_write_loop bs r woke =
     (if bs = [] then (([], True), r, woke)
      else if pr_count r \<ge> PTY_RING_BYTES then ((bs, pr_closed r), r, woke)
      else case pty_fill bs r of (bs1, r1) \<Rightarrow> pty_write_loop bs1 r1 True)"
  by pat_completeness auto

termination
  by (relation "measure (\<lambda>(bs, _, _). length bs)") (auto dest!: sym [of "(_, _)"] simp: not_le intro: pty_fill_less)

declare pty_write_loop.simps [simp del]

definition wake_if :: "bool \<Rightarrow> nat \<Rightarrow> ('r, 'w) sched \<Rightarrow> ('r, 'w) sched" where
  "wake_if woke q s = (if woke then sched_wake_all (QExt q) s else s)"

definition pty_ring_write :: "nat \<Rightarrow> u8 list \<Rightarrow> nat \<Rightarrow> pty_ring \<Rightarrow> ('r, 'w) sched \<Rightarrow> nat io \<times> pty_ring \<times> ('r, 'w) sched" where
  "pty_ring_write q buf copied r s =
     (if buf = [] then (IoReturn 0, r, s)
      else case pty_write_loop (drop copied buf) r False of
        ((bs, done), r1, woke) \<Rightarrow>
          (let s1 = wake_if woke q s; n = length buf - length bs in
           if done then (IoReturn (int n), r1, s1) else (IoSleep n, r1, sched_block (Some (QExt q)) s1)))"

fun pty_drain :: "nat \<Rightarrow> pty_ring \<Rightarrow> u8 list \<times> pty_ring" where
  "pty_drain 0 r = ([], r)"
| "pty_drain (Suc n) r =
     (if pr_count r > 0 then case pty_pop r of (b, r1) \<Rightarrow> case pty_drain n r1 of (bs, r2) \<Rightarrow> (b # bs, r2) else ([], r))"

definition pty_ring_read :: "nat \<Rightarrow> nat \<Rightarrow> pty_ring \<Rightarrow> ('r, 'w) sched \<Rightarrow> unit io \<times> u8 list \<times> pty_ring \<times> ('r, 'w) sched" where
  "pty_ring_read q count r s =
     (if count = 0 then (IoReturn 0, [], r, s)
      else if pr_count r = 0 then
        (if pr_closed r then (IoReturn 0, [], r, s) else (IoSleep (), [], r, sched_block (Some (QExt q)) s))
      else case pty_drain count r of (bs, r1) \<Rightarrow> (IoReturn (int (length bs)), bs, r1, sched_wake_all (QExt q) s))"

definition pty_ring_available :: "pty_ring \<Rightarrow> nat" where
  "pty_ring_available r = pr_count r"

definition pty_ring_closed :: "pty_ring \<Rightarrow> bool" where
  "pty_ring_closed r = pr_closed r"

section \<open>The pool\<close>

definition pty_alloc_master :: "pty list \<Rightarrow> ('r, 'w) sched \<Rightarrow> nat option \<times> pty list \<times> ('r, 'w) sched" where
  "pty_alloc_master ps s =
     (case find (\<lambda>i. \<not> pt_in_use (ps ! i)) [0..<PTY_MAX] of
        None \<Rightarrow> (None, ps, s)
      | Some i \<Rightarrow>
          (case pty_ring_reset (pty_queue i False) (pt_to_slave (ps ! i)) s of (r1, s1) \<Rightarrow>
           case pty_ring_reset (pty_queue i True) (pt_to_master (ps ! i)) s1 of (r2, s2) \<Rightarrow>
             (Some i, ps[i := \<lparr>pt_in_use = True, pt_master_open = 1, pt_slave_open = 0, pt_to_slave = r1, pt_to_master = r2\<rparr>], s2)))"

definition pty_open_slave :: "u32 \<Rightarrow> pty list \<Rightarrow> bool \<times> pty list" where
  "pty_open_slave pty_idx ps =
     (let i = unat pty_idx in
      if i \<ge> PTY_MAX then (False, ps)
      else if \<not> pt_in_use (ps ! i) \<or> pt_master_open (ps ! i) = 0 \<or> pt_slave_open (ps ! i) \<noteq> 0 then (False, ps)
      else (True, ps[i := (ps ! i)\<lparr>pt_slave_open := 1\<rparr>]))"

definition pty_get_master :: "u32 \<Rightarrow> pty list \<Rightarrow> pty list" where
  "pty_get_master pty_idx ps =
     (let i = unat pty_idx in
      if i \<ge> PTY_MAX then ps
      else if pt_in_use (ps ! i) \<and> pt_master_open (ps ! i) > 0
        then ps[i := (ps ! i)\<lparr>pt_master_open := pt_master_open (ps ! i) + 1\<rparr>] else ps)"

definition pty_get_slave :: "u32 \<Rightarrow> pty list \<Rightarrow> pty list" where
  "pty_get_slave pty_idx ps =
     (let i = unat pty_idx in
      if i \<ge> PTY_MAX then ps
      else if pt_in_use (ps ! i) \<and> pt_slave_open (ps ! i) > 0
        then ps[i := (ps ! i)\<lparr>pt_slave_open := pt_slave_open (ps ! i) + 1\<rparr>] else ps)"

definition pty_hang_up :: "nat \<Rightarrow> pty \<Rightarrow> ('r, 'w) sched \<Rightarrow> pty \<times> ('r, 'w) sched" where
  "pty_hang_up i p s =
     (p\<lparr>pt_to_slave := (pt_to_slave p)\<lparr>pr_closed := True\<rparr>, pt_to_master := (pt_to_master p)\<lparr>pr_closed := True\<rparr>\<rparr>,
      sched_wake_all (QExt (pty_queue i True)) (sched_wake_all (QExt (pty_queue i False)) s))"

definition pty_release_master :: "u32 \<Rightarrow> pty list \<Rightarrow> ('r, 'w) sched \<Rightarrow> pty list \<times> ('r, 'w) sched" where
  "pty_release_master pty_idx ps s =
     (let i = unat pty_idx in
      if i \<ge> PTY_MAX then (ps, s)
      else if \<not> pt_in_use (ps ! i) then (ps, s)
      else
        let p = ps ! i;
            p1 = (if pt_master_open p > 0 then p\<lparr>pt_master_open := pt_master_open p - 1\<rparr> else p);
            (p2, s1) = (if pt_master_open p1 = 0 then pty_hang_up i p1 s else (p1, s));
            p3 = (if pt_slave_open p2 = 0 then p2\<lparr>pt_in_use := False\<rparr> else p2)
        in (ps[i := p3], s1))"

definition pty_release_slave :: "u32 \<Rightarrow> pty list \<Rightarrow> ('r, 'w) sched \<Rightarrow> pty list \<times> ('r, 'w) sched" where
  "pty_release_slave pty_idx ps s =
     (let i = unat pty_idx in
      if i \<ge> PTY_MAX then (ps, s)
      else if \<not> pt_in_use (ps ! i) then (ps, s)
      else
        let p = ps ! i;
            p1 = (if pt_slave_open p > 0 then p\<lparr>pt_slave_open := pt_slave_open p - 1\<rparr> else p);
            (p2, s1) = (if pt_slave_open p1 = 0 then pty_hang_up i p1 s else (p1, s));
            p3 = (if pt_master_open p2 = 0 then p2\<lparr>pt_in_use := False\<rparr> else p2)
        in (ps[i := p3], s1))"

section \<open>The ends\<close>

definition pty_bad :: "u32 \<Rightarrow> pty list \<Rightarrow> bool" where
  "pty_bad pty_idx ps \<longleftrightarrow> unat pty_idx \<ge> PTY_MAX \<or> \<not> pt_in_use (ps ! unat pty_idx)"

definition pty_master_read :: "u32 \<Rightarrow> nat \<Rightarrow> pty list \<Rightarrow> ('r, 'w) sched \<Rightarrow> unit io \<times> u8 list \<times> pty list \<times> ('r, 'w) sched" where
  "pty_master_read pty_idx count ps s =
     (let i = unat pty_idx in
      if pty_bad pty_idx ps then (IoReturn (-1), [], ps, s)
      else case pty_ring_read (pty_queue i True) count (pt_to_master (ps ! i)) s of
        (x, bs, r, s1) \<Rightarrow> (x, bs, ps[i := (ps ! i)\<lparr>pt_to_master := r\<rparr>], s1))"

definition pty_master_write :: "u32 \<Rightarrow> u8 list \<Rightarrow> nat \<Rightarrow> pty list \<Rightarrow> ('r, 'w) sched \<Rightarrow> nat io \<times> pty list \<times> ('r, 'w) sched" where
  "pty_master_write pty_idx buf copied ps s =
     (let i = unat pty_idx in
      if pty_bad pty_idx ps then (IoReturn (-1), ps, s)
      else case pty_ring_write (pty_queue i False) buf copied (pt_to_slave (ps ! i)) s of
        (x, r, s1) \<Rightarrow> (x, ps[i := (ps ! i)\<lparr>pt_to_slave := r\<rparr>], s1))"

definition pty_slave_read :: "u32 \<Rightarrow> nat \<Rightarrow> pty list \<Rightarrow> ('r, 'w) sched \<Rightarrow> unit io \<times> u8 list \<times> pty list \<times> ('r, 'w) sched" where
  "pty_slave_read pty_idx count ps s =
     (let i = unat pty_idx in
      if pty_bad pty_idx ps then (IoReturn (-1), [], ps, s)
      else case pty_ring_read (pty_queue i False) count (pt_to_slave (ps ! i)) s of
        (x, bs, r, s1) \<Rightarrow> (x, bs, ps[i := (ps ! i)\<lparr>pt_to_slave := r\<rparr>], s1))"

definition pty_slave_write :: "u32 \<Rightarrow> u8 list \<Rightarrow> nat \<Rightarrow> pty list \<Rightarrow> ('r, 'w) sched \<Rightarrow> nat io \<times> pty list \<times> ('r, 'w) sched" where
  "pty_slave_write pty_idx buf copied ps s =
     (let i = unat pty_idx in
      if pty_bad pty_idx ps then (IoReturn (-1), ps, s)
      else case pty_ring_write (pty_queue i True) buf copied (pt_to_master (ps ! i)) s of
        (x, r, s1) \<Rightarrow> (x, ps[i := (ps ! i)\<lparr>pt_to_master := r\<rparr>], s1))"

definition pty_master_read_available :: "u32 \<Rightarrow> pty list \<Rightarrow> nat" where
  "pty_master_read_available pty_idx ps = (if pty_bad pty_idx ps then 0 else pty_ring_available (pt_to_master (ps ! unat pty_idx)))"

definition pty_slave_read_available :: "u32 \<Rightarrow> pty list \<Rightarrow> nat" where
  "pty_slave_read_available pty_idx ps = (if pty_bad pty_idx ps then 0 else pty_ring_available (pt_to_slave (ps ! unat pty_idx)))"

definition pty_master_read_closed :: "u32 \<Rightarrow> pty list \<Rightarrow> bool" where
  "pty_master_read_closed pty_idx ps = (if pty_bad pty_idx ps then False else pty_ring_closed (pt_to_master (ps ! unat pty_idx)))"

definition pty_slave_read_closed :: "u32 \<Rightarrow> pty list \<Rightarrow> bool" where
  "pty_slave_read_closed pty_idx ps = (if pty_bad pty_idx ps then False else pty_ring_closed (pt_to_slave (ps ! unat pty_idx)))"

section \<open>A ring is a queue\<close>

definition ring_ok :: "pty_ring \<Rightarrow> bool" where
  "ring_ok r \<longleftrightarrow> length (pr_buf r) = PTY_RING_BYTES \<and> pr_tail r < PTY_RING_BYTES \<and> pr_count r \<le> PTY_RING_BYTES \<and>
     pr_head r = (pr_tail r + pr_count r) mod PTY_RING_BYTES"

definition ring_data :: "pty_ring \<Rightarrow> u8 list" where
  "ring_data r = window (pr_buf r) (pr_tail r) (pr_count r)"

lemma ring_data_length [simp]: "length (ring_data r) = pr_count r"
  by (simp add: ring_data_def)

lemma pty_pop_law:
  assumes "ring_ok r" "ring_data r \<noteq> []"
  shows "ring_ok (snd (pty_pop r)) \<and> ring_data r = fst (pty_pop r) # ring_data (snd (pty_pop r))"
proof -
  obtain n where n: "pr_count r = Suc n" using assms(2) by (cases "pr_count r") (auto simp: ring_data_def)
  have "(Suc (pr_tail r) mod PTY_RING_BYTES + n) mod PTY_RING_BYTES = (pr_tail r + Suc n) mod PTY_RING_BYTES"
    by (simp add: mod_add_left_eq)
  then show ?thesis using assms(1) n window_pop [of "pr_tail r" "pr_buf r" n]
    by (auto simp: ring_ok_def pty_pop_def ring_data_def PTY_RING_BYTES_def)
qed

lemma pty_push_law:
  assumes "ring_ok r" "pr_count r < PTY_RING_BYTES"
  shows "ring_ok (pty_push b r) \<and> ring_data (pty_push b r) = ring_data r @ [b]"
  using assms window_push [of "pr_count r" "pr_buf r" "pr_tail r" b] by (simp add: ring_ok_def pty_push_def ring_data_def mod_Suc_eq)

interpretation rq: byte_queue ring_ok ring_data PTY_RING_BYTES pty_push pty_pop
  by unfold_locales (simp add: ring_ok_def, simp add: pty_push_law, rule pty_pop_law)

lemma pty_fill_queue:
  "ring_ok r \<Longrightarrow> pty_fill bs r = (bs', r') \<Longrightarrow> \<exists>k \<le> length bs. bs' = drop k bs \<and> ring_ok r' \<and> ring_data r' = ring_data r @ take k bs \<and>
     pr_closed r' = pr_closed r \<and> (bs' = [] \<or> pr_count r' = PTY_RING_BYTES)"
proof (induction bs arbitrary: r)
  case (Cons b bs)
  show ?case
  proof (cases "pr_count r < PTY_RING_BYTES")
    case True
    have cl: "pr_closed (pty_push b r) = pr_closed r" by (simp add: pty_push_def)
    obtain k where "k \<le> length bs" "bs' = drop k bs" "ring_ok r'" "ring_data r' = ring_data (pty_push b r) @ take k bs"
        "pr_closed r' = pr_closed r" "bs' = [] \<or> pr_count r' = PTY_RING_BYTES"
      using Cons.IH [of "pty_push b r"] Cons.prems True pty_push_law [OF Cons.prems(1) True] cl by auto
    then show ?thesis using pty_push_law [OF Cons.prems(1) True] by (intro exI [of _ "Suc k"]) auto
  next
    case False
    then show ?thesis using Cons.prems by (intro exI [of _ 0]) (auto simp: ring_ok_def)
  qed
qed simp

lemma pty_drain_pops:
  "ring_ok r \<Longrightarrow> pty_drain n r = rq.pops (min n (pr_count r)) r"
proof (induction n arbitrary: r)
  case (Suc n)
  show ?case
  proof (cases "pr_count r")
    case (Suc m)
    obtain b r1 where p: "pty_pop r = (b, r1)" by fastforce
    have "ring_data r \<noteq> []" using Suc by (simp add: ring_data_def)
    then have "ring_ok r1" using pty_pop_law [OF Suc.prems] p by simp
    moreover have "pr_count r1 = m" using p Suc by (auto simp: pty_pop_def)
    ultimately show ?thesis using Suc.IH [of r1] Suc p by (simp add: rq.pops.simps)
  qed (simp add: rq.pops.simps)
qed (simp add: rq.pops.simps)

text \<open>A read takes the first bytes off the queue, and a round of a write appends what it reports.\<close>

lemma pty_read_queue:
  assumes "ring_ok r" "pty_ring_read q count r s = (x, bs, r', s')"
  shows "ring_ok r' \<and> ring_data r = bs @ ring_data r'"
proof (cases "count = 0 \<or> pr_count r = 0")
  case False
  define n where "n = min count (pr_count r)"
  have "bs = fst (rq.pops n r)" "r' = snd (rq.pops n r)"
    using assms False pty_drain_pops [OF assms(1), of count] by (auto simp: pty_ring_read_def n_def split: prod.splits)
  then show ?thesis using rq.pops_law [OF assms(1), of n] by (simp add: n_def)
next
  case True
  then show ?thesis using assms by (auto simp: pty_ring_read_def split: if_splits)
qed

lemma pty_write_loop_queue:
  "ring_ok r \<Longrightarrow> pty_write_loop bs r w = ((bs', done), r', w') \<Longrightarrow>
   \<exists>k \<le> length bs. bs' = drop k bs \<and> ring_ok r' \<and> ring_data r' = ring_data r @ take k bs \<and> (\<not> done \<longrightarrow> pr_count r' = PTY_RING_BYTES)"
proof (induction bs r w rule: pty_write_loop.induct)
  case (1 bs r w)
  show ?case
  proof (cases "bs = [] \<or> pr_count r \<ge> PTY_RING_BYTES")
    case True
    then show ?thesis using "1.prems" by (subst (asm) pty_write_loop.simps) (auto simp: ring_ok_def intro!: exI [of _ 0] split: if_splits)
  next
    case False
    obtain bs1 r1 where f: "pty_fill bs r = (bs1, r1)" by fastforce
    obtain k where k: "k \<le> length bs" "bs1 = drop k bs" "ring_ok r1" "ring_data r1 = ring_data r @ take k bs"
      using pty_fill_queue [OF "1.prems"(1) f] by blast
    have "pty_write_loop bs1 r1 True = ((bs', done), r', w')" using "1.prems"(2) False f by (subst (asm) pty_write_loop.simps) simp
    then obtain j where j: "j \<le> length bs1" "bs' = drop j bs1" "ring_ok r'" "ring_data r' = ring_data r1 @ take j bs1"
        "\<not> done \<longrightarrow> pr_count r' = PTY_RING_BYTES"
      using "1.IH" [OF _ _ f [symmetric] k(3)] False by auto
    have "take k bs @ take j (drop k bs) = take (k + j) bs" by (simp add: take_add)
    then show ?thesis using k j by (intro exI [of _ "k + j"]) (auto simp: add.commute)
  qed
qed

lemma pty_write_queue:
  assumes "ring_ok r" "copied \<le> length buf" "pty_ring_write q buf copied r s = (x, r', s')"
  shows "ring_ok r' \<and> ring_data r' = ring_data r @ drop copied (take (case x of IoReturn n \<Rightarrow> nat n | IoSleep n \<Rightarrow> n) buf)"
proof (cases "buf = []")
  case True
  then show ?thesis using assms by (simp add: pty_ring_write_def)
next
  case False
  obtain bs fin r1 w where l: "pty_write_loop (drop copied buf) r False = ((bs, fin), r1, w)" by (metis prod.exhaust)
  obtain k where k: "k \<le> length buf - copied" "bs = drop k (drop copied buf)" "ring_ok r1" "ring_data r1 = ring_data r @ take k (drop copied buf)"
    using pty_write_loop_queue [OF assms(1) l] by auto
  have n: "length buf - length bs = copied + k" using k(1,2) assms(2) by simp
  have "r' = r1" "(case x of IoReturn n \<Rightarrow> nat n | IoSleep n \<Rightarrow> n) = copied + k"
    using assms(3) False l n by (auto simp: pty_ring_write_def Let_def split: if_splits)
  then show ?thesis using k(3,4) by (simp add: drop_take)
qed

text \<open>
  A master that was duplicated loses its pair at the first close if no slave was ever opened: the
  slot is free while a descriptor still refers to it.
\<close>

lemma pty_dup_master_freed:
  assumes "unat i < PTY_MAX" "length ps = PTY_MAX" "pt_in_use (ps ! unat i)" "pt_slave_open (ps ! unat i) = 0" "pt_master_open (ps ! unat i) = 2"
  shows "\<exists>ps' s'. pty_release_master i ps s = (ps', s') \<and> \<not> pt_in_use (ps' ! unat i) \<and> pt_master_open (ps' ! unat i) = 1"
  using assms by (simp add: pty_release_master_def Let_def)

end
