(* ===== verification/Tty.thy ===== *)
theory Tty
  imports Pty
begin

text \<open>
  The terminals of kernel/drivers/tty.c: canonical and raw input, echo, the interrupt and suspend keys,
  and the blocking read. The table of terminals is threaded next to the scheduler's state; the readers of terminal
  \<open>i\<close> sleep on \<open>QExt (tty_queue i)\<close>. The console text goes through kernel/console/runtime.c to a function of the
  machine, a parameter, and polling for input is a parameter of the read.
\<close>

section \<open>State\<close>

definition ICRNL :: u32 where "ICRNL = 1"
definition OPOST :: u32 where "OPOST = 1"
definition ONLCR :: u32 where "ONLCR = 2"
definition CREAD :: u32 where "CREAD = 1"
definition CS8 :: u32 where "CS8 = 2"
definition ICANON :: u32 where "ICANON = 1"
definition ECHO :: u32 where "ECHO = 2"
definition ECHOE :: u32 where "ECHOE = 4"
definition ISIG :: u32 where "ISIG = 8"
definition NCCS :: nat where "NCCS = 19"
definition VINTR :: nat where "VINTR = 0"
definition VERASE :: nat where "VERASE = 2"
definition VEOF :: nat where "VEOF = 4"
definition VTIME :: nat where "VTIME = 5"
definition VMIN :: nat where "VMIN = 6"
definition VSTART :: nat where "VSTART = 8"
definition VSTOP :: nat where "VSTOP = 9"
definition VSUSP :: nat where "VSUSP = 10"
definition TTY_RAW_BUF_SIZE :: nat where "TTY_RAW_BUF_SIZE = 256"
definition TTY_CANON_BUF_SIZE :: nat where "TTY_CANON_BUF_SIZE = 256"
definition MAX_TTYS :: nat where "MAX_TTYS = 4"
definition SIGINT :: nat where "SIGINT = 2"

record termios =
  c_iflag :: u32
  c_oflag :: u32
  c_cflag :: u32
  c_lflag :: u32
  c_cc :: "u8 list"

record tty =
  tt_raw_buf :: "u8 list"
  tt_raw_head :: nat
  tt_raw_tail :: nat
  tt_canon_buf :: "u8 list"
  tt_canon_len :: nat
  tt_canon_ready :: bool
  tt_termios :: termios
  tt_ctrl_sid :: u32
  tt_fg_pgid :: u32
  tt_interrupted :: bool
  tt_in_use :: bool

type_synonym ('r, 'w) tty_sys = "tty list \<times> ('r, 'w) sched"

definition tty_termios_set_defaults :: "termios \<Rightarrow> termios" where
  "tty_termios_set_defaults t =
     \<lparr>c_iflag = ICRNL, c_oflag = OPOST OR ONLCR, c_cflag = CREAD OR CS8, c_lflag = ICANON OR ECHO OR ECHOE OR ISIG,
      c_cc = (replicate NCCS 0)[VINTR := 0x03, VEOF := 0x04, VERASE := 0x7f, VMIN := 1, VTIME := 0, VSUSP := 0x1a,
        VSTART := 0x11, VSTOP := 0x13]\<rparr>"

definition tty_init_one :: "tty \<Rightarrow> tty" where
  "tty_init_one t = t\<lparr>tt_raw_head := 0, tt_raw_tail := 0, tt_canon_len := 0, tt_canon_ready := False,
     tt_termios := tty_termios_set_defaults (tt_termios t), tt_ctrl_sid := 0, tt_fg_pgid := 0, tt_interrupted := False,
     tt_in_use := True\<rparr>"

definition tty_init :: "('r, 'w) tty_sys \<Rightarrow> ('r, 'w) tty_sys" where
  "tty_init y = fold (\<lambda>i (ts, s). (ts[i := tty_init_one (ts ! i)], set_queue (QExt (tty_queue i)) None None s)) [0..<MAX_TTYS] y"

definition tty_get :: "int \<Rightarrow> tty list \<Rightarrow> nat option" where
  "tty_get tty_idx ts =
     (if tty_idx < 0 \<or> tty_idx \<ge> int MAX_TTYS then None
      else if \<not> tt_in_use (ts ! nat tty_idx) then None else Some (nat tty_idx))"

definition tty_wake_readers :: "int \<Rightarrow> ('r, 'w) tty_sys \<Rightarrow> ('r, 'w) tty_sys" where
  "tty_wake_readers tty_idx y =
     (case tty_get tty_idx (fst y) of None \<Rightarrow> y | Some i \<Rightarrow> (fst y, sched_wake_all (QExt (tty_queue i)) (snd y)))"

definition tty_read_available :: "int \<Rightarrow> tty list \<Rightarrow> nat" where
  "tty_read_available tty_idx ts =
     (case tty_get tty_idx ts of
        None \<Rightarrow> 0
      | Some i \<Rightarrow>
          let t = ts ! i in
          if c_lflag (tt_termios t) AND ICANON \<noteq> 0 then (if tt_canon_ready t then tt_canon_len t else 0)
          else if tt_raw_head t \<ge> tt_raw_tail t then tt_raw_head t - tt_raw_tail t
          else TTY_RAW_BUF_SIZE - tt_raw_tail t + tt_raw_head t)"

section \<open>Input\<close>

definition tty_feedback :: "(u8 list \<Rightarrow> 'w \<Rightarrow> 'w) \<Rightarrow> u8 list \<Rightarrow> ('r, 'w) tty_sys \<Rightarrow> ('r, 'w) tty_sys" where
  "tty_feedback con buf y = (fst y, snd (console_runtime_write_feedback con buf (snd y)))"

definition upd_tty :: "nat \<Rightarrow> (tty \<Rightarrow> tty) \<Rightarrow> ('r, 'w) tty_sys \<Rightarrow> ('r, 'w) tty_sys" where
  "upd_tty i f y = ((fst y)[i := f (fst y ! i)], snd y)"

definition tty_ctrl_z :: "(u8 list \<Rightarrow> 'w \<Rightarrow> 'w) \<Rightarrow> int \<Rightarrow> ('r, 'w) tty_sys \<Rightarrow> ('r, 'w) tty_sys" where
  "tty_ctrl_z con tty_idx y =
     (case tty_get tty_idx (fst y) of
        None \<Rightarrow> y
      | Some i \<Rightarrow>
          if tt_fg_pgid (fst y ! i) \<noteq> 0 then
            let y1 = upd_tty i (\<lambda>t. t\<lparr>tt_interrupted := True\<rparr>) (tty_feedback con [0x5E, 0x5A, 0x0A] y)
            in tty_wake_readers tty_idx (fst y1, sched_send_signal_to_pgid (tt_fg_pgid (fst y1 ! i)) (int SIGTSTP) (snd y1))
          else y)"

definition tty_ctrl_c :: "(u8 list \<Rightarrow> 'w \<Rightarrow> 'w) \<Rightarrow> int \<Rightarrow> ('r, 'w) tty_sys \<Rightarrow> ('r, 'w) tty_sys" where
  "tty_ctrl_c con tty_idx y =
     (case tty_get tty_idx (fst y) of
        None \<Rightarrow> y
      | Some i \<Rightarrow>
          if tt_fg_pgid (fst y ! i) = 0 then y
          else
            let y1 = upd_tty i (\<lambda>t. t\<lparr>tt_interrupted := True\<rparr>) (tty_feedback con [0x5E, 0x43, 0x0A] y)
            in tty_wake_readers tty_idx (fst y1, sched_send_signal_to_pgid (tt_fg_pgid (fst y1 ! i)) (int SIGINT) (snd y1)))"

definition sched_send_sigint_foreground :: "(u8 list \<Rightarrow> 'w \<Rightarrow> 'w) \<Rightarrow> ('r, 'w) tty_sys \<Rightarrow> ('r, 'w) tty_sys" where
  "sched_send_sigint_foreground con y = tty_ctrl_c con 0 y"

definition is_erase :: "termios \<Rightarrow> u8 \<Rightarrow> bool" where
  "is_erase t c \<longleftrightarrow> c = 0x08 \<or> c = 0x7f \<or> c = c_cc t ! VERASE"

definition canon_put :: "u8 \<Rightarrow> tty \<Rightarrow> tty" where
  "canon_put c t = t\<lparr>tt_canon_buf := (tt_canon_buf t)[tt_canon_len t := c], tt_canon_len := tt_canon_len t + 1\<rparr>"

definition raw_put :: "u8 \<Rightarrow> tty \<Rightarrow> tty" where
  "raw_put c t = t\<lparr>tt_raw_buf := (tt_raw_buf t)[tt_raw_head t := c], tt_raw_head := (tt_raw_head t + 1) mod TTY_RAW_BUF_SIZE\<rparr>"

text \<open>The canonical and the raw branch of \<^verbatim>\<open>tty_input_char\<close>.\<close>

definition tty_input_canon :: "(u8 list \<Rightarrow> 'w \<Rightarrow> 'w) \<Rightarrow> int \<Rightarrow> nat \<Rightarrow> u8 \<Rightarrow> ('r, 'w) tty_sys \<Rightarrow> ('r, 'w) tty_sys" where
  "tty_input_canon con tty_idx i c y =
     (let t = fst y ! i; lflag = c_lflag (tt_termios t) in
      if is_erase (tt_termios t) c then
        (if tt_canon_len t > 0 then
           let y1 = upd_tty i (\<lambda>t. t\<lparr>tt_canon_len := tt_canon_len t - 1\<rparr>) y
           in if lflag AND ECHOE \<noteq> 0 then tty_feedback con [0x08, 0x20, 0x08] y1 else y1
         else y)
      else
        let y1 = (if tt_canon_len t < TTY_CANON_BUF_SIZE - 1 then
              let y2 = upd_tty i (canon_put c) y in if lflag AND ECHO \<noteq> 0 then tty_feedback con [c] y2 else y2
            else y)
        in if c = 0x0A then tty_wake_readers tty_idx (upd_tty i (\<lambda>t. t\<lparr>tt_canon_ready := True\<rparr>) y1) else y1)"

definition tty_input_raw :: "int \<Rightarrow> nat \<Rightarrow> u8 \<Rightarrow> ('r, 'w) tty_sys \<Rightarrow> ('r, 'w) tty_sys" where
  "tty_input_raw tty_idx i c y =
     (let t = fst y ! i; next = (tt_raw_head t + 1) mod TTY_RAW_BUF_SIZE
      in tty_wake_readers tty_idx (if next \<noteq> tt_raw_tail t then upd_tty i (raw_put c) y else y))"

definition tty_input_char :: "(u8 list \<Rightarrow> 'w \<Rightarrow> 'w) \<Rightarrow> int \<Rightarrow> u8 \<Rightarrow> ('r, 'w) tty_sys \<Rightarrow> ('r, 'w) tty_sys" where
  "tty_input_char con tty_idx ch y =
     (case tty_get tty_idx (fst y) of
        None \<Rightarrow> y
      | Some i \<Rightarrow>
          let tm = tt_termios (fst y ! i);
              c = (if ch = 0x0D \<and> c_iflag tm AND ICRNL \<noteq> 0 then 0x0A else ch)
          in if c = c_cc tm ! VINTR \<and> c_lflag tm AND ISIG \<noteq> 0 then tty_ctrl_c con tty_idx y
             else if c = c_cc tm ! VSUSP \<and> c_lflag tm AND ISIG \<noteq> 0 then tty_ctrl_z con tty_idx y
             else if c_lflag tm AND ICANON \<noteq> 0 then tty_input_canon con tty_idx i c y
             else tty_input_raw tty_idx i c y)"

section \<open>Reading\<close>

definition tty_read_was_interrupted :: "nat \<Rightarrow> nat \<Rightarrow> ('r, 'w) tty_sys \<Rightarrow> bool \<times> ('r, 'w) tty_sys" where
  "tty_read_was_interrupted i proc y =
     (if sched_process_has_unblocked_signal (snd y) proc then (True, y)
      else if tt_interrupted (fst y ! i) then (True, upd_tty i (\<lambda>t. t\<lparr>tt_interrupted := False\<rparr>) y)
      else (False, y))"

definition raw_take :: "tty \<Rightarrow> u8 \<times> tty" where
  "raw_take t = (tt_raw_buf t ! tt_raw_tail t, t\<lparr>tt_raw_tail := (tt_raw_tail t + 1) mod TTY_RAW_BUF_SIZE\<rparr>)"

fun raw_drain :: "nat \<Rightarrow> tty \<Rightarrow> u8 list \<times> tty" where
  "raw_drain 0 t = ([], t)"
| "raw_drain (Suc n) t =
     (if tt_raw_head t \<noteq> tt_raw_tail t
      then case raw_take t of (b, t1) \<Rightarrow> case raw_drain n t1 of (bs, t2) \<Rightarrow> (b # bs, t2) else ([], t))"

definition canon_take :: "nat \<Rightarrow> tty \<Rightarrow> u8 list \<times> tty" where
  "canon_take count t =
     (let n = min (tt_canon_len t) count; remaining = tt_canon_len t - n
      in (take n (tt_canon_buf t),
          t\<lparr>tt_canon_buf := take remaining (drop n (tt_canon_buf t)) @ drop remaining (tt_canon_buf t), tt_canon_len := remaining,
            tt_canon_ready := (if remaining = 0 then False else tt_canon_ready t)\<rparr>))"

text \<open>One turn of the loop of \<^verbatim>\<open>tty_read\<close>, after which the caller returns or sleeps and tries again.\<close>

definition tty_read :: "(('r, 'w) tty_sys \<Rightarrow> ('r, 'w) tty_sys) \<Rightarrow> int \<Rightarrow> nat \<Rightarrow> ('r, 'w) tty_sys \<Rightarrow> unit io \<times> u8 list \<times> ('r, 'w) tty_sys" where
  "tty_read poll tty_idx count y =
     (case tty_get tty_idx (fst y) of
        None \<Rightarrow> (IoReturn (-1), [], y)
      | Some i \<Rightarrow>
          if count = 0 then (IoReturn (-1), [], y)
          else case sched_current (snd y) of
            None \<Rightarrow> (IoReturn (-1), [], y)
          | Some cur \<Rightarrow>
              (case tty_read_was_interrupted i cur y of
                 (True, y1) \<Rightarrow> (IoReturn (-1), [], y1)
               | (False, y1) \<Rightarrow>
                   (case tty_read_was_interrupted i cur (poll y1) of
                      (True, y2) \<Rightarrow> (IoReturn (-1), [], y2)
                    | (False, y2) \<Rightarrow>
                        let t = fst y2 ! i; sleep = (IoSleep (), [], fst y2, sched_block (Some (QExt (tty_queue i))) (snd y2)) in
                        if c_lflag (tt_termios t) AND ICANON \<noteq> 0 then
                          (if tt_canon_ready t then
                             case canon_take count t of (bs, t1) \<Rightarrow> (IoReturn (int (length bs)), bs, upd_tty i (\<lambda>_. t1) y2)
                           else sleep)
                        else if tt_raw_head t \<noteq> tt_raw_tail t then
                          case raw_drain count t of (bs, t1) \<Rightarrow> (IoReturn (int (length bs)), bs, upd_tty i (\<lambda>_. t1) y2)
                        else if c_cc (tt_termios t) ! VMIN = 0 then (IoReturn 0, [], y2)
                        else sleep)))"

end
