(* ===== verification/Tty_Run.thy ===== *)
theory Tty_Run
  imports Tty
begin

text \<open>
  Terminals keep their buffers in range whatever happens to them, the raw input is a bounded queue, and
  canonical input is line editing.
\<close>

section \<open>Well-formed terminals\<close>

definition tty_ok :: "tty \<Rightarrow> bool" where
  "tty_ok t \<longleftrightarrow> length (tt_raw_buf t) = TTY_RAW_BUF_SIZE \<and> tt_raw_head t < TTY_RAW_BUF_SIZE \<and> tt_raw_tail t < TTY_RAW_BUF_SIZE \<and>
     length (tt_canon_buf t) = TTY_CANON_BUF_SIZE \<and> tt_canon_len t < TTY_CANON_BUF_SIZE \<and> length (c_cc (tt_termios t)) = NCCS"

definition ttys_ok :: "('r, 'w) tty_sys \<Rightarrow> bool" where
  "ttys_ok y \<longleftrightarrow> length (fst y) = MAX_TTYS \<and> (\<forall>i < MAX_TTYS. tty_ok (fst y ! i))"

lemma tty_get_slot: "tty_get k ts = Some i \<Longrightarrow> i < MAX_TTYS \<and> k = int i \<and> tt_in_use (ts ! i)"
  by (auto simp: tty_get_def split: if_splits)

lemma ok_upd: "ttys_ok y \<Longrightarrow> (tty_ok (fst y ! i) \<Longrightarrow> tty_ok (f (fst y ! i))) \<Longrightarrow> ttys_ok (upd_tty i f y)"
  by (auto simp: ttys_ok_def upd_tty_def nth_upd)

lemma ttys_tables [simp]:
  "fst (tty_feedback con b y) = fst y" "fst (tty_wake_readers k y) = fst y"
  by (auto simp: tty_feedback_def tty_wake_readers_def split: option.splits)

lemma ok_table: "fst y' = fst y \<Longrightarrow> ttys_ok y' = ttys_ok y"
  by (simp add: ttys_ok_def)

lemma put_ok: "tty_ok t \<Longrightarrow> tt_canon_len t < TTY_CANON_BUF_SIZE - 1 \<Longrightarrow> tty_ok (canon_put c t)" "tty_ok t \<Longrightarrow> tty_ok (raw_put c t)"
  by (auto simp: tty_ok_def canon_put_def raw_put_def TTY_CANON_BUF_SIZE_def TTY_RAW_BUF_SIZE_def)

lemma ctrl_ok: "ttys_ok y \<Longrightarrow> ttys_ok (tty_ctrl_c con k y)" "ttys_ok y \<Longrightarrow> ttys_ok (tty_ctrl_z con k y)"
  by (auto simp: tty_ctrl_c_def tty_ctrl_z_def Let_def ttys_ok_def upd_tty_def nth_upd tty_ok_def split: option.splits)

lemma canon_ok: "ttys_ok y \<Longrightarrow> i < MAX_TTYS \<Longrightarrow> ttys_ok (tty_input_canon con k i c y)"
  by (auto simp: tty_input_canon_def Let_def ttys_ok_def upd_tty_def nth_upd put_ok) (auto simp: tty_ok_def canon_put_def TTY_CANON_BUF_SIZE_def)

lemma raw_ok: "ttys_ok y \<Longrightarrow> i < MAX_TTYS \<Longrightarrow> ttys_ok (tty_input_raw k i c y)"
  by (auto simp: tty_input_raw_def Let_def ttys_ok_def upd_tty_def nth_upd put_ok)

lemma input_ok: "ttys_ok y \<Longrightarrow> ttys_ok (tty_input_char con k c y)"
  by (auto simp: tty_input_char_def Let_def ctrl_ok canon_ok raw_ok dest!: tty_get_slot split: option.splits)

lemma canon_take_ok: "tty_ok t \<Longrightarrow> canon_take n t = (bs, t') \<Longrightarrow> tty_ok t'"
  by (auto simp: canon_take_def Let_def tty_ok_def)

lemma raw_drain_ok: "tty_ok t \<Longrightarrow> raw_drain n t = (bs, t') \<Longrightarrow> tty_ok t'"
proof (induction n arbitrary: t bs)
  case (Suc n)
  have "tty_ok (snd (raw_take t))" using Suc.prems(1) by (simp add: tty_ok_def raw_take_def TTY_RAW_BUF_SIZE_def)
  then show ?case using Suc by (auto split: if_splits prod.splits)
qed simp

lemma interrupted_ok: "ttys_ok y \<Longrightarrow> tty_read_was_interrupted i p y = (b, y') \<Longrightarrow> ttys_ok y'"
  by (auto simp: tty_read_was_interrupted_def tty_ok_def split: if_splits intro!: ok_upd)

lemma read_ok:
  assumes y: "ttys_ok y" and poll: "\<And>y. ttys_ok y \<Longrightarrow> ttys_ok (poll y)" and r: "tty_read poll k n y = (x, bs, y')"
  shows "ttys_ok y'"
proof (cases "tty_get k (fst y)")
  case None
  then show ?thesis using y r by (simp add: tty_read_def)
next
  case (Some i)
  show ?thesis
  proof (cases "n = 0 \<or> sched_current (snd y) = None")
    case True
    then show ?thesis using y r Some by (auto simp: tty_read_def split: if_splits option.splits)
  next
    case False
    then obtain c where c: "sched_current (snd y) = Some c" "n \<noteq> 0" by auto
    obtain b1 y1 where i1: "tty_read_was_interrupted i c y = (b1, y1)" by (cases "tty_read_was_interrupted i c y") blast
    obtain b2 y2 where i2: "tty_read_was_interrupted i c (poll y1) = (b2, y2)" by (cases "tty_read_was_interrupted i c (poll y1)") blast
    have o1: "ttys_ok y1" by (rule interrupted_ok [OF y i1])
    have o2: "ttys_ok y2" by (rule interrupted_ok [OF poll [OF o1] i2])
    have t: "tty_ok (fst y2 ! i)" using o2 tty_get_slot [OF Some] by (simp add: ttys_ok_def)
    have u: "ttys_ok (upd_tty i (\<lambda>_. t1) y2)" if "tty_ok t1" for t1 by (rule ok_upd [OF o2 that])
    show ?thesis using r o1 o2 u canon_take_ok [OF t] raw_drain_ok [OF t] ok_table [of "(fst y2, s)" y2 for s]
      by (cases b1; cases b2) (auto simp: tty_read_def Some c i1 i2 Let_def split: if_splits prod.splits)
  qed
qed

section \<open>Raw input is a queue\<close>

text \<open>One place of the ring stays empty, so that equal indices mean an empty ring.\<close>

definition raw_count :: "tty \<Rightarrow> nat" where
  "raw_count t = (if tt_raw_head t \<ge> tt_raw_tail t then tt_raw_head t - tt_raw_tail t else TTY_RAW_BUF_SIZE - tt_raw_tail t + tt_raw_head t)"

definition raw_data :: "tty \<Rightarrow> u8 list" where
  "raw_data t = window (tt_raw_buf t) (tt_raw_tail t) (raw_count t)"

lemma raw_count_less: "tty_ok t \<Longrightarrow> raw_count t < TTY_RAW_BUF_SIZE"
  by (auto simp: tty_ok_def raw_count_def)

lemma raw_head_eq: "tty_ok t \<Longrightarrow> tt_raw_head t = (tt_raw_tail t + raw_count t) mod TTY_RAW_BUF_SIZE"
  by (auto simp: tty_ok_def raw_count_def)

lemma raw_full: "tty_ok t \<Longrightarrow> (tt_raw_head t + 1) mod TTY_RAW_BUF_SIZE = tt_raw_tail t \<longleftrightarrow> raw_count t = TTY_RAW_BUF_SIZE - 1"
  by (auto simp: tty_ok_def raw_count_def TTY_RAW_BUF_SIZE_def mod_Suc)

lemma raw_put_count: "tty_ok t \<Longrightarrow> raw_count t < TTY_RAW_BUF_SIZE - 1 \<Longrightarrow> raw_count (raw_put c t) = Suc (raw_count t)"
  by (auto simp: tty_ok_def raw_count_def raw_put_def TTY_RAW_BUF_SIZE_def mod_Suc split: if_splits)

lemma raw_take_count: "tty_ok t \<Longrightarrow> raw_count t = Suc n \<Longrightarrow> raw_count (snd (raw_take t)) = n"
  by (auto simp: tty_ok_def raw_count_def raw_take_def TTY_RAW_BUF_SIZE_def mod_Suc split: if_splits)

lemma raw_put_law:
  assumes "tty_ok t" "length (raw_data t) < TTY_RAW_BUF_SIZE - 1"
  shows "tty_ok (raw_put c t) \<and> raw_data (raw_put c t) = raw_data t @ [c]"
proof -
  have n: "raw_count t < TTY_RAW_BUF_SIZE - 1" using assms(2) by (simp add: raw_data_def)
  have "raw_data (raw_put c t) = window ((tt_raw_buf t)[tt_raw_head t := c]) (tt_raw_tail t) (Suc (raw_count t))"
    using raw_put_count [OF assms(1) n] by (simp add: raw_data_def raw_put_def)
  also have "\<dots> = raw_data t @ [c]"
    using window_push [of "raw_count t" "tt_raw_buf t" "tt_raw_tail t" c] n assms(1) raw_head_eq [OF assms(1)] by (simp add: raw_data_def tty_ok_def)
  finally show ?thesis using put_ok(2) [OF assms(1)] by simp
qed

lemma raw_take_law:
  assumes "tty_ok t" "raw_data t \<noteq> []"
  shows "tty_ok (snd (raw_take t)) \<and> raw_data t = fst (raw_take t) # raw_data (snd (raw_take t))"
proof -
  obtain n where n: "raw_count t = Suc n" using assms(2) by (cases "raw_count t") (auto simp: raw_data_def)
  have "tty_ok (snd (raw_take t))" using assms(1) by (simp add: tty_ok_def raw_take_def TTY_RAW_BUF_SIZE_def)
  then show ?thesis using window_pop [of "tt_raw_tail t" "tt_raw_buf t" n] raw_take_count [OF assms(1) n] n assms(1)
    by (simp add: raw_data_def raw_take_def tty_ok_def)
qed

interpretation tq: byte_queue tty_ok raw_data "TTY_RAW_BUF_SIZE - 1" raw_put raw_take
  by unfold_locales (use raw_count_less in \<open>fastforce simp: raw_data_def\<close>, rule raw_put_law, assumption, assumption, rule raw_take_law)

lemma raw_drain_pops: "tty_ok t \<Longrightarrow> raw_drain n t = tq.pops (min n (raw_count t)) t"
proof (induction n arbitrary: t)
  case (Suc n)
  show ?case
  proof (cases "raw_count t")
    case 0
    then have "tt_raw_head t = tt_raw_tail t" using Suc.prems by (auto simp: raw_count_def tty_ok_def split: if_splits)
    then show ?thesis using 0 by (simp add: tq.pops.simps)
  next
    case (Suc m)
    obtain b t1 where p: "raw_take t = (b, t1)" by fastforce
    have "tty_ok t1" "raw_count t1 = m" using raw_take_law [OF Suc.prems] raw_take_count [OF Suc.prems Suc] p Suc by (auto simp: raw_data_def)
    moreover have "tt_raw_head t \<noteq> tt_raw_tail t" using Suc by (auto simp: raw_count_def)
    ultimately show ?thesis using Suc.IH [of t1] Suc p by (simp add: tq.pops.simps)
  qed
qed (simp add: tq.pops.simps)

text \<open>A read in raw mode takes the oldest bytes.\<close>

lemma raw_drain_queue: "tty_ok t \<Longrightarrow> raw_drain n t = (bs, t') \<Longrightarrow> tty_ok t' \<and> bs = take n (raw_data t) \<and> raw_data t' = drop n (raw_data t)"
proof -
  assume t: "tty_ok t" "raw_drain n t = (bs, t')"
  have l: "length (raw_data t) = raw_count t" by (simp add: raw_data_def)
  have "bs = fst (tq.pops (min n (raw_count t)) t)" "t' = snd (tq.pops (min n (raw_count t)) t)" 
    using raw_drain_pops [OF t(1), of n] t(2) by (metis fst_conv, metis snd_conv)
  then show ?thesis using tq.pops_law [OF t(1), of "min n (raw_count t)"] l by (simp add: min_def split: if_splits)
qed

section \<open>Line editing\<close>

text \<open>The line a terminal has assembled, and what editing means: a key is added at the end while there is room, and an erase key removes the last one.\<close>

definition canon_line :: "tty \<Rightarrow> u8 list" where
  "canon_line t = take (tt_canon_len t) (tt_canon_buf t)"

definition typed :: "termios \<Rightarrow> u8 \<Rightarrow> u8" where
  "typed tm ch = (if ch = 0x0D \<and> c_iflag tm AND ICRNL \<noteq> 0 then 0x0A else ch)"

definition line_edit :: "termios \<Rightarrow> u8 \<Rightarrow> u8 list \<Rightarrow> u8 list" where
  "line_edit tm ch l =
     (if is_erase tm (typed tm ch) then butlast l
      else if length l < TTY_CANON_BUF_SIZE - 1 then l @ [typed tm ch] else l)"

definition ends_line :: "termios \<Rightarrow> u8 \<Rightarrow> bool" where
  "ends_line tm ch \<longleftrightarrow> \<not> is_erase tm (typed tm ch) \<and> typed tm ch = 0x0A"

definition is_signal_key :: "termios \<Rightarrow> u8 \<Rightarrow> bool" where
  "is_signal_key tm ch \<longleftrightarrow> c_lflag tm AND ISIG \<noteq> 0 \<and> (typed tm ch = c_cc tm ! VINTR \<or> typed tm ch = c_cc tm ! VSUSP)"

lemma canon_line_put: "tty_ok t \<Longrightarrow> canon_line (canon_put c t) = canon_line t @ [c]"
  by (auto simp: tty_ok_def canon_line_def canon_put_def take_Suc_conv_app_nth)

lemma canon_line_erase: "tty_ok t \<Longrightarrow> canon_line (t\<lparr>tt_canon_len := tt_canon_len t - 1\<rparr>) = butlast (canon_line t)"
  by (auto simp: tty_ok_def canon_line_def butlast_take)

lemma canon_line_length: "tty_ok t \<Longrightarrow> length (canon_line t) = tt_canon_len t"
  by (simp add: tty_ok_def canon_line_def)

lemma upd_tty_same: "i < length (fst y) \<Longrightarrow> fst (upd_tty i f y) ! i = f (fst y ! i)"
  by (simp add: upd_tty_def)

text \<open>One key in canonical mode.\<close>

lemma input_canon_line:
  assumes y: "ttys_ok y" and g: "tty_get k (fst y) = Some i" and t: "t = fst y ! i" "tm = tt_termios t"
    and m: "c_lflag tm AND ICANON \<noteq> 0" "\<not> is_signal_key tm ch" and t'_def: "t' = fst (tty_input_char con k ch y) ! i"
  shows "canon_line t' = line_edit tm ch (canon_line t)" "tt_canon_ready t' = (tt_canon_ready t \<or> ends_line tm ch)" "tt_termios t' = tm"
    "tt_in_use t' = tt_in_use t"
proof -
  have i: "i < length (fst y)" "tty_ok t" using y tty_get_slot [OF g] by (auto simp: ttys_ok_def t)
  define c where "c = typed tm ch"
  have e: "tty_input_char con k ch y = tty_input_canon con k i c y"
    using m unfolding tty_input_char_def g option.case Let_def t(1) [symmetric] t(2) [symmetric] typed_def [symmetric] c_def [symmetric]
    by (auto simp: is_signal_key_def c_def)
  define f where "f = (\<lambda>t. if is_erase tm c then (if tt_canon_len t > 0 then t\<lparr>tt_canon_len := tt_canon_len t - 1\<rparr> else t)
      else let t1 = (if tt_canon_len t < TTY_CANON_BUF_SIZE - 1 then canon_put c t else t) in if c = 0x0A then t1\<lparr>tt_canon_ready := True\<rparr> else t1)"
  have "fst (tty_input_canon con k i c y) ! i = f t"
    using i(1) by (auto simp: tty_input_canon_def Let_def t(1) [symmetric] t(2) [symmetric] f_def upd_tty_def)
  then have t': "t' = f t" by (simp add: t'_def e)
  have l: "length (canon_line t) = tt_canon_len t" by (rule canon_line_length [OF i(2)])
  have r: "canon_line (t\<lparr>tt_canon_ready := b\<rparr>) = canon_line t" for t b by (simp add: canon_line_def)
  show "canon_line t' = line_edit tm ch (canon_line t)"
    using canon_line_put [OF i(2)] canon_line_erase [OF i(2)] l
    by (auto simp: t' f_def line_edit_def c_def [symmetric] Let_def r)
  show "tt_canon_ready t' = (tt_canon_ready t \<or> ends_line tm ch)" "tt_termios t' = tm" "tt_in_use t' = tt_in_use t"
    by (auto simp: t' f_def ends_line_def c_def [symmetric] Let_def canon_put_def t(2) [symmetric])
qed

lemma inputs_canon_line:
  assumes "ttys_ok y" "tty_get k (fst y) = Some i" "tm = tt_termios (fst y ! i)" "c_lflag tm AND ICANON \<noteq> 0"
    and "\<forall>c \<in> set cs. \<not> is_signal_key tm c"
  shows "ttys_ok (fold (tty_input_char con k) cs y) \<and> tty_get k (fst (fold (tty_input_char con k) cs y)) = Some i \<and>
    canon_line (fst (fold (tty_input_char con k) cs y) ! i) = fold (line_edit tm) cs (canon_line (fst y ! i)) \<and>
    tt_canon_ready (fst (fold (tty_input_char con k) cs y) ! i) = (tt_canon_ready (fst y ! i) \<or> (\<exists>c \<in> set cs. ends_line tm c)) \<and>
    tt_termios (fst (fold (tty_input_char con k) cs y) ! i) = tm"
  using assms
proof (induction cs arbitrary: y)
  case (Cons c cs)
  let ?y = "tty_input_char con k c y"
  note one = input_canon_line [OF Cons.prems(1,2) refl Cons.prems(3,4) _ refl, of c con]
  have s: "\<not> is_signal_key tm c" using Cons.prems(5) by simp
  have g: "tty_get k (fst ?y) = Some i" using Cons.prems(2) one(4) [OF s] by (auto simp: tty_get_def split: if_splits)
  from Cons.IH [OF input_ok [OF Cons.prems(1)] g one(3) [OF s, symmetric] Cons.prems(4)] Cons.prems(5) one [OF s]
  show ?case by auto
qed simp

end
