(* ===== verification/Termios.thy ===== *)
theory Termios
  imports Tty_Run Sched_Exit
begin

text \<open>
  The terminal requests of kernel/proc/syscall/tty.c: the 60-byte Linux \<^verbatim>\<open>termios\<close> layout, reading and setting
  the attributes and the foreground process group. The descriptor has been resolved to a terminal by the caller
  (\<open>None\<close> where \<^verbatim>\<open>syscall_tty_from_fd\<close> returns a null pointer), and a copy from or to user memory that fails is \<open>None\<close>
  or \<open>False\<close>. The second part shows that no request, key or read takes a terminal out of its bounds, and that the
  layout round-trips.
\<close>

section \<open>The Linux layout\<close>

definition LINUX_TCSETS :: u32 where "LINUX_TCSETS = 0x5402"
definition LINUX_TCSETSW :: u32 where "LINUX_TCSETSW = 0x5403"
definition LINUX_TCSETSF :: u32 where "LINUX_TCSETSF = 0x5404"
definition LINUX_ICRNL :: u32 where "LINUX_ICRNL = 0x100"
definition LINUX_OPOST :: u32 where "LINUX_OPOST = 0x1"
definition LINUX_ONLCR :: u32 where "LINUX_ONLCR = 0x4"
definition LINUX_ISIG :: u32 where "LINUX_ISIG = 0x1"
definition LINUX_ICANON :: u32 where "LINUX_ICANON = 0x2"
definition LINUX_ECHO :: u32 where "LINUX_ECHO = 0x8"
definition LINUX_ECHOE :: u32 where "LINUX_ECHOE = 0x10"
definition LINUX_CREAD :: u32 where "LINUX_CREAD = 0x80"
definition LINUX_CS8 :: u32 where "LINUX_CS8 = 0x30"
definition LINUX_B38400 :: u32 where "LINUX_B38400 = 0xF"
definition LINUX_VTIME :: nat where "LINUX_VTIME = 5"
definition LINUX_VMIN :: nat where "LINUX_VMIN = 6"
definition TCSAFLUSH :: u32 where "TCSAFLUSH = 2"

definition linux_put_u32 :: "u8 list \<Rightarrow> nat \<Rightarrow> u32 \<Rightarrow> u8 list" where
  "linux_put_u32 buf off v =
     buf[off := ucast (v AND 0xFF), off + 1 := ucast (drop_bit 8 v AND 0xFF),
         off + 2 := ucast (drop_bit 16 v AND 0xFF), off + 3 := ucast (drop_bit 24 v AND 0xFF)]"

definition linux_get_u32 :: "u8 list \<Rightarrow> nat \<Rightarrow> u32" where
  "linux_get_u32 buf off =
     ucast (buf ! off) OR push_bit 8 (ucast (buf ! (off + 1))) OR push_bit 16 (ucast (buf ! (off + 2))) OR
     push_bit 24 (ucast (buf ! (off + 3)))"

text \<open>\<open>flag v m b\<close> is the statement \<^verbatim>\<open>if (v & m) out |= b\<close> as the bits it adds.\<close>

definition flag :: "u32 \<Rightarrow> u32 \<Rightarrow> u32 \<Rightarrow> u32" where
  "flag v m b = (if v AND m \<noteq> 0 then b else 0)"

definition linux_termios_lflag_from_tty :: "tty option \<Rightarrow> u32" where
  "linux_termios_lflag_from_tty tty =
     (case tty of
        None \<Rightarrow> 0
      | Some t \<Rightarrow>
          let l = c_lflag (tt_termios t)
          in flag l ISIG LINUX_ISIG OR flag l ICANON LINUX_ICANON OR flag l ECHO LINUX_ECHO OR flag l ECHOE LINUX_ECHOE)"

definition linux_termios_to_tty :: "u8 list \<Rightarrow> tty \<Rightarrow> tty" where
  "linux_termios_to_tty b t =
     (let iflag = linux_get_u32 b 0; oflag = linux_get_u32 b 4; cflag = linux_get_u32 b 8; lflag = linux_get_u32 b 12 in
      t\<lparr>tt_termios :=
          \<lparr>c_iflag = flag iflag LINUX_ICRNL ICRNL,
           c_oflag = flag oflag LINUX_OPOST OPOST OR flag oflag LINUX_ONLCR ONLCR,
           c_cflag = flag cflag LINUX_CREAD CREAD OR (if cflag AND LINUX_CS8 = LINUX_CS8 then CS8 else 0),
           c_lflag = flag lflag LINUX_ISIG ISIG OR flag lflag LINUX_ICANON ICANON OR flag lflag LINUX_ECHO ECHO OR
             flag lflag LINUX_ECHOE ECHOE,
           c_cc = map (\<lambda>i. if 17 + i < 60 then b ! (17 + i) else 0) [0..<NCCS]\<rparr>\<rparr>)"

definition linux_termios_from_tty :: "tty option \<Rightarrow> u8 list" where
  "linux_termios_from_tty tty =
     (let b0 = replicate 60 0;
          b1 = (case tty of None \<Rightarrow> b0
            | Some t \<Rightarrow> if c_iflag (tt_termios t) AND ICRNL \<noteq> 0 then linux_put_u32 b0 0 LINUX_ICRNL else b0);
          b2 = (case tty of None \<Rightarrow> b1
            | Some t \<Rightarrow> let ofl = c_oflag (tt_termios t) in
                if ofl AND (OPOST OR ONLCR) \<noteq> 0
                then linux_put_u32 b1 4 (flag ofl OPOST LINUX_OPOST OR flag ofl ONLCR LINUX_ONLCR) else b1);
          cflag = LINUX_B38400 OR
            (case tty of None \<Rightarrow> LINUX_CS8 | Some t \<Rightarrow> flag (c_cflag (tt_termios t)) CS8 LINUX_CS8) OR
            (case tty of None \<Rightarrow> LINUX_CREAD | Some t \<Rightarrow> flag (c_cflag (tt_termios t)) CREAD LINUX_CREAD);
          b3 = linux_put_u32 b2 8 cflag;
          b4 = linux_put_u32 b3 12 (linux_termios_lflag_from_tty tty)
      in case tty of
           None \<Rightarrow> b4[17 + LINUX_VTIME := 0, 17 + LINUX_VMIN := 1]
         | Some t \<Rightarrow> fold (\<lambda>i b. if 17 + i < 60 then b[17 + i := c_cc (tt_termios t) ! i] else b) [0..<NCCS] b4)"

section \<open>Requests\<close>

text \<open>Discarding the unread input.\<close>

definition tty_flush :: "tty \<Rightarrow> tty" where
  "tty_flush t = t\<lparr>tt_raw_head := 0, tt_raw_tail := 0, tt_canon_len := 0, tt_canon_ready := False\<rparr>"

text \<open>The branch of \<^verbatim>\<open>syscall_ioctl\<close> for the three requests that set the attributes.\<close>

definition ioctl_tcsets :: "u32 \<Rightarrow> u32 \<Rightarrow> nat option \<Rightarrow> u8 list option \<Rightarrow> ('r, 'w) tty_sys \<Rightarrow> u32 \<times> ('r, 'w) tty_sys" where
  "ioctl_tcsets request argp tty copied y =
     (if argp = 0 then (-1, y)
      else case tty of
        None \<Rightarrow> (-1, y)
      | Some i \<Rightarrow>
          (case copied of
             None \<Rightarrow> (-1, y)
           | Some b \<Rightarrow>
               (0, upd_tty i (linux_termios_to_tty b) (if request = LINUX_TCSETSF then upd_tty i tty_flush y else y))))"

text \<open>The branch that reads them: the bytes are those given to \<^verbatim>\<open>uaccess_copy_to_user\<close>.\<close>

definition ioctl_tcgets :: "u32 \<Rightarrow> nat option \<Rightarrow> (u8 list \<Rightarrow> bool) \<Rightarrow> ('r, 'w) tty_sys \<Rightarrow> u32" where
  "ioctl_tcgets argp tty copy_to_user y =
     (if argp = 0 then -1
      else case tty of
        None \<Rightarrow> -1
      | Some i \<Rightarrow> if copy_to_user (linux_termios_from_tty (Some (fst y ! i))) then 0 else -1)"

definition drunix_tcsetattr :: "nat option \<Rightarrow> u32 \<Rightarrow> termios option \<Rightarrow> ('r, 'w) tty_sys \<Rightarrow> u32 \<times> ('r, 'w) tty_sys" where
  "drunix_tcsetattr tty act copied y =
     (case tty of
        None \<Rightarrow> (-1, y)
      | Some i \<Rightarrow>
          (case copied of
             None \<Rightarrow> (-1, y)
           | Some tm \<Rightarrow> (0, upd_tty i (\<lambda>t. t\<lparr>tt_termios := tm\<rparr>) (if act = TCSAFLUSH then upd_tty i tty_flush y else y))))"

definition drunix_tcgetattr :: "nat option \<Rightarrow> (termios \<Rightarrow> bool) \<Rightarrow> ('r, 'w) tty_sys \<Rightarrow> u32" where
  "drunix_tcgetattr tty copy_to_user y =
     (case tty of None \<Rightarrow> -1 | Some i \<Rightarrow> if copy_to_user (tt_termios (fst y ! i)) then 0 else -1)"

definition drunix_tcsetpgrp :: "nat option \<Rightarrow> u32 \<Rightarrow> ('r, 'w) tty_sys \<Rightarrow> u32 \<times> ('r, 'w) tty_sys" where
  "drunix_tcsetpgrp tty pgid y =
     (case (sched_current (snd y), tty) of
        (Some c, Some i) \<Rightarrow>
          let cur = proc_table (snd y) ! c in
          if pgid = 0 then (-1, y)
          else if p_tty_id cur \<noteq> of_nat i then (-1, y)
          else
            let y1 = (if tt_ctrl_sid (fst y ! i) = 0 then upd_tty i (\<lambda>t. t\<lparr>tt_ctrl_sid := p_sid cur\<rparr>) y else y);
                sid = tt_ctrl_sid (fst y1 ! i)
            in if sid \<noteq> p_sid cur then (-1, y1)
               else if \<not> sched_session_has_pgid (snd y1) sid pgid then (-1, y1)
               else (0, upd_tty i (\<lambda>t. t\<lparr>tt_fg_pgid := pgid\<rparr>) y1)
      | _ \<Rightarrow> (-1, y))"

definition drunix_tcgetpgrp :: "nat option \<Rightarrow> ('r, 'w) tty_sys \<Rightarrow> u32" where
  "drunix_tcgetpgrp tty y = (case tty of None \<Rightarrow> -1 | Some i \<Rightarrow> tt_fg_pgid (fst y ! i))"

section \<open>The layout round-trips\<close>

lemma linux_put_length [simp]: "length (linux_put_u32 b k v) = length b"
  by (simp add: linux_put_u32_def)

lemma u8_of_u32: "ucast (ucast (v AND 0xFF) :: u8) = take_bit 8 (v :: u32)"
proof -
  have m: "(0xFF :: u32) = mask 8" by (simp add: mask_eq_exp_minus_1)
  show ?thesis unfolding m take_bit_eq_mask [symmetric] by (rule bit_eqI) (auto simp: bit_simps)
qed

lemma u32_bytes:
  fixes v :: u32
  shows "take_bit 8 v OR push_bit 8 (take_bit 8 (drop_bit 8 v)) OR push_bit 16 (take_bit 8 (drop_bit 16 v)) OR
    push_bit 24 (take_bit 8 (drop_bit 24 v)) = v"
proof (rule bit_eqI)
  fix n
  assume "possible_bit TYPE(u32) n"
  then have "n < 32" by simp
  then consider "n < 8" | "8 \<le> n" "n < 16" | "16 \<le> n" "n < 24" | "24 \<le> n" "n < 32" by linarith
  then show "bit (take_bit 8 v OR push_bit 8 (take_bit 8 (drop_bit 8 v)) OR push_bit 16 (take_bit 8 (drop_bit 16 v)) OR
    push_bit 24 (take_bit 8 (drop_bit 24 v))) n = bit v n"
    by cases (auto simp: bit_or_iff bit_push_bit_iff bit_take_bit_iff bit_drop_bit_eq less_diff_conv2)
qed

lemma linux_get_put: "k + 3 < length b \<Longrightarrow> linux_get_u32 (linux_put_u32 b k v) k = v"
  by (simp add: linux_get_u32_def linux_put_u32_def u8_of_u32 u32_bytes)

lemma linux_get_put_other: "k + 3 < j \<or> j + 3 < k \<Longrightarrow> linux_get_u32 (linux_put_u32 b k v) j = linux_get_u32 b j"
  by (elim disjE) (simp_all add: linux_get_u32_def linux_put_u32_def)

lemma linux_put_nth: "k + 3 < j \<Longrightarrow> linux_put_u32 b k v ! j = b ! j"
  by (simp add: linux_put_u32_def)

definition cc_fill :: "u8 list \<Rightarrow> nat \<Rightarrow> u8 list \<Rightarrow> u8 list" where
  "cc_fill cc n b = fold (\<lambda>i b. if 17 + i < 60 then b[17 + i := cc ! i] else b) [0..<n] b"

lemma cc_fill:
  "n \<le> 43 \<Longrightarrow> length b = 60 \<Longrightarrow> length (cc_fill cc n b) = 60 \<and> (\<forall>j < 60. cc_fill cc n b ! j = (if 17 \<le> j \<and> j < 17 + n then cc ! (j - 17) else b ! j))"
  by (induction n) (auto simp: cc_fill_def nth_list_update less_Suc_eq)

lemma cc_fill_get: "n \<le> 43 \<Longrightarrow> length b = 60 \<Longrightarrow> j + 3 < 17 \<Longrightarrow> linux_get_u32 (cc_fill cc n b) j = linux_get_u32 b j"
  by (simp add: linux_get_u32_def cc_fill)

text \<open>The attributes whose flags are among those of \<^verbatim>\<open>tty.h\<close>.\<close>

definition termios_known :: "termios \<Rightarrow> bool" where
  "termios_known tm \<longleftrightarrow> c_iflag tm \<in> {0, ICRNL} \<and> c_oflag tm \<in> {0, OPOST, ONLCR, OPOST OR ONLCR} \<and>
     c_cflag tm \<in> {0, CREAD, CS8, CREAD OR CS8} \<and> c_lflag tm \<in> set (map of_nat [0..<16]) \<and> length (c_cc tm) = NCCS"

lemmas termios_flags = ICRNL_def OPOST_def ONLCR_def CREAD_def CS8_def ICANON_def ECHO_def ECHOE_def ISIG_def
  LINUX_ICRNL_def LINUX_OPOST_def LINUX_ONLCR_def LINUX_ISIG_def LINUX_ICANON_def LINUX_ECHO_def LINUX_ECHOE_def
  LINUX_CREAD_def LINUX_CS8_def LINUX_B38400_def flag_def

lemma from_tty_words:
  assumes "b = linux_termios_from_tty (Some t)" "tm = tt_termios t" "length (c_cc tm) = NCCS"
  shows "linux_get_u32 b 0 = flag (c_iflag tm) ICRNL LINUX_ICRNL"
    and "linux_get_u32 b 4 = (flag (c_oflag tm) OPOST LINUX_OPOST OR flag (c_oflag tm) ONLCR LINUX_ONLCR)"
    and "linux_get_u32 b 8 = (LINUX_B38400 OR flag (c_cflag tm) CS8 LINUX_CS8 OR flag (c_cflag tm) CREAD LINUX_CREAD)"
    and "linux_get_u32 b 12 = linux_termios_lflag_from_tty (Some t)"
    and "map (\<lambda>i. if 17 + i < 60 then b ! (17 + i) else 0) [0..<NCCS] = c_cc tm"
proof -
  define b1 where "b1 = (if c_iflag tm AND ICRNL \<noteq> 0 then linux_put_u32 (replicate 60 0) 0 LINUX_ICRNL else replicate 60 0)"
  define b2 where "b2 = (if c_oflag tm AND (OPOST OR ONLCR) \<noteq> 0
    then linux_put_u32 b1 4 (flag (c_oflag tm) OPOST LINUX_OPOST OR flag (c_oflag tm) ONLCR LINUX_ONLCR) else b1)"
  define b3 where "b3 = linux_put_u32 b2 8 (LINUX_B38400 OR flag (c_cflag tm) CS8 LINUX_CS8 OR flag (c_cflag tm) CREAD LINUX_CREAD)"
  define b4 where "b4 = linux_put_u32 b3 12 (linux_termios_lflag_from_tty (Some t))"
  have b: "b = cc_fill (c_cc tm) NCCS b4"
    by (simp add: assms(1,2) linux_termios_from_tty_def cc_fill_def b4_def b3_def b2_def b1_def Let_def)
  have l: "length b1 = 60" "length b2 = 60" "length b3 = 60" "length b4 = 60" by (simp_all add: b1_def b2_def b3_def b4_def)
  have n: "NCCS \<le> 43" by (simp add: NCCS_def)
  have z: "linux_get_u32 (replicate 60 0) 0 = 0" "linux_get_u32 (replicate 60 0) 4 = 0" by (simp_all add: linux_get_u32_def)
  have o: "c_oflag tm AND (OPOST OR ONLCR) = (c_oflag tm AND OPOST) OR (c_oflag tm AND ONLCR)" by (simp add: bit.conj_disj_distrib)
  have 1: "linux_get_u32 b1 0 = flag (c_iflag tm) ICRNL LINUX_ICRNL" "linux_get_u32 b1 4 = 0"
    using z by (simp_all add: b1_def flag_def linux_get_put linux_get_put_other)
  have 2: "linux_get_u32 b2 0 = linux_get_u32 b1 0" "linux_get_u32 b2 4 = (flag (c_oflag tm) OPOST LINUX_OPOST OR flag (c_oflag tm) ONLCR LINUX_ONLCR)"
    using l 1 by (auto simp: b2_def o or_eq_0_iff linux_get_put linux_get_put_other flag_def)
  show "linux_get_u32 b 0 = flag (c_iflag tm) ICRNL LINUX_ICRNL"
    "linux_get_u32 b 4 = (flag (c_oflag tm) OPOST LINUX_OPOST OR flag (c_oflag tm) ONLCR LINUX_ONLCR)"
    "linux_get_u32 b 8 = (LINUX_B38400 OR flag (c_cflag tm) CS8 LINUX_CS8 OR flag (c_cflag tm) CREAD LINUX_CREAD)"
    "linux_get_u32 b 12 = linux_termios_lflag_from_tty (Some t)"
    using 1 2 l n by (simp_all add: b cc_fill_get b4_def b3_def linux_get_put linux_get_put_other)
  show "map (\<lambda>i. if 17 + i < 60 then b ! (17 + i) else 0) [0..<NCCS] = c_cc tm"
    using cc_fill [OF n l(4), of "c_cc tm"] assms(3) by (intro nth_equalityI) (auto simp: b NCCS_def)
qed

lemma termios_roundtrip:
  assumes k: "termios_known (tt_termios t)"
  shows "tt_termios (linux_termios_to_tty (linux_termios_from_tty (Some t)) t') = tt_termios t"
proof -
  define tm where "tm = tt_termios t"
  have c: "length (c_cc tm) = NCCS" using k by (simp add: termios_known_def tm_def)
  note w = from_tty_words [OF refl tm_def c]
  have i: "flag (flag (c_iflag tm) ICRNL LINUX_ICRNL) LINUX_ICRNL ICRNL = c_iflag tm"
    using k by (auto simp: termios_known_def tm_def [symmetric] termios_flags)
  have o: "(let v = flag (c_oflag tm) OPOST LINUX_OPOST OR flag (c_oflag tm) ONLCR LINUX_ONLCR
      in flag v LINUX_OPOST OPOST OR flag v LINUX_ONLCR ONLCR) = c_oflag tm"
    using k by (auto simp: termios_known_def tm_def [symmetric] termios_flags)
  have f: "(let v = LINUX_B38400 OR flag (c_cflag tm) CS8 LINUX_CS8 OR flag (c_cflag tm) CREAD LINUX_CREAD
      in flag v LINUX_CREAD CREAD OR (if v AND LINUX_CS8 = LINUX_CS8 then CS8 else 0)) = c_cflag tm"
    using k by (auto simp: termios_known_def tm_def [symmetric] termios_flags)
  have l: "(let v = linux_termios_lflag_from_tty (Some t)
      in flag v LINUX_ISIG ISIG OR flag v LINUX_ICANON ICANON OR flag v LINUX_ECHO ECHO OR flag v LINUX_ECHOE ECHOE) = c_lflag tm"
    using k by (auto simp: termios_known_def tm_def [symmetric] termios_flags linux_termios_lflag_from_tty_def upt_rec)
  show ?thesis
    using i o f l unfolding linux_termios_to_tty_def Let_def w tm_def [symmetric] by simp
qed

section \<open>Terminals stay in range\<close>

text \<open>
  Everything that happens to the terminals after boot: keys, reads during which further keys may be polled, the
  requests, and whatever the scheduler does. The control characters of a \<open>termios_t\<close> are an array of \<open>NCCS\<close>.
\<close>

inductive tty_reach :: "(u8 list \<Rightarrow> 'w \<Rightarrow> 'w) \<Rightarrow> ('r, 'w) tty_sys \<Rightarrow> bool" for con where
  tr_init: "length ts = MAX_TTYS \<Longrightarrow>
    (\<And>t. t \<in> set ts \<Longrightarrow> length (tt_raw_buf t) = TTY_RAW_BUF_SIZE \<and> length (tt_canon_buf t) = TTY_CANON_BUF_SIZE) \<Longrightarrow>
    tty_reach con (tty_init (ts, s))"
| tr_key: "tty_reach con y \<Longrightarrow> tty_reach con (tty_input_char con k c y)"
| tr_read: "tty_reach con y \<Longrightarrow> tty_read (fold (\<lambda>(k, c). tty_input_char con k c) keys) k n y = (x, bs, y') \<Longrightarrow> tty_reach con y'"
| tr_tcsets: "tty_reach con y \<Longrightarrow> ioctl_tcsets request argp tty copied y = (x, y') \<Longrightarrow> tty_reach con y'"
| tr_tcsetattr: "tty_reach con y \<Longrightarrow> (\<And>tm. copied = Some tm \<Longrightarrow> length (c_cc tm) = NCCS) \<Longrightarrow>
    drunix_tcsetattr tty act copied y = (x, y') \<Longrightarrow> tty_reach con y'"
| tr_tcsetpgrp: "tty_reach con y \<Longrightarrow> drunix_tcsetpgrp tty pgid y = (x, y') \<Longrightarrow> tty_reach con y'"
| tr_sched: "tty_reach con (ts, s) \<Longrightarrow> tty_reach con (ts, s')"

lemma tty_init_ok:
  assumes "length ts = MAX_TTYS"
    and "\<And>t. t \<in> set ts \<Longrightarrow> length (tt_raw_buf t) = TTY_RAW_BUF_SIZE \<and> length (tt_canon_buf t) = TTY_CANON_BUF_SIZE"
  shows "ttys_ok (tty_init (ts, s))"
proof -
  have u: "[0..<MAX_TTYS] = [0, 1, 2, 3]" by (simp add: MAX_TTYS_def upt_rec)
  have o: "tty_ok (tty_init_one t)" if "t \<in> set ts" for t
    using assms(2) [OF that] by (simp add: tty_ok_def tty_init_one_def tty_termios_set_defaults_def TTY_RAW_BUF_SIZE_def TTY_CANON_BUF_SIZE_def)
  have "tty_ok (fst (tty_init (ts, s)) ! i)" if "i < MAX_TTYS" for i
  proof -
    have "i \<in> {0, 1, 2, 3}" using that by (auto simp: MAX_TTYS_def)
    moreover have "ts ! 0 \<in> set ts" "ts ! 1 \<in> set ts" "ts ! 2 \<in> set ts" "ts ! 3 \<in> set ts" using assms(1) by (auto simp: MAX_TTYS_def)
    moreover have "length ts = 4" using assms(1) by (simp add: MAX_TTYS_def)
    ultimately show ?thesis unfolding tty_init_def u by (auto simp: o)
  qed
  moreover have "length (fst (tty_init (ts, s))) = MAX_TTYS" using assms(1) by (simp add: tty_init_def u)
  ultimately show ?thesis by (simp add: ttys_ok_def)
qed

lemma flush_ok: "tty_ok t \<Longrightarrow> tty_ok (tty_flush t)"
  by (simp add: tty_ok_def tty_flush_def TTY_RAW_BUF_SIZE_def TTY_CANON_BUF_SIZE_def)

lemma set_termios_ok: "tty_ok t \<Longrightarrow> length (c_cc tm) = NCCS \<Longrightarrow> tty_ok (t\<lparr>tt_termios := tm\<rparr>)"
  by (simp add: tty_ok_def)

lemma to_tty_ok: "tty_ok t \<Longrightarrow> tty_ok (linux_termios_to_tty b t)"
  unfolding linux_termios_to_tty_def Let_def by (erule set_termios_ok) simp

lemma tcsets_ok: "ttys_ok y \<Longrightarrow> ioctl_tcsets request argp tty copied y = (x, y') \<Longrightarrow> ttys_ok y'"
  by (auto simp: ioctl_tcsets_def intro!: ok_upd flush_ok to_tty_ok split: if_splits option.splits)

lemma tcsetattr_ok:
  "ttys_ok y \<Longrightarrow> (\<And>tm. copied = Some tm \<Longrightarrow> length (c_cc tm) = NCCS) \<Longrightarrow> drunix_tcsetattr tty act copied y = (x, y') \<Longrightarrow> ttys_ok y'"
  by (auto simp: drunix_tcsetattr_def intro!: ok_upd flush_ok set_termios_ok split: if_splits option.splits)

lemma tcsetpgrp_ok: "ttys_ok y \<Longrightarrow> drunix_tcsetpgrp tty pgid y = (x, y') \<Longrightarrow> ttys_ok y'"
  by (auto simp: drunix_tcsetpgrp_def Let_def tty_ok_def intro!: ok_upd split: if_splits option.splits)

lemma keys_ok: "ttys_ok y \<Longrightarrow> ttys_ok (fold (\<lambda>(k, c). tty_input_char con k c) keys y)"
  by (induction keys arbitrary: y) (simp_all add: input_ok split_beta)

lemma tty_reach_ok: "tty_reach con y \<Longrightarrow> ttys_ok y"
proof (induction rule: tty_reach.induct)
  case (tr_read y keys k n x bs y')
  show ?case by (rule read_ok [OF tr_read.IH keys_ok tr_read.hyps(2)])
next
  case (tr_sched ts s s')
  then show ?case by (simp add: ttys_ok_def)
qed (blast intro: tty_init_ok input_ok tcsets_ok tcsetattr_ok tcsetpgrp_ok)+



definition boot_tty :: tty where
  "boot_tty = \<lparr>tt_raw_buf = replicate TTY_RAW_BUF_SIZE 0, tt_raw_head = 0, tt_raw_tail = 0, tt_canon_buf = replicate TTY_CANON_BUF_SIZE 0,
     tt_canon_len = 0, tt_canon_ready = False, tt_termios = \<lparr>c_iflag = 0, c_oflag = 0, c_cflag = 0, c_lflag = 0, c_cc = []\<rparr>,
     tt_ctrl_sid = 0, tt_fg_pgid = 0, tt_interrupted = False, tt_in_use = False\<rparr>"

definition booted :: "(unit, unit) tty_sys" where
  "booted = tty_init (replicate MAX_TTYS boot_tty, two_tasks)"

lemma booted_reach: "tty_reach con booted"
  unfolding booted_def by (rule tr_init) (simp_all add: boot_tty_def)


section \<open>Canonical input is line editing\<close>

lemma canon_take_line:
  assumes "tty_ok t"
  shows "fst (canon_take n t) = take n (canon_line t)" "canon_line (snd (canon_take n t)) = drop n (canon_line t)"
  using assms by (auto simp: canon_take_def canon_line_def Let_def tty_ok_def min_def drop_take)

lemma canon_read:
  assumes "ttys_ok (poll y)" "tty_get k (fst y) = Some i" "0 < n" "sched_current (snd y) = Some c"
    and "\<not> sched_process_has_unblocked_signal (snd y) c" "\<not> tt_interrupted (fst y ! i)"
    and "\<not> sched_process_has_unblocked_signal (snd (poll y)) c" "\<not> tt_interrupted (fst (poll y) ! i)"
    and "c_lflag (tt_termios (fst (poll y) ! i)) AND ICANON \<noteq> 0" "tt_canon_ready (fst (poll y) ! i)"
  shows "\<exists>y'. tty_read poll k n y =
      (IoReturn (int (min n (length (canon_line (fst (poll y) ! i))))), take n (canon_line (fst (poll y) ! i)), y') \<and>
    canon_line (fst y' ! i) = drop n (canon_line (fst (poll y) ! i))"
proof -
  let ?t = "fst (poll y) ! i"
  have i: "i < length (fst (poll y))" "tty_ok ?t" using assms(1) tty_get_slot [OF assms(2)] by (auto simp: ttys_ok_def)
  obtain bs t1 where e: "canon_take n ?t = (bs, t1)" by (cases "canon_take n ?t") blast
  have b: "bs = take n (canon_line ?t)" "canon_line t1 = drop n (canon_line ?t)" using canon_take_line [OF i(2), of n] e by auto
  then have "int (length bs) = int (min n (length (canon_line ?t)))" by simp
  with assms b i(1) e show ?thesis
    by (auto simp: tty_read_def tty_read_was_interrupted_def upd_tty_def Let_def)
qed

text \<open>
  C39: in canonical mode the buffer of a terminal is a line editor. Typing any keys but the signal keys has the
  effect on the line of folding the editing rule over it (a key is appended while fewer than 255 are held, an erase
  key removes the last), the line becomes readable exactly when one of the keys ended it, and a read then
  returns the first bytes of that line and leaves the rest.\<close>

theorem canonical_input_edits_line:
  assumes "ttys_ok y" "tty_get k (fst y) = Some i" "tm = tt_termios (fst y ! i)" "c_lflag tm AND ICANON \<noteq> 0"
    and "\<forall>c \<in> set cs. \<not> is_signal_key tm c" and "typing = fold (tty_input_char con k) cs" "line = fold (line_edit tm) cs (canon_line (fst y ! i))"
  shows "canon_line (fst (typing y) ! i) = line \<and>
    tt_canon_ready (fst (typing y) ! i) = (tt_canon_ready (fst y ! i) \<or> (\<exists>c \<in> set cs. ends_line tm c)) \<and>
    (0 < n \<and> sched_current (snd y) = Some p \<and>
     \<not> sched_process_has_unblocked_signal (snd y) p \<and> \<not> sched_process_has_unblocked_signal (snd (typing y)) p \<and>
     \<not> tt_interrupted (fst y ! i) \<and> \<not> tt_interrupted (fst (typing y) ! i) \<and> tt_canon_ready (fst (typing y) ! i) \<longrightarrow>
     (\<exists>y'. tty_read typing k n y = (IoReturn (int (min n (length line))), take n line, y') \<and> canon_line (fst y' ! i) = drop n line))"
proof -
  note l = inputs_canon_line [OF assms(1-5), of con, folded assms(6)]
  have e: "canon_line (fst (typing y) ! i) = line" using l assms(7) by simp
  show ?thesis
    using l e canon_read [of typing y k i n p] assms(2,4) by auto
qed

lemma canonical_example:
  "tty_get 0 (fst booted) = Some 0" "c_lflag (tt_termios (fst booted ! 0)) AND ICANON \<noteq> 0"
  "list_all (\<lambda>c. \<not> is_signal_key (tt_termios (fst booted ! 0)) c) [0x6C, 0x7F, 0x73, 0x0D]"
  "fold (line_edit (tt_termios (fst booted ! 0))) [0x6C, 0x7F, 0x73, 0x0D] (canon_line (fst booted ! 0)) = [0x73, 0x0A]"
  by code_simp+

theorem canonical_input_edits_line_witness:
  "canon_line (fst (fold (tty_input_char (\<lambda>_ w. w) 0) [0x6C, 0x7F, 0x73, 0x0D] booted) ! 0) = [0x73, 0x0A]"
  using canonical_input_edits_line [OF tty_reach_ok [OF booted_reach] canonical_example(1) refl canonical_example(2) _ refl refl,
    of "[0x6C, 0x7F, 0x73, 0x0D]" "\<lambda>_ w. w"] canonical_example(3,4)
  by (simp add: list_all_iff)

end
