(* ===== verification/Spec2Isabelle.thy ===== *)
theory Spec2Isabelle
  imports Kheap Pmm_X86 Vma Commit Ksort Klog Bcache_Run Sched_Exit Pipe_Run Termios
begin

text \<open>
  A verification development for the core of the Drunix kernel (\<^verbatim>\<open>src/kernel\<close>).

  Plan, in order: memory management (kernel heap, physical pages, VMA table, slab caches,
  commit accounting), the block layer (block cache, device registry, partitions), the
  scheduler with task groups, wait queues and signals, the byte channels (pipes, ptys, ttys),
  the support library (strings, sorting, formatting, log).
\<close>

end
